(* ===== verification/Prelude.thy ===== *)
theory Prelude
  imports Main "HOL-Library.Word"
begin

text \<open>
  What every component of the development shares: the byte type, the faults a C++ operation can
  commit (a value, never a silent default), the result type \<open>fault + 'a\<close> with its sequencing, the
  memory blocks that \<open>memcpy\<close> reads and writes, and the arithmetic of a ring of cells, which the
  byte ring \<open>CircularBuff\<close> and the pointer ring \<open>CircularQueue\<close> both use.
\<close>

section \<open>Hint collections\<close>

named_theorems wf_defs \<open>well-formedness predicates of the components\<close>
named_theorems op_defs \<open>definitions of the modelled operations\<close>

section \<open>Faults and results\<close>

type_synonym byte = "8 word"

datatype fault =
    OutOfBounds    \<comment> \<open>a read or a write outside the block\<close>
  | NullDeref      \<comment> \<open>a member call or an access through NULL\<close>
  | UseAfterFree   \<comment> \<open>an access to a deleted object\<close>
  | BadIterator    \<comment> \<open>incrementing \<open>end()\<close>, or reading an erased position\<close>
  | Unterminated   \<comment> \<open>a string function run on a block with no NUL byte\<close>
  | Blocks         \<comment> \<open>not a fault: the call never returns, the kernel has nothing more to offer\<close>

type_synonym 'a res = "fault + 'a"

definition bindR :: "'a res \<Rightarrow> ('a \<Rightarrow> 'b res) \<Rightarrow> 'b res" where
  "bindR m f = (case m of Inl e \<Rightarrow> Inl e | Inr x \<Rightarrow> f x)"

lemma bindR_simps [simp]:
  "bindR (Inl e) f = Inl e"
  "bindR (Inr x) f = f x"
  by (simp_all add: bindR_def)

lemma bindR_Inr_iff: "bindR m f = Inr y \<longleftrightarrow> (\<exists>x. m = Inr x \<and> f x = Inr y)"
  by (cases m) auto

lemma bindR_Inl_iff: "bindR m f = Inl e \<longleftrightarrow> m = Inl e \<or> (\<exists>x. m = Inr x \<and> f x = Inl e)"
  by (cases m) auto

lemma bindR_assoc: "bindR (bindR m f) g = bindR m (\<lambda>x. bindR (f x) g)"
  by (cases m) auto

lemma set_map_filter: "set (List.map_filter f xs) = {y. \<exists>x \<in> set xs. f x = Some y}"
  by (force simp: List.map_filter_def)

section \<open>Memory blocks\<close>

text \<open>
  A block is a list of cells. An offset or a length comes from a C++ \<open>int\<close>: a negative length is
  converted to a huge \<open>size_t\<close> by \<open>memcpy\<close>, so it is out of bounds, as a negative offset is.
\<close>

definition mem_read :: "'a list \<Rightarrow> int \<Rightarrow> int \<Rightarrow> 'a list res" where
  "mem_read m off n =
     (if off < 0 \<or> n < 0 \<or> int (length m) < off + n then Inl OutOfBounds
      else Inr (take (nat n) (drop (nat off) m)))"

definition mem_put :: "'a list \<Rightarrow> nat \<Rightarrow> 'a list \<Rightarrow> 'a list" where
  "mem_put m k bs = take k m @ bs @ drop (k + length bs) m"

definition mem_write :: "'a list \<Rightarrow> int \<Rightarrow> 'a list \<Rightarrow> 'a list res" where
  "mem_write m off bs =
     (if off < 0 \<or> int (length m) < off + int (length bs) then Inl OutOfBounds
      else Inr (mem_put m (nat off) bs))"

definition memcpy :: "'a list \<Rightarrow> int \<Rightarrow> 'a list \<Rightarrow> int \<Rightarrow> int \<Rightarrow> 'a list res" where
  \<comment> \<open>\<open>memcpy(&dst[doff], &src[soff], n)\<close>: the block \<open>dst\<close> afterwards\<close>
  "memcpy dst doff src soff n =
     bindR (mem_read src soff n) (\<lambda>bs. mem_write dst doff bs)"

lemma mem_read_ok:
  "0 \<le> off \<Longrightarrow> 0 \<le> n \<Longrightarrow> off + n \<le> int (length m) \<Longrightarrow>
     mem_read m off n = Inr (take (nat n) (drop (nat off) m))"
  by (simp add: mem_read_def)

lemma mem_read_fault_iff:
  "mem_read m off n = Inl e \<longleftrightarrow>
     e = OutOfBounds \<and> (off < 0 \<or> n < 0 \<or> int (length m) < off + n)"
  by (auto simp: mem_read_def)

lemma mem_read_length:
  "mem_read m off n = Inr bs \<Longrightarrow> length bs = nat n"
  by (auto simp: mem_read_def split: if_splits)

lemma mem_write_ok:
  "0 \<le> off \<Longrightarrow> off + int (length bs) \<le> int (length m) \<Longrightarrow>
     mem_write m off bs = Inr (mem_put m (nat off) bs)"
  by (simp add: mem_write_def)

lemma length_mem_put [simp]: "k + length bs \<le> length m \<Longrightarrow> length (mem_put m k bs) = length m"
  by (simp add: mem_put_def)

lemma mem_put_Nil [simp]: "mem_put m k [] = m"
  by (simp add: mem_put_def)

lemma mem_put_whole: "length bs = length m \<Longrightarrow> mem_put m 0 bs = bs"
  by (simp add: mem_put_def)

lemma nth_mem_put:
  assumes "k + length bs \<le> length m"
  shows "mem_put m k bs ! i =
    (if k \<le> i \<and> i < k + length bs then bs ! (i - k) else m ! i)"
  using assms by (auto simp: mem_put_def nth_append min_absorb2 simp del: drop_all)

lemma take_drop_mem_put:
  "k + length bs \<le> length m \<Longrightarrow> take (length bs) (drop k (mem_put m k bs)) = bs"
  by (simp add: mem_put_def)

lemma take_mem_put_0:
  "length bs \<le> length m \<Longrightarrow> take (length bs) (mem_put m 0 bs) = bs"
  by (simp add: mem_put_def)

lemma mem_put_append:
  "k + length a + length b \<le> length m \<Longrightarrow>
     mem_put (mem_put m k a) (k + length a) b = mem_put m k (a @ b)"
  by (simp add: mem_put_def ac_simps)

lemma memcpy_ok:
  "0 \<le> soff \<Longrightarrow> 0 \<le> n \<Longrightarrow> soff + n \<le> int (length src) \<Longrightarrow>
   0 \<le> doff \<Longrightarrow> doff + n \<le> int (length dst) \<Longrightarrow>
     memcpy dst doff src soff n =
       Inr (mem_put dst (nat doff) (take (nat n) (drop (nat soff) src)))"
  by (auto simp: memcpy_def mem_read_ok mem_write_def min_def)

lemma memcpy_nat:
  "soff + n \<le> length src \<Longrightarrow> doff + n \<le> length dst \<Longrightarrow>
     memcpy dst (int doff) src (int soff) (int n) = Inr (mem_put dst doff (take n (drop soff src)))"
  by (simp add: memcpy_ok)

lemma memcpy_nat_from0:
  "n \<le> length src \<Longrightarrow> doff + n \<le> length dst \<Longrightarrow>
     memcpy dst (int doff) src 0 (int n) = Inr (mem_put dst doff (take n src))"
  using memcpy_nat [of 0 n src doff dst] by simp

lemma memcpy_nat_to0:
  "soff + n \<le> length src \<Longrightarrow> n \<le> length dst \<Longrightarrow>
     memcpy dst 0 src (int soff) (int n) = Inr (mem_put dst 0 (take n (drop soff src)))"
  using memcpy_nat [of soff n src 0 dst] by simp

lemma memcpy_fault_iff:
  "memcpy dst doff src soff n = Inl e \<longleftrightarrow>
     e = OutOfBounds \<and>
       (soff < 0 \<or> n < 0 \<or> int (length src) < soff + n \<or>
        doff < 0 \<or> int (length dst) < doff + n)"
  by (auto simp: memcpy_def mem_read_def mem_write_def min_def)

lemma memcpy_too_big: "int (length dst) < doff + n \<Longrightarrow> memcpy dst doff src soff n = Inl OutOfBounds"
  by (simp add: memcpy_fault_iff)

lemma memcpy_length: "memcpy dst doff src soff n = Inr d \<Longrightarrow> length d = length dst"
  by (auto simp: memcpy_def bindR_Inr_iff mem_read_def mem_write_def split: if_splits)

text \<open>The first \<open>n\<close> cells of a block as a block of exactly \<open>n\<close> cells, and stores at its parts.\<close>

lemma take_drop_mem_put_after:
  "k + length bs \<le> j \<Longrightarrow> k + length bs \<le> length m \<Longrightarrow> drop j (mem_put m k bs) = drop j m"
  by (simp add: mem_put_def)

lemma mem_put_drop_0: "length bs \<le> length m \<Longrightarrow> mem_put m 0 bs = bs @ drop (length bs) m"
  by (simp add: mem_put_def)

section \<open>A ring of cells\<close>

text \<open>\<open>ring_view m sz s n\<close>: the \<open>n\<close> cells that start at \<open>s\<close> in the ring of the first \<open>sz\<close> cells.\<close>

definition ring_view :: "'a list \<Rightarrow> nat \<Rightarrow> nat \<Rightarrow> nat \<Rightarrow> 'a list" where
  "ring_view m sz s n = map (\<lambda>i. m ! ((s + i) mod sz)) [0..<n]"

lemma length_ring_view [simp]: "length (ring_view m sz s n) = n"
  by (simp add: ring_view_def)

lemma ring_view_0 [simp]: "ring_view m sz s 0 = []"
  by (simp add: ring_view_def)

lemma nth_ring_view: "i < n \<Longrightarrow> ring_view m sz s n ! i = m ! ((s + i) mod sz)"
  by (simp add: ring_view_def)

lemma ring_view_mod [simp]: "ring_view m sz (s mod sz) n = ring_view m sz s n"
  by (simp add: ring_view_def mod_simps)

lemma ring_view_add:
  "ring_view m sz s (n + k) = ring_view m sz s n @ ring_view m sz (s + n) k"
  by (rule nth_equalityI) (auto simp: nth_ring_view nth_append add.assoc)

lemma take_ring_view: "k \<le> n \<Longrightarrow> take k (ring_view m sz s n) = ring_view m sz s k"
  by (simp add: ring_view_def take_map)

lemma drop_ring_view: "k \<le> n \<Longrightarrow> drop k (ring_view m sz s n) = ring_view m sz (s + k) (n - k)"
  by (rule nth_equalityI) (auto simp: nth_ring_view add.assoc)

lemma ring_view_linear:
  "s + n \<le> sz \<Longrightarrow> sz \<le> length m \<Longrightarrow> ring_view m sz s n = take n (drop s m)"
  by (rule nth_equalityI) (auto simp: nth_ring_view)

lemma ring_view_wrap:
  assumes "s \<le> sz" "sz < s + n" "n \<le> sz" "sz \<le> length m"
  shows "ring_view m sz s n = take (sz - s) (drop s m) @ take (n - (sz - s)) m"
proof -
  have "ring_view m sz s n = ring_view m sz s ((sz - s) + (n - (sz - s)))"
    using assms by simp
  also have "\<dots> = ring_view m sz s (sz - s) @ ring_view m sz (s + (sz - s)) (n - (sz - s))"
    by (rule ring_view_add)
  also have "ring_view m sz s (sz - s) = take (sz - s) (drop s m)"
    using assms by (simp add: ring_view_linear)
  also have "ring_view m sz (s + (sz - s)) (n - (sz - s)) = ring_view m sz 0 (n - (sz - s))"
    using assms ring_view_mod [of m sz sz "n - (sz - s)"] by simp
  also have "\<dots> = take (n - (sz - s)) m"
    using assms by (simp add: ring_view_linear)
  finally show ?thesis .
qed

text \<open>Two offsets less than a full turn apart are different cells.\<close>

lemma ring_cells_differ:
  fixes i j s sz :: nat
  assumes "i < j" "j < i + sz"
  shows "(s + i) mod sz \<noteq> (s + j) mod sz"
proof
  assume "(s + i) mod sz = (s + j) mod sz"
  then have "sz dvd (s + j) - (s + i)"
    by (metis mod_eq_dvd_iff_nat assms(1) add_left_mono less_imp_le_nat)
  then have "sz dvd j - i" by simp
  moreover have "0 < j - i" "j - i < sz" using assms by auto
  ultimately show False by (simp add: nat_dvd_not_less)
qed

text \<open>Writing behind the used part of a ring appends to what the ring shows.\<close>

lemma ring_write:
  assumes sz: "sz \<le> length m" and room: "u + length bs \<le> sz"
    and t: "t = (h + u) mod sz" and fits: "t + length bs \<le> sz"
  shows "ring_view (mem_put m t bs) sz h (u + length bs) = ring_view m sz h u @ bs"
proof (rule nth_equalityI)
  show "length (ring_view (mem_put m t bs) sz h (u + length bs)) = length (ring_view m sz h u @ bs)"
    by simp
next
  fix i assume "i < length (ring_view (mem_put m t bs) sz h (u + length bs))"
  then have i: "i < u + length bs" by simp
  have put: "t + length bs \<le> length m" using sz fits by simp
  show "ring_view (mem_put m t bs) sz h (u + length bs) ! i = (ring_view m sz h u @ bs) ! i"
  proof (cases "i < u")
    case True
    have "\<not> (t \<le> (h + i) mod sz \<and> (h + i) mod sz < t + length bs)"
    proof
      assume a: "t \<le> (h + i) mod sz \<and> (h + i) mod sz < t + length bs"
      define j where "j = (h + i) mod sz - t"
      have j: "(h + i) mod sz = t + j" "j < length bs" using a by (auto simp: j_def)
      have "(h + (u + j)) mod sz = (t + j) mod sz"
        using t by (simp add: mod_simps add.assoc)
      also have "\<dots> = t + j" using j fits by simp
      finally have "(h + i) mod sz = (h + (u + j)) mod sz" using j by simp
      moreover have "i < u + j" "u + j < i + sz" using True j room by auto
      ultimately show False using ring_cells_differ by blast
    qed
    then show ?thesis
      using True i by (simp add: nth_ring_view nth_append nth_mem_put [OF put] if_not_P)
  next
    case False
    then have k: "i - u < length bs" using i by simp
    have "(t + (i - u)) mod sz = (h + u + (i - u)) mod sz"
      unfolding t by (simp add: mod_simps)
    then have "(h + i) mod sz = (t + (i - u)) mod sz"
      using False by simp
    also have "\<dots> = t + (i - u)" using k fits by simp
    finally have "ring_view (mem_put m t bs) sz h (u + length bs) ! i = mem_put m t bs ! (t + (i - u))"
      using i by (simp add: nth_ring_view)
    also have "\<dots> = bs ! (i - u)"
      unfolding nth_mem_put [OF put] using k by simp
    finally show ?thesis
      using False by (simp add: nth_append)
  qed
qed


text \<open>The same when the write reaches the end of the ring and goes on at its start.\<close>

lemma ring_write_split:
  assumes sz: "sz \<le> length m" and room: "u + length bs \<le> sz"
    and t: "t = (h + u) mod sz" and over: "t < sz" "sz < t + length bs"
  shows "ring_view (mem_put (mem_put m t (take (sz - t) bs)) 0 (drop (sz - t) bs)) sz h (u + length bs)
     = ring_view m sz h u @ bs"
proof -
  let ?k = "sz - t"
  let ?m1 = "mem_put m t (take ?k bs)"
  have lb: "length (take ?k bs) = ?k" using over by simp
  have tot: "u + ?k + length (drop ?k bs) = u + length bs" using over by simp
  have "(h + (u + ?k)) mod sz = (t + ?k) mod sz"
    by (simp add: t mod_simps add.assoc)
  then have zero: "0 = (h + (u + ?k)) mod sz" using over by simp
  have "ring_view ?m1 sz h (u + ?k) = ring_view m sz h u @ take ?k bs"
    using ring_write [of sz m u "take ?k bs" t h, unfolded lb, OF sz _ t] over room by simp
  moreover have "ring_view (mem_put ?m1 0 (drop ?k bs)) sz h (u + ?k + length (drop ?k bs))
      = ring_view ?m1 sz h (u + ?k) @ drop ?k bs"
  proof (rule ring_write)
    show "sz \<le> length ?m1" using sz over lb length_mem_put [of t "take ?k bs" m] by simp
  qed (use tot room zero in simp_all)
  ultimately show ?thesis unfolding tot by simp
qed

end
