(* ===== verification/CircBuff.thy ===== *)
theory CircBuff
  imports Prelude
begin

text \<open>
  \<open>CircularBuff\<close> (include/CircularBuff.h, src/CircularBuff.cpp): the byte ring each client owns.
  The record has the class's fields; \<open>m_pchBufferHeader\<close> is NULL (\<open>None\<close>) or a block of
  \<open>m_iBufferSize + 1\<close> bytes. Every operation writes its \<open>memcpy\<close> calls out, so a copy that leaves
  a block is the fault \<open>OutOfBounds\<close>. Calls to the log are left out. \<open>cb_wf\<close> is the invariant,
  \<open>cb_contents\<close> the abstraction: the bytes still to be read, oldest first.
\<close>

section \<open>State\<close>

definition CIR_BUFSIZE :: int where "CIR_BUFSIZE = 1024000"
definition RECV_NOT_ENOUGH :: int where "RECV_NOT_ENOUGH = -2"
definition PACKET_HEADER_size :: int where "PACKET_HEADER_size = 4"

record CircularBuff =
  m_iHead :: int
  m_iTail :: int
  m_iBufferSize :: int
  m_iUseBufferSize :: int
  m_pchBufferHeader :: "byte list option"

definition deref :: "'a option \<Rightarrow> 'a res" where
  "deref p = (case p of None \<Rightarrow> Inl NullDeref | Some x \<Rightarrow> Inr x)"

lemma deref_simps [simp]: "deref None = Inl NullDeref" "deref (Some x) = Inr x"
  by (simp_all add: deref_def)

section \<open>Operations\<close>

text \<open>\<open>new char[n]\<close> leaves its bytes uninitialised: \<open>junk\<close> is what the allocator happened to hold.\<close>

definition new_chars :: "(nat \<Rightarrow> byte) \<Rightarrow> int \<Rightarrow> byte list" where
  "new_chars junk n = map junk [0..<nat n]"

definition NewBuffer :: "(nat \<Rightarrow> byte) \<Rightarrow> CircularBuff \<Rightarrow> int \<Rightarrow> int \<times> CircularBuff" where
  "NewBuffer junk b iSize =
     (if m_pchBufferHeader b \<noteq> None then (-1, b)
      else (iSize, b\<lparr>m_pchBufferHeader := Some (new_chars junk (iSize + 1)),
                     m_iBufferSize := iSize, m_iUseBufferSize := 0\<rparr>))"

definition CircularBuff_new :: "(nat \<Rightarrow> byte) \<Rightarrow> CircularBuff" where
  "CircularBuff_new junk =
     snd (NewBuffer junk
       \<lparr>m_iHead = 0, m_iTail = 0, m_iBufferSize = 0, m_iUseBufferSize = 0,
        m_pchBufferHeader = None\<rparr> CIR_BUFSIZE)"

definition CircularBuff_delete :: "CircularBuff \<Rightarrow> CircularBuff" where
  "CircularBuff_delete b = b\<lparr>m_iHead := 0, m_iTail := 0, m_pchBufferHeader := None\<rparr>"

definition memset0 :: "byte list \<Rightarrow> int \<Rightarrow> byte list res" where
  "memset0 m n = mem_write m 0 (replicate (nat n) 0)"

definition InitBuffer :: "CircularBuff \<Rightarrow> CircularBuff res" where
  "InitBuffer b =
     bindR (deref (m_pchBufferHeader b)) (\<lambda>m.
     bindR (memset0 m (m_iBufferSize b)) (\<lambda>m'.
       Inr (b\<lparr>m_iHead := 0, m_iTail := 0, m_iUseBufferSize := 0, m_pchBufferHeader := Some m'\<rparr>)))"

definition BufferClear :: "CircularBuff \<Rightarrow> CircularBuff res" where
  "BufferClear b =
     bindR (deref (m_pchBufferHeader b)) (\<lambda>m.
     bindR (memset0 m (m_iBufferSize b)) (\<lambda>m'.
       Inr (b\<lparr>m_pchBufferHeader := Some m', m_iHead := 0, m_iTail := 0, m_iUseBufferSize := 0\<rparr>)))"

definition GetTotalSize :: "CircularBuff \<Rightarrow> int" where
  "GetTotalSize b = m_iBufferSize b"

definition GetUsedSize :: "CircularBuff \<Rightarrow> int" where
  "GetUsedSize b = m_iUseBufferSize b"

definition GetFreeSize :: "CircularBuff \<Rightarrow> int" where
  "GetFreeSize b = m_iBufferSize b - m_iUseBufferSize b"

definition GetHeader :: "CircularBuff \<Rightarrow> byte list \<Rightarrow> (int \<times> byte list) res" where
  \<comment> \<open>\<open>dst\<close> is the caller's block \<open>_pchBuffer\<close>; the result is the return value and \<open>dst\<close> afterwards\<close>
  "GetHeader b dst =
     bindR (deref (m_pchBufferHeader b)) (\<lambda>m.
     bindR
       (if m_iHead b \<le> m_iTail b + PACKET_HEADER_size
        then memcpy dst 0 m (m_iHead b) PACKET_HEADER_size
        else let iRightLen = m_iBufferSize b - m_iHead b in
          if PACKET_HEADER_size \<le> iRightLen
          then memcpy dst 0 m (m_iHead b) PACKET_HEADER_size
          else bindR (memcpy dst 0 m (m_iHead b) iRightLen) (\<lambda>dst1.
                 memcpy dst1 iRightLen m 0 (PACKET_HEADER_size - iRightLen)))
       (\<lambda>dst'. Inr (0, dst')))"

definition Resize :: "(nat \<Rightarrow> byte) \<Rightarrow> CircularBuff \<Rightarrow> CircularBuff res" where
  "Resize junk b =
     bindR (deref (m_pchBufferHeader b)) (\<lambda>m.
     let pchNewBuffer = new_chars junk (m_iBufferSize b + CIR_BUFSIZE + 1) in
     bindR
       (if m_iHead b \<le> m_iTail b
        then memcpy pchNewBuffer 0 m (m_iHead b) (m_iTail b - m_iHead b)
        else let iRightLen = m_iBufferSize b - m_iHead b in
          bindR (memcpy pchNewBuffer 0 m (m_iHead b) iRightLen) (\<lambda>n1.
            if m_iTail b > 0 then memcpy n1 iRightLen m 0 (m_iTail b) else Inr n1))
       (\<lambda>n'. Inr (b\<lparr>m_pchBufferHeader := Some n', m_iBufferSize := m_iBufferSize b + CIR_BUFSIZE,
                    m_iHead := 0, m_iTail := m_iUseBufferSize b\<rparr>)))"

definition Put :: "CircularBuff \<Rightarrow> byte list \<Rightarrow> int \<Rightarrow> (int \<times> CircularBuff) res" where
  \<comment> \<open>\<open>src\<close> is the caller's block \<open>_pchBuffer\<close>, \<open>len\<close> is \<open>_iLength\<close>\<close>
  "Put b src len =
     (if len > GetFreeSize b then Inr (-1, b)
      else bindR (deref (m_pchBufferHeader b)) (\<lambda>m.
        bindR
          (if m_iHead b \<le> m_iTail b + len
           then (if m_iHead b = 0
                 then memcpy m (m_iTail b) src 0 len
                 else let iFree = m_iBufferSize b - m_iTail b in
                   if len \<le> iFree then memcpy m (m_iTail b) src 0 len
                   else bindR (memcpy m (m_iTail b) src 0 iFree) (\<lambda>m1.
                          memcpy m1 0 src iFree (len - iFree)))
           else memcpy m (m_iTail b) src 0 len)
          (\<lambda>m'. let t = m_iTail b + len;
                     t' = (if m_iBufferSize b \<le> t then t - m_iBufferSize b else t)
                 in Inr (len, b\<lparr>m_pchBufferHeader := Some m', m_iTail := t',
                                m_iUseBufferSize := m_iUseBufferSize b + len\<rparr>))))"

definition Get :: "CircularBuff \<Rightarrow> byte list \<Rightarrow> int \<Rightarrow> (int \<times> byte list \<times> CircularBuff) res" where
  \<comment> \<open>\<open>dst\<close> is the caller's block \<open>_pchBuffer\<close>; the result is the return value, \<open>dst\<close> and the ring\<close>
  "Get b dst len =
     (if len > GetUsedSize b then Inr (RECV_NOT_ENOUGH, dst, b)
      else bindR (deref (m_pchBufferHeader b)) (\<lambda>m.
        bindR
          (if m_iHead b \<le> m_iTail b + len
           then memcpy dst 0 m (m_iHead b) len
           else let iRightLen = m_iBufferSize b - m_iHead b in
             if len \<le> iRightLen then memcpy dst 0 m (m_iHead b) len
             else bindR (memcpy dst 0 m (m_iHead b) iRightLen) (\<lambda>dst1.
                    memcpy dst1 iRightLen m 0 (len - iRightLen)))
          (\<lambda>dst'. let h = m_iHead b + len;
                       h' = (if m_iBufferSize b \<le> h then h - m_iBufferSize b else h)
                   in Inr (len, dst', b\<lparr>m_iHead := h',
                                       m_iUseBufferSize := m_iUseBufferSize b - len\<rparr>))))"

lemmas cb_size_defs [op_defs] = GetTotalSize_def GetUsedSize_def GetFreeSize_def PACKET_HEADER_size_def

section \<open>Invariant and abstraction\<close>

definition cb_wf :: "CircularBuff \<Rightarrow> bool" where
  "cb_wf b \<longleftrightarrow>
     (case m_pchBufferHeader b of None \<Rightarrow> False
      | Some m \<Rightarrow> int (length m) = m_iBufferSize b + 1) \<and>
     0 \<le> m_iHead b \<and> m_iHead b < m_iBufferSize b \<and>
     0 \<le> m_iUseBufferSize b \<and> m_iUseBufferSize b \<le> m_iBufferSize b \<and>
     m_iTail b = (m_iHead b + m_iUseBufferSize b) mod m_iBufferSize b"

declare cb_wf_def [wf_defs]

definition cb_contents :: "CircularBuff \<Rightarrow> byte list" where
  "cb_contents b =
     (case m_pchBufferHeader b of None \<Rightarrow> []
      | Some m \<Rightarrow> ring_view m (nat (m_iBufferSize b)) (nat (m_iHead b)) (nat (m_iUseBufferSize b)))"

text \<open>A well-formed ring in natural numbers: the shape all proofs below start from.\<close>

definition cb_make :: "byte list \<Rightarrow> nat \<Rightarrow> nat \<Rightarrow> nat \<Rightarrow> CircularBuff" where
  "cb_make m sz h u =
     \<lparr>m_iHead = int h, m_iTail = int ((h + u) mod sz), m_iBufferSize = int sz,
      m_iUseBufferSize = int u, m_pchBufferHeader = Some m\<rparr>"

lemma cb_make_sel [simp]:
  "m_iHead (cb_make m sz h u) = int h"
  "m_iTail (cb_make m sz h u) = int ((h + u) mod sz)"
  "m_iBufferSize (cb_make m sz h u) = int sz"
  "m_iUseBufferSize (cb_make m sz h u) = int u"
  "m_pchBufferHeader (cb_make m sz h u) = Some m"
  by (simp_all add: cb_make_def)

lemma cb_make_wf: "length m = Suc sz \<Longrightarrow> h < sz \<Longrightarrow> u \<le> sz \<Longrightarrow> cb_wf (cb_make m sz h u)"
  by (simp add: cb_wf_def zmod_int)

lemma cb_make_contents [simp]: "cb_contents (cb_make m sz h u) = ring_view m sz h u"
  by (simp add: cb_contents_def)

lemma cb_wfE:
  assumes "cb_wf b"
  obtains m sz h u where "b = cb_make m sz h u" "length m = Suc sz" "h < sz" "u \<le> sz"
proof -
  from assms obtain m where m: "m_pchBufferHeader b = Some m" "int (length m) = m_iBufferSize b + 1"
    by (auto simp: cb_wf_def split: option.splits)
  let ?sz = "nat (m_iBufferSize b)" and ?h = "nat (m_iHead b)" and ?u = "nat (m_iUseBufferSize b)"
  from assms have nn: "0 \<le> m_iHead b" "0 \<le> m_iUseBufferSize b" "0 \<le> m_iBufferSize b"
    by (auto simp: cb_wf_def)
  have "m_iTail b = int ((?h + ?u) mod ?sz)"
    using assms nn by (simp add: cb_wf_def zmod_int)
  then have "b = cb_make m ?sz ?h ?u"
    using m nn by (simp add: cb_make_def)
  moreover have "length m = Suc ?sz" using m nn by simp
  moreover have "?h < ?sz" "?u \<le> ?sz" using assms by (auto simp: cb_wf_def)
  ultimately show ?thesis by (rule that)
qed

lemma cb_wf_used: "cb_wf b \<Longrightarrow> m_iUseBufferSize b = int (length (cb_contents b))"
  by (elim cb_wfE) simp


section \<open>Construction\<close>

lemma length_new_chars [simp]: "length (new_chars junk n) = nat n"
  by (simp add: new_chars_def)

lemma CircularBuff_new_eq:
  "CircularBuff_new junk = cb_make (new_chars junk 1024001) 1024000 0 0"
  by (simp add: CircularBuff_new_def NewBuffer_def cb_make_def CIR_BUFSIZE_def)

lemma CircularBuff_new_wf: "cb_wf (CircularBuff_new junk)"
  by (simp add: CircularBuff_new_eq cb_make_wf)

lemma InitBuffer_ok:
  assumes "cb_wf b"
  obtains b' where "InitBuffer b = Inr b'" "cb_wf b'" "cb_contents b' = []"
    "m_iBufferSize b' = m_iBufferSize b"
proof -
  from assms obtain m sz h u where b: "b = cb_make m sz h u" "length m = Suc sz" "h < sz" "u \<le> sz"
    by (rule cb_wfE)
  let ?m = "mem_put m 0 (replicate sz 0)"
  have "InitBuffer b = Inr (cb_make ?m sz 0 0)"
    using b by (simp add: InitBuffer_def memset0_def mem_write_def cb_make_def)
  moreover have "cb_wf (cb_make ?m sz 0 0)" using b by (intro cb_make_wf) auto
  ultimately show ?thesis using b by (intro that) auto
qed

lemma BufferClear_eq: "BufferClear b = InitBuffer b"
  by (cases b) (simp add: BufferClear_def InitBuffer_def)

section \<open>Put\<close>

lemma ring_tail_step:
  fixes t k sz :: nat
  assumes "t < sz" "k \<le> sz"
  shows "(if int sz \<le> int t + int k then int t + int k - int sz else int t + int k) = int ((t + k) mod sz)"
proof (cases "sz \<le> t + k")
  case True
  then have "(t + k) mod sz = t + k - sz"
    using assms by (simp add: le_mod_geq)
  then show ?thesis using True by (simp add: of_nat_diff)
qed (use assms in auto)

text \<open>Once the copy is known to succeed, the index arithmetic at the end of \<open>Put\<close> is the ring's.\<close>

lemma Put_finish:
  assumes h: "h < sz" and room: "u + k \<le> sz" and t: "t = (h + u) mod sz"
    and copy: "(if int h \<le> int t + int k
           then (if int h = 0
                 then memcpy m (int t) src 0 (int k)
                 else let iFree = int sz - int t in
                   if int k \<le> iFree then memcpy m (int t) src 0 (int k)
                   else bindR (memcpy m (int t) src 0 iFree) (\<lambda>m1.
                          memcpy m1 0 src iFree (int k - iFree)))
           else memcpy m (int t) src 0 (int k)) = Inr m'"
  shows "Put (cb_make m sz h u) src (int k) = Inr (int k, cb_make m' sz h (u + k))"
proof -
  have "t < sz" using h t by simp
  moreover have "(t + k) mod sz = (h + (u + k)) mod sz"
    by (simp add: t mod_simps add.assoc)
  ultimately show ?thesis
    using room ring_tail_step [of t sz k]
    unfolding Put_def GetFreeSize_def Let_def cb_make_sel t [symmetric] deref_simps bindR_simps
      copy [unfolded Let_def]
    by (simp add: cb_make_def)
qed

lemma Put_one_piece:
  assumes len: "length m = Suc sz" and h: "h < sz" and room: "u + k \<le> sz" and src: "k \<le> length src"
    and t: "t = (h + u) mod sz" and fits: "t + k \<le> sz"
  shows "Put (cb_make m sz h u) src (int k) =
    Inr (int k, cb_make (mem_put m t (take k src)) sz h (u + k))"
proof -
  have "memcpy m (int t) src 0 (int k) = Inr (mem_put m t (take k src))"
    using fits len src by (simp add: memcpy_ok)
  then show ?thesis
    using fits by (intro Put_finish [OF h room t]) (auto simp: Let_def)
qed

lemma Put_two_pieces:
  assumes len: "length m = Suc sz" and h: "h < sz" and room: "u + k \<le> sz" and src: "k \<le> length src"
    and t: "t = (h + u) mod sz" and over: "sz < t + k"
  shows "Put (cb_make m sz h u) src (int k) =
    Inr (int k, cb_make (mem_put (mem_put m t (take (sz - t) src)) 0 (take (k - (sz - t)) (drop (sz - t) src)))
      sz h (u + k))"
proof (rule Put_finish [OF h room t])
  let ?k1 = "sz - t"
  let ?m1 = "mem_put m t (take ?k1 src)"
  let ?m2 = "mem_put ?m1 0 (take (k - ?k1) (drop ?k1 src))"
  have tsz: "t < sz" using h t by simp
  have h0: "0 < h"
  proof (rule ccontr)
    assume "\<not> 0 < h"
    then show False using over room h t by (cases "u = sz") auto
  qed
  have l1: "length ?m1 = Suc sz" using tsz len src over by simp
  have e1: "int sz - int t = int ?k1" using tsz by simp
  have e2: "int k - int ?k1 = int (k - ?k1)" using over by simp
  have c1: "memcpy m (int t) src 0 (int ?k1) = Inr ?m1"
    using tsz len src over by (intro memcpy_nat_from0) auto
  have c2: "memcpy ?m1 0 src (int ?k1) (int (k - ?k1)) = Inr ?m2"
    using l1 src over room by (intro memcpy_nat_to0) auto
  have "int h \<le> int t + int k" "\<not> int k \<le> int ?k1" "int h \<noteq> 0"
    using over h0 h tsz by auto
  then show "(if int h \<le> int t + int k
       then (if int h = 0
             then memcpy m (int t) src 0 (int k)
             else let iFree = int sz - int t in
               if int k \<le> iFree then memcpy m (int t) src 0 (int k)
               else bindR (memcpy m (int t) src 0 iFree) (\<lambda>m1.
                      memcpy m1 0 src iFree (int k - iFree)))
       else memcpy m (int t) src 0 (int k)) = Inr ?m2"
    unfolding e1 Let_def e2 by (simp only: if_True if_False c1 c2 bindR_simps)
qed

lemma Put_make:
  assumes len: "length m = Suc sz" and h: "h < sz" and room: "u + k \<le> sz" and src: "k \<le> length src"
  shows "\<exists>m'. Put (cb_make m sz h u) src (int k) = Inr (int k, cb_make m' sz h (u + k)) \<and>
     length m' = Suc sz \<and> ring_view m' sz h (u + k) = ring_view m sz h u @ take k src"
proof -
  define t where t: "t = (h + u) mod sz"
  let ?bs = "take k src"
  have tsz: "t < sz" using h by (simp add: t)
  have lb: "length ?bs = k" using src by simp
  show ?thesis
  proof (cases "t + k \<le> sz")
    case True
    have "ring_view (mem_put m t ?bs) sz h (u + k) = ring_view m sz h u @ ?bs"
      using ring_write [of sz m u ?bs t h, unfolded lb, OF _ room t True] len by simp
    then show ?thesis
      using Put_one_piece [OF assms t True] True lb len by auto
  next
    case False
    then have over: "sz < t + k" by simp
    let ?m2 = "mem_put (mem_put m t (take (sz - t) src)) 0 (take (k - (sz - t)) (drop (sz - t) src))"
    have pieces: "take (sz - t) ?bs = take (sz - t) src"
        "drop (sz - t) ?bs = take (k - (sz - t)) (drop (sz - t) src)"
      using over by (simp_all add: drop_take)
    have "ring_view ?m2 sz h (u + k) = ring_view m sz h u @ ?bs"
      using ring_write_split [of sz m u ?bs t h, unfolded lb pieces, OF _ room t tsz over] len by simp
    moreover have "length ?m2 = Suc sz"
      using len tsz over room src by (subst length_mem_put; subst length_mem_put) auto
    ultimately show ?thesis
      using Put_two_pieces [OF assms t over] by blast
  qed
qed

section \<open>Get\<close>

text \<open>
  \<open>Get\<close> tests \<open>m_iHead <= m_iTail + _iLength\<close> to tell whether the bytes lie in one piece. They do
  when the head is behind the tail; when the ring has wrapped and the test still succeeds, the
  single \<open>memcpy\<close> runs on past the end of the ring. \<open>cb_get_ok\<close> is the exact condition under which
  the copy is the right one.
\<close>

definition cb_get_ok :: "CircularBuff \<Rightarrow> int \<Rightarrow> bool" where
  "cb_get_ok b len \<longleftrightarrow>
     m_iHead b + len \<le> m_iBufferSize b \<or> m_iTail b + len < m_iHead b"

lemma Get_finish:
  assumes h: "h < sz" and u: "k \<le> u" "u \<le> sz" and t: "t = (h + u) mod sz"
    and copy: "(if int h \<le> int t + int k then memcpy dst 0 m (int h) (int k)
           else let iRightLen = int sz - int h in
             if int k \<le> iRightLen then memcpy dst 0 m (int h) (int k)
             else bindR (memcpy dst 0 m (int h) iRightLen) (\<lambda>dst1.
                    memcpy dst1 iRightLen m 0 (int k - iRightLen))) = Inr dst'"
  shows "Get (cb_make m sz h u) dst (int k) =
    Inr (int k, dst', cb_make m sz ((h + k) mod sz) (u - k))"
proof -
  have "((h + k) mod sz + (u - k)) mod sz = (h + k + (u - k)) mod sz"
    by (rule mod_add_left_eq)
  then have "((h + k) mod sz + (u - k)) mod sz = t"
    using u t by simp
  then show ?thesis
    using u ring_tail_step [OF h, of k]
    unfolding Get_def GetUsedSize_def Let_def cb_make_sel t [symmetric] deref_simps bindR_simps
      copy [unfolded Let_def]
    by (simp add: cb_make_def of_nat_diff t)
qed

lemma Get_make:
  assumes len: "length m = Suc sz" and h: "h < sz" and u: "k \<le> u" "u \<le> sz"
    and dst: "k \<le> length dst" and ok: "cb_get_ok (cb_make m sz h u) (int k)"
  shows "Get (cb_make m sz h u) dst (int k) =
    Inr (int k, mem_put dst 0 (ring_view m sz h k), cb_make m sz ((h + k) mod sz) (u - k))"
proof (cases "h + k \<le> sz")
  case True
  define t where t: "t = (h + u) mod sz"
  have "memcpy dst 0 m (int h) (int k) = Inr (mem_put dst 0 (ring_view m sz h k))"
    using True len dst by (simp add: memcpy_ok ring_view_linear)
  then show ?thesis
    using True by (intro Get_finish [OF h u t]) (auto simp: Let_def)
next
  case False
  define t where t: "t = (h + u) mod sz"
  have far: "t + k < h" using ok False by (simp add: cb_get_ok_def t)
  let ?r = "sz - h"
  have e: "int sz - int h = int ?r" "int k - int ?r = int (k - ?r)"
    using h False by auto
  have wrap: "ring_view m sz h k = take ?r (drop h m) @ take (k - ?r) m"
    using h False u len by (intro ring_view_wrap) auto
  have c1: "memcpy dst 0 m (int h) (int ?r) = Inr (mem_put dst 0 (take ?r (drop h m)))"
    using h len dst False by (intro memcpy_nat_to0) auto
  have c2: "memcpy (mem_put dst 0 (take ?r (drop h m))) (int ?r) m 0 (int (k - ?r))
      = Inr (mem_put dst 0 (ring_view m sz h k))"
  proof -
    let ?a = "take ?r (drop h m)" and ?b = "take (k - ?r) m"
    have la: "length ?a = ?r" "length ?b = k - ?r" using len h u False by auto
    have "mem_put (mem_put dst 0 ?a) (0 + length ?a) ?b = mem_put dst 0 (?a @ ?b)"
      using la dst False by (intro mem_put_append) linarith
    moreover have "length (mem_put dst 0 ?a) = length dst"
      using la dst False by (intro length_mem_put) linarith
    ultimately show ?thesis
      unfolding wrap la add_0 using len u dst False h by (subst memcpy_nat_from0) auto
  qed
  show ?thesis
  proof (rule Get_finish [OF h u t])
    have "\<not> int h \<le> int t + int k" "\<not> int k \<le> int ?r" using far False h by auto
    then show "(if int h \<le> int t + int k then memcpy dst 0 m (int h) (int k)
       else let iRightLen = int sz - int h in
         if int k \<le> iRightLen then memcpy dst 0 m (int h) (int k)
         else bindR (memcpy dst 0 m (int h) iRightLen) (\<lambda>dst1.
                memcpy dst1 iRightLen m 0 (int k - iRightLen))) =
       Inr (mem_put dst 0 (ring_view m sz h k))"
      unfolding e Let_def by (simp only: if_False c1 c2 bindR_simps)
  qed
qed


text \<open>In a wrapped ring the condition is about the free space: the gap between tail and head.\<close>

lemma cb_get_ok_free:
  assumes "cb_wf b" "0 \<le> len" "len \<le> GetUsedSize b"
  shows "cb_get_ok b len \<longleftrightarrow>
    m_iHead b + len \<le> m_iBufferSize b \<or> len < GetFreeSize b"
proof -
  from assms(1) obtain m sz h u where b: "b = cb_make m sz h u" "length m = Suc sz" "h < sz" "u \<le> sz"
    by (rule cb_wfE)
  show ?thesis
  proof (cases "m_iHead b + len \<le> m_iBufferSize b")
    case False
    then have "sz \<le> h + u" using assms b by (auto simp: GetUsedSize_def)
    then have "(h + u) mod sz = h + u - sz" using b by (simp add: le_mod_geq)
    then show ?thesis
      using False b \<open>sz \<le> h + u\<close> by (auto simp: cb_get_ok_def GetFreeSize_def of_nat_diff)
  qed (simp add: cb_get_ok_def)
qed

lemma Get_spec:
  assumes wf: "cb_wf b" and len: "0 \<le> len" "len \<le> GetUsedSize b" "len \<le> int (length dst)"
    and ok: "cb_get_ok b len"
  obtains b' where "Get b dst len = Inr (len, mem_put dst 0 (take (nat len) (cb_contents b)), b')"
    "cb_wf b'" "cb_contents b' = drop (nat len) (cb_contents b)"
    "m_iBufferSize b' = m_iBufferSize b"
    "GetUsedSize b' = GetUsedSize b - len"
proof -
  from wf obtain m sz h u where b: "b = cb_make m sz h u" "length m = Suc sz" "h < sz" "u \<le> sz"
    by (rule cb_wfE)
  define k where "k = nat len"
  have k: "len = int k" "k \<le> u" "k \<le> length dst" using len b by (auto simp: k_def GetUsedSize_def)
  let ?b' = "cb_make m sz ((h + k) mod sz) (u - k)"
  have "Get b dst len = Inr (len, mem_put dst 0 (take (nat len) (cb_contents b)), ?b')"
    using Get_make [of m sz h k u dst] b k ok by (simp add: take_ring_view)
  moreover have "cb_wf ?b'" using b by (intro cb_make_wf) auto
  moreover have "cb_contents ?b' = drop (nat len) (cb_contents b)"
    using b k by (simp add: drop_ring_view)
  moreover have "m_iBufferSize ?b' = m_iBufferSize b" using b by simp
  moreover have "GetUsedSize ?b' = GetUsedSize b - len" using b k by (simp add: GetUsedSize_def of_nat_diff)
  ultimately show ?thesis by (rule that)
qed

lemma Put_spec:
  assumes wf: "cb_wf b" and len: "0 \<le> len" "len \<le> int (length src)" "len \<le> GetFreeSize b"
  obtains b' where "Put b src len = Inr (len, b')" "cb_wf b'"
    "cb_contents b' = cb_contents b @ take (nat len) src"
    "m_iBufferSize b' = m_iBufferSize b"
    "GetUsedSize b' = GetUsedSize b + len"
proof -
  from wf obtain m sz h u where b: "b = cb_make m sz h u" "length m = Suc sz" "h < sz" "u \<le> sz"
    by (rule cb_wfE)
  define k where "k = nat len"
  have k: "len = int k" "u + k \<le> sz" "k \<le> length src" using len b by (auto simp: k_def GetFreeSize_def)
  obtain m' where m': "Put (cb_make m sz h u) src (int k) = Inr (int k, cb_make m' sz h (u + k))"
     "length m' = Suc sz" "ring_view m' sz h (u + k) = ring_view m sz h u @ take k src"
    using Put_make [of m sz h u k src] b k by blast
  show ?thesis
    by (rule that [of "cb_make m' sz h (u + k)"])
      (use m' b k in \<open>auto simp: GetUsedSize_def intro: cb_make_wf\<close>)
qed

text \<open>A destination too small for the request is overrun, whatever the ring looks like.\<close>

lemma Get_dst_too_small:
  assumes "m_pchBufferHeader b = Some m" "len \<le> GetUsedSize b" "int (length dst) < len"
  shows "Get b dst len = Inl OutOfBounds"
proof -
  have "bindR (memcpy dst 0 m (m_iHead b) r) (\<lambda>d1. memcpy d1 r m 0 (len - r)) = Inl OutOfBounds" for r
  proof (cases "memcpy dst 0 m (m_iHead b) r")
    case (Inl e)
    then have "e = OutOfBounds" by (simp add: memcpy_fault_iff)
    then show ?thesis by (simp add: Inl)
  next
    case (Inr d1)
    then show ?thesis using memcpy_length [OF Inr] assms(3) by (simp add: memcpy_too_big)
  qed
  then show ?thesis using assms by (simp add: Get_def Let_def memcpy_too_big)
qed

section \<open>Interface: a byte FIFO\<close>

text \<open>
  What a client needs of a byte buffer: bytes come out in the order they went in, as long as the
  buffer holds no more than a capacity \<open>cap\<close>. The lemma about whole runs is proved once here.
\<close>

datatype fifo_op = OpPut "byte list" | OpGet nat

fun fifo_run ::
  "('q \<Rightarrow> byte list \<Rightarrow> 'q res) \<Rightarrow> ('q \<Rightarrow> nat \<Rightarrow> (byte list \<times> 'q) res) \<Rightarrow>
   'q \<Rightarrow> fifo_op list \<Rightarrow> (byte list \<times> 'q) res" where
  "fifo_run put get q [] = Inr ([], q)"
| "fifo_run put get q (OpPut bs # ops) = bindR (put q bs) (\<lambda>q'. fifo_run put get q' ops)"
| "fifo_run put get q (OpGet n # ops) =
     bindR (get q n) (\<lambda>(out, q'). bindR (fifo_run put get q' ops) (\<lambda>(outs, q''). Inr (out @ outs, q'')))"

text \<open>A schedule that never asks for more bytes than there are and never exceeds the capacity.\<close>

fun fifo_fits :: "nat \<Rightarrow> nat \<Rightarrow> fifo_op list \<Rightarrow> bool" where
  "fifo_fits cap u [] = True"
| "fifo_fits cap u (OpPut bs # ops) = (u + length bs \<le> cap \<and> fifo_fits cap (u + length bs) ops)"
| "fifo_fits cap u (OpGet n # ops) = (n \<le> u \<and> fifo_fits cap (u - n) ops)"

fun fifo_input :: "fifo_op list \<Rightarrow> byte list" where
  "fifo_input [] = []"
| "fifo_input (OpPut bs # ops) = bs @ fifo_input ops"
| "fifo_input (OpGet n # ops) = fifo_input ops"

locale byte_fifo =
  fixes inv :: "'q \<Rightarrow> bool"
    and contents :: "'q \<Rightarrow> byte list"
    and cap :: "'q \<Rightarrow> nat"
    and put :: "'q \<Rightarrow> byte list \<Rightarrow> 'q res"
    and get :: "'q \<Rightarrow> nat \<Rightarrow> (byte list \<times> 'q) res"
  assumes put_law: "inv q \<Longrightarrow> length (contents q) + length bs \<le> cap q \<Longrightarrow>
      \<exists>q'. put q bs = Inr q' \<and> inv q' \<and> contents q' = contents q @ bs \<and> cap q' = cap q"
    and get_law: "inv q \<Longrightarrow> n \<le> length (contents q) \<Longrightarrow>
      \<exists>q'. get q n = Inr (take n (contents q), q') \<and> inv q' \<and>
           contents q' = drop n (contents q) \<and> cap q' = cap q"
begin

lemma run_stream:
  assumes "inv q" "fifo_fits (cap q) (length (contents q)) ops"
  shows "\<exists>outs q'. fifo_run put get q ops = Inr (outs, q') \<and> inv q' \<and> cap q' = cap q \<and>
     outs @ contents q' = contents q @ fifo_input ops"
  using assms
proof (induction ops arbitrary: q)
  case Nil
  then show ?case by simp
next
  case (Cons op ops)
  show ?case
  proof (cases op)
    case (OpPut bs)
    then obtain q1 where q1: "put q bs = Inr q1" "inv q1" "contents q1 = contents q @ bs" "cap q1 = cap q"
      using put_law [of q bs] Cons.prems by auto
    with Cons.IH [of q1] OpPut Cons.prems show ?thesis by auto
  next
    case (OpGet n)
    then obtain q1 where q1: "get q n = Inr (take n (contents q), q1)" "inv q1"
        "contents q1 = drop n (contents q)" "cap q1 = cap q"
      using get_law [of q n] Cons.prems by auto
    then obtain outs q' where "fifo_run put get q1 ops = Inr (outs, q')" "inv q'" "cap q' = cap q"
        "outs @ contents q' = drop n (contents q) @ fifo_input ops"
      using Cons.IH [of q1] OpGet Cons.prems by auto
    with q1 OpGet show ?thesis by auto
  qed
qed

end

text \<open>
  The ring as a provider. Its capacity in this role is what \<open>Get\<close>'s test can stand: with less than
  half of the ring in use, every \<open>Get\<close> is below the free space, so the test tells the truth.
\<close>

definition ring_put :: "CircularBuff \<Rightarrow> byte list \<Rightarrow> CircularBuff res" where
  "ring_put b bs = bindR (Put b bs (int (length bs))) (\<lambda>(r, b'). Inr b')"

definition ring_get :: "CircularBuff \<Rightarrow> nat \<Rightarrow> (byte list \<times> CircularBuff) res" where
  "ring_get b n = bindR (Get b (replicate n 0) (int n)) (\<lambda>(r, dst, b'). Inr (dst, b'))"

definition ring_safe_cap :: "CircularBuff \<Rightarrow> nat" where
  "ring_safe_cap b = nat ((m_iBufferSize b - 1) div 2)"

definition cb_half :: "CircularBuff \<Rightarrow> bool" where
  "cb_half b \<longleftrightarrow> cb_wf b \<and> 2 * GetUsedSize b < m_iBufferSize b"

lemma cb_half_get_ok: "cb_half b \<Longrightarrow> 0 \<le> len \<Longrightarrow> len \<le> GetUsedSize b \<Longrightarrow> cb_get_ok b len"
  by (subst cb_get_ok_free) (auto simp: cb_half_def GetFreeSize_def GetUsedSize_def)

lemma half_less: "(x::int) \<le> (s - 1) div 2 \<Longrightarrow> 2 * x < s"
  by presburger

interpretation ring: byte_fifo cb_half cb_contents ring_safe_cap ring_put ring_get
proof
  fix q :: CircularBuff and bs :: "byte list"
  assume inv: "cb_half q" and room: "length (cb_contents q) + length bs \<le> ring_safe_cap q"
  have wf: "cb_wf q" using inv by (simp add: cb_half_def)
  have used: "GetUsedSize q = int (length (cb_contents q))"
    using cb_wf_used [OF wf] by (simp add: GetUsedSize_def)
  have half: "2 * (GetUsedSize q + int (length bs)) < m_iBufferSize q"
  proof -
    have "0 < m_iBufferSize q" using wf by (auto simp: cb_wf_def)
    then have "int (length (cb_contents q)) + int (length bs) \<le> (m_iBufferSize q - 1) div 2"
      using room by (simp add: ring_safe_cap_def le_nat_iff)
    then show ?thesis using used half_less [of _ "m_iBufferSize q"] by simp
  qed
  then have free: "int (length bs) \<le> GetFreeSize q"
    using used by (simp add: GetFreeSize_def GetUsedSize_def)
  obtain b' where "Put q bs (int (length bs)) = Inr (int (length bs), b')" "cb_wf b'"
      "cb_contents b' = cb_contents q @ take (nat (int (length bs))) bs"
      "m_iBufferSize b' = m_iBufferSize q" "GetUsedSize b' = GetUsedSize q + int (length bs)"
    by (rule Put_spec [OF wf, of "int (length bs)" bs]) (use free in auto)
  then show "\<exists>q'. ring_put q bs = Inr q' \<and> cb_half q' \<and> cb_contents q' = cb_contents q @ bs \<and>
      ring_safe_cap q' = ring_safe_cap q"
    using half by (auto simp: ring_put_def cb_half_def ring_safe_cap_def)
next
  fix q :: CircularBuff and n :: nat
  assume inv: "cb_half q" and n: "n \<le> length (cb_contents q)"
  have wf: "cb_wf q" using inv by (simp add: cb_half_def)
  have used: "int n \<le> GetUsedSize q"
    using cb_wf_used [OF wf] n by (simp add: GetUsedSize_def)
  obtain b' where b': "Get q (replicate n 0) (int n) =
        Inr (int n, mem_put (replicate n 0) 0 (take (nat (int n)) (cb_contents q)), b')"
      "cb_wf b'" "cb_contents b' = drop (nat (int n)) (cb_contents q)"
      "m_iBufferSize b' = m_iBufferSize q" "GetUsedSize b' = GetUsedSize q - int n"
    by (rule Get_spec [OF wf, of "int n" "replicate n 0"]) (use used inv in \<open>auto intro: cb_half_get_ok\<close>)
  then show "\<exists>q'. ring_get q n = Inr (take n (cb_contents q), q') \<and> cb_half q' \<and>
      cb_contents q' = drop n (cb_contents q) \<and> ring_safe_cap q' = ring_safe_cap q"
    using inv n by (auto simp: ring_get_def cb_half_def ring_safe_cap_def mem_put_whole)
qed


text \<open>Rings that hold given bytes exist.\<close>

lemma ring_holding:
  assumes "length bs < 512000"
  shows "\<exists>b. cb_half b \<and> cb_contents b = bs"
proof -
  let ?b = "CircularBuff_new (\<lambda>_. 0)"
  have "m_iBufferSize ?b = 1024000" "m_iUseBufferSize ?b = 0" by (simp_all add: CircularBuff_new_eq cb_make_def)
  then have "cb_half ?b" using CircularBuff_new_wf by (simp add: cb_half_def GetUsedSize_def)
  moreover have "cb_contents ?b = []"
    using cb_wf_used [OF CircularBuff_new_wf, of "\<lambda>_. 0"] by (simp add: CircularBuff_new_eq cb_make_def)
  moreover have "ring_safe_cap ?b = 511999" by (simp add: ring_safe_cap_def CircularBuff_new_eq cb_make_def)
  ultimately show ?thesis using ring.put_law [of ?b bs] assms by auto
qed

section \<open>The header and the growth of the ring\<close>

lemma GetHeader_make:
  assumes len: "length m = Suc sz" and h: "h < sz" and u: "4 \<le> u" "u \<le> sz"
    and dst: "4 \<le> length dst" and ok: "cb_get_ok (cb_make m sz h u) 4"
  shows "GetHeader (cb_make m sz h u) dst = Inr (0, mem_put dst 0 (ring_view m sz h 4))"
proof -
  have "Get (cb_make m sz h u) dst 4 =
      Inr (4, mem_put dst 0 (ring_view m sz h 4), cb_make m sz ((h + 4) mod sz) (u - 4))"
    using Get_make [of m sz h 4 u dst] assms by simp
  then show ?thesis
    using u unfolding Get_def GetHeader_def GetUsedSize_def PACKET_HEADER_size_def Let_def
    by (auto simp: bindR_Inr_iff split: if_splits)
qed

text \<open>
  \<open>Resize\<close> copies the bytes between head and tail. A full ring has its head at its tail, which the
  test \<open>m_iHead <= m_iTail\<close> reads as an empty one.
\<close>

lemma GetHeader_spec:
  assumes wf: "cb_wf b" and u: "4 \<le> GetUsedSize b" and dst: "4 \<le> length dst" and ok: "cb_get_ok b 4"
  shows "GetHeader b dst = Inr (0, mem_put dst 0 (take 4 (cb_contents b)))"
proof -
  from wf obtain m sz h u where b: "b = cb_make m sz h u" "length m = Suc sz" "h < sz" "u \<le> sz"
    by (rule cb_wfE)
  moreover have "4 \<le> u" using assms(2) b by (simp add: GetUsedSize_def)
  ultimately show ?thesis
    using GetHeader_make [of m sz h u dst] ok dst by (simp add: take_ring_view)
qed

lemma Resize_finish:
  assumes t: "t = (h + u) mod sz"
    and copy: "(let new = new_chars junk (int sz + CIR_BUFSIZE + 1) in
        if int h \<le> int t then memcpy new 0 m (int h) (int t - int h)
        else let iRightLen = int sz - int h in
          bindR (memcpy new 0 m (int h) iRightLen) (\<lambda>n1.
            if int t > 0 then memcpy n1 iRightLen m 0 (int t) else Inr n1)) = Inr n'"
    and u: "u \<le> sz"
  shows "Resize junk (cb_make m sz h u) = Inr (cb_make n' (sz + 1024000) 0 u)"
  using u
  unfolding Resize_def Let_def cb_make_sel t [symmetric] deref_simps bindR_simps
    copy [unfolded Let_def]
  by (simp add: cb_make_def CIR_BUFSIZE_def)

lemma Resize_not_full:
  assumes len: "length m = Suc sz" and h: "h < sz" and u: "u < sz"
  shows "Resize junk (cb_make m sz h u) =
    Inr (cb_make (mem_put (new_chars junk (int sz + CIR_BUFSIZE + 1)) 0 (ring_view m sz h u))
          (sz + 1024000) 0 u)"
proof -
  define t where t: "t = (h + u) mod sz"
  define new where new: "new = new_chars junk (int sz + CIR_BUFSIZE + 1)"
  have lnew: "length new = sz + 1024001" by (simp add: new CIR_BUFSIZE_def nat_add_distrib)
  show ?thesis
  proof (rule Resize_finish [OF t])
    show "(let new = new_chars junk (int sz + CIR_BUFSIZE + 1) in
        if int h \<le> int t then memcpy new 0 m (int h) (int t - int h)
        else let iRightLen = int sz - int h in
          bindR (memcpy new 0 m (int h) iRightLen) (\<lambda>n1.
            if int t > 0 then memcpy n1 iRightLen m 0 (int t) else Inr n1))
      = Inr (mem_put (new_chars junk (int sz + CIR_BUFSIZE + 1)) 0 (ring_view m sz h u))"
    proof (cases "h + u < sz")
      case True
      then have tu: "t = h + u" by (simp add: t)
      have "memcpy new 0 m (int h) (int u) = Inr (mem_put new 0 (ring_view m sz h u))"
        using True len lnew by (subst memcpy_nat_to0) (auto simp: ring_view_linear)
      then show ?thesis by (simp add: Let_def tu new [symmetric])
    next
      case False
      let ?r = "sz - h" and ?a = "take (sz - h) (drop h m)"
      have tu: "t = h + u - sz" using False h u by (simp add: t le_mod_geq)
      then have th: "t < h" "u = ?r + t" using False h u by auto
      have la: "length ?a = ?r" "length (take t m) = t" using len th h by auto
      have wrap: "ring_view m sz h u = ?a @ take t m"
      proof (cases "t = 0")
        case True
        then show ?thesis using th h len by (simp add: ring_view_linear)
      next
        case False
        then show ?thesis using ring_view_wrap [of h sz u m] th h u len by simp
      qed
      have e: "int sz - int h = int ?r" using h by simp
      have c1: "memcpy new 0 m (int h) (int ?r) = Inr (mem_put new 0 ?a)"
        using h len lnew by (intro memcpy_nat_to0) auto
      have l1: "length (mem_put new 0 ?a) = length new"
        using la lnew by (intro length_mem_put) linarith
      have "mem_put (mem_put new 0 ?a) (0 + length ?a) (take t m) = mem_put new 0 (?a @ take t m)"
        using la lnew th u by (intro mem_put_append) linarith
      then have c2: "memcpy (mem_put new 0 ?a) (int ?r) m 0 (int t) = Inr (mem_put new 0 (?a @ take t m))"
        using l1 lnew la th len u by (subst memcpy_nat_from0) auto
      have "\<not> int h \<le> int t" using th by simp
      then show ?thesis
        using c2 unfolding new [symmetric] Let_def e
        by (cases "t = 0") (simp_all only: if_False c1 bindR_simps wrap, simp_all)
    qed
  qed (use u in simp)
qed

lemma Resize_full:
  assumes len: "length m = Suc sz" and h: "h < sz"
  shows "Resize junk (cb_make m sz h sz) =
    Inr (cb_make (new_chars junk (int sz + CIR_BUFSIZE + 1)) (sz + 1024000) 0 sz)"
  using len h
  by (intro Resize_finish [of h h sz sz]) (auto simp: Let_def memcpy_def mem_read_def mem_write_def)


section \<open>Properties\<close>

text \<open>\<open>Put\<close> on a well-formed ring either appends exactly the given bytes and returns their
  number, or, when they do not fit in the free space, returns -1 and changes nothing; it never
  writes outside the block, wrapped or not.\<close>

theorem Put_appends:
  assumes "cb_wf b" "0 \<le> len" "len \<le> int (length src)"
  shows "\<exists>r b'. Put b src len = Inr (r, b') \<and> cb_wf b' \<and> m_iBufferSize b' = m_iBufferSize b \<and>
     (if len \<le> GetFreeSize b
      then r = len \<and> cb_contents b' = cb_contents b @ take (nat len) src
      else r = -1 \<and> b' = b)"
proof (cases "len \<le> GetFreeSize b")
  case True
  obtain b' where "Put b src len = Inr (len, b')" "cb_wf b'"
    "cb_contents b' = cb_contents b @ take (nat len) src" "m_iBufferSize b' = m_iBufferSize b"
    by (rule Put_spec [OF assms True])
  then show ?thesis using True by auto
next
  case False
  then show ?thesis using assms by (auto simp: Put_def)
qed

theorem Put_appends_witness:
  "\<exists>r b'. Put (cb_make [0,1,2,3,4,5,6,7,0] 8 6 1) [21, 22, 23] 3 = Inr (r, b') \<and> r = 3 \<and>
     cb_contents b' = [6, 21, 22, 23]"
  using Put_appends [of "cb_make [0,1,2,3,4,5,6,7,0] 8 6 1" 3 "[21, 22, 23]"]
  by (auto simp: cb_make_wf GetFreeSize_def ring_view_def)

text \<open>Where its one-piece test is sound (the bytes end before the end of the ring, or are fewer
  than the free bytes), \<open>Get\<close> hands out exactly the oldest bytes in order and removes them.\<close>

theorem Get_takes_oldest:
  assumes "cb_wf b" "0 \<le> len" "len \<le> GetUsedSize b" "len \<le> int (length dst)"
    and "m_iHead b + len \<le> m_iBufferSize b \<or> len < GetFreeSize b"
  shows "\<exists>b'. Get b dst len = Inr (len, mem_put dst 0 (take (nat len) (cb_contents b)), b') \<and>
     cb_wf b' \<and> cb_contents b' = drop (nat len) (cb_contents b)"
proof -
  have "cb_get_ok b len" using assms by (simp add: cb_get_ok_free)
  then obtain b' where "Get b dst len = Inr (len, mem_put dst 0 (take (nat len) (cb_contents b)), b')"
    "cb_wf b'" "cb_contents b' = drop (nat len) (cb_contents b)"
    by (rule Get_spec [OF assms(1-4)])
  then show ?thesis by blast
qed

theorem Get_takes_oldest_witness:
  "\<exists>b'. Get (cb_make [10,11,12,13,14,15,16,17,0] 8 6 3) [0,0,0,0] 3 = Inr (3, [16,17,10,0], b') \<and>
     cb_wf b' \<and> cb_contents b' = []"
  using Get_takes_oldest [of "cb_make [10,11,12,13,14,15,16,17,0] 8 6 3" 3 "[0,0,0,0]"]
  by (simp add: cb_make_wf GetUsedSize_def GetFreeSize_def ring_view_def mem_put_def upt_rec)

text \<open>C36: the defect of \<open>Get\<close>, exactly: a legal request reads past the end of the buffer block if and
  only if the wanted bytes reach past the block's spare byte and are at least as many as the free
  bytes, because \<open>m_iHead <= m_iTail + _iLength\<close> then holds although the ring has wrapped.\<close>

theorem Get_overread_iff:
  assumes "cb_wf b" "0 \<le> len" "len \<le> GetUsedSize b" "len \<le> int (length dst)"
  shows "Get b dst len = Inl OutOfBounds \<longleftrightarrow>
     m_iBufferSize b + 1 < m_iHead b + len \<and> GetFreeSize b \<le> len"
proof (cases "cb_get_ok b len")
  case True
  obtain b' where "Get b dst len = Inr (len, mem_put dst 0 (take (nat len) (cb_contents b)), b')"
    by (rule Get_spec [OF assms True])
  then show ?thesis using True assms by (auto simp: cb_get_ok_free)
next
  case False
  from assms(1) obtain m sz h u where b: "b = cb_make m sz h u" "length m = Suc sz" "h < sz" "u \<le> sz"
    by (rule cb_wfE)
  have "GetFreeSize b \<le> len" using False assms by (auto simp: cb_get_ok_free)
  moreover have "Get b dst len = Inl OutOfBounds \<longleftrightarrow> memcpy dst 0 m (m_iHead b) len = Inl OutOfBounds"
    using False assms b by (auto simp: Get_def cb_get_ok_def bindR_Inl_iff)
  ultimately show ?thesis using assms b by (auto simp: memcpy_fault_iff)
qed

theorem Get_overread_iff_witness:
  "Get (cb_make [10,11,12,13,14,15,16,17,0] 8 6 5) [0,0,0,0,0] 5 = Inl OutOfBounds"
  using Get_overread_iff [of "cb_make [10,11,12,13,14,15,16,17,0] 8 6 5" 5 "[0,0,0,0,0]"]
  by (simp add: cb_make_wf GetUsedSize_def GetFreeSize_def)

text \<open>The overread is reachable from a newly constructed ring of the real size by four legal
  calls: two bursts of 600000 bytes, each put and then taken out whole.\<close>

theorem Get_overread_reachable:
  assumes "length xs = 600000" "length ys = 600000" "length d1 = 600000" "length d2 = 600000"
  shows "bindR (Put (CircularBuff_new junk) xs 600000) (\<lambda>(_, b1).
         bindR (Get b1 d1 600000) (\<lambda>(_, _, b2).
         bindR (Put b2 ys 600000) (\<lambda>(_, b3). Get b3 d2 600000))) = Inl OutOfBounds"
proof -
  let ?m = "new_chars junk 1024001"
  obtain m1 where m1: "Put (CircularBuff_new junk) xs 600000 = Inr (600000, cb_make m1 1024000 0 600000)"
      "length m1 = Suc 1024000"
    using Put_make [of ?m 1024000 0 0 600000 xs] assms by (auto simp: CircularBuff_new_eq)
  have g1: "Get (cb_make m1 1024000 0 600000) d1 600000 =
      Inr (600000, mem_put d1 0 (ring_view m1 1024000 0 600000), cb_make m1 1024000 600000 0)"
    using Get_make [of m1 1024000 0 600000 600000 d1] m1 assms by (simp add: cb_get_ok_def)
  obtain m2 where m2: "Put (cb_make m1 1024000 600000 0) ys 600000 =
      Inr (600000, cb_make m2 1024000 600000 600000)" "length m2 = Suc 1024000"
    using Put_make [of m1 1024000 600000 0 600000 ys] m1 assms by auto
  have "Get (cb_make m2 1024000 600000 600000) d2 600000 = Inl OutOfBounds"
    using m2 assms by (simp add: Get_def GetUsedSize_def memcpy_def mem_read_def)
  then show ?thesis by (simp add: m1 g1 m2)
qed

theorem Get_overread_reachable_witness:
  "bindR (Put (CircularBuff_new (\<lambda>_. 0)) (replicate 600000 1) 600000) (\<lambda>(_, b1).
         bindR (Get b1 (replicate 600000 0) 600000) (\<lambda>(_, _, b2).
         bindR (Put b2 (replicate 600000 2) 600000) (\<lambda>(_, b3). Get b3 (replicate 600000 0) 600000)))
     = Inl OutOfBounds"
  by (rule Get_overread_reachable) (simp_all only: length_replicate)

text \<open>C18: stream integrity: while less than half of the ring is in use, any schedule of puts and gets
  runs without a fault and the bytes come out in the order they went in, none lost or repeated.\<close>

theorem ring_stream_in_order:
  assumes "cb_half b" "fifo_fits (ring_safe_cap b) (length (cb_contents b)) ops"
  shows "\<exists>outs b'. fifo_run ring_put ring_get b ops = Inr (outs, b') \<and> cb_half b' \<and>
     ring_safe_cap b' = ring_safe_cap b \<and>
     outs @ cb_contents b' = cb_contents b @ fifo_input ops"
  using assms by (rule ring.run_stream)

theorem ring_stream_in_order_witness:
  "\<exists>outs b'. fifo_run ring_put ring_get (cb_make [0,0,0,0,0,0,0,0,0] 8 6 0)
      [OpPut [1, 2, 3], OpGet 1, OpPut [4]] = Inr (outs, b') \<and> cb_half b' \<and>
     outs @ cb_contents b' = [1, 2, 3, 4]"
  using ring_stream_in_order [of "cb_make [0,0,0,0,0,0,0,0,0] 8 6 0" "[OpPut [1, 2, 3], OpGet 1, OpPut [4]]"]
  by (auto simp: cb_half_def cb_make_wf GetUsedSize_def ring_safe_cap_def)

text \<open>\<open>GetHeader\<close> copies the four oldest bytes without removing them, where four bytes are there
  and its one-piece test is sound.\<close>

theorem GetHeader_peeks:
  assumes "cb_wf b" "4 \<le> GetUsedSize b" "4 \<le> length dst"
    and "m_iHead b + 4 \<le> m_iBufferSize b \<or> 4 < GetFreeSize b"
  shows "GetHeader b dst = Inr (0, mem_put dst 0 (take 4 (cb_contents b)))"
proof -
  have "cb_get_ok b 4" using assms by (simp add: cb_get_ok_free)
  then show ?thesis using assms by (intro GetHeader_spec)
qed

theorem GetHeader_peeks_witness:
  "GetHeader (cb_make [10,11,12,13,14,15,16,17,18,19,0] 10 8 4) [0,0,0,0,0] = Inr (0, [18,19,10,11,0])"
  using GetHeader_peeks [of "cb_make [10,11,12,13,14,15,16,17,18,19,0] 10 8 4" "[0,0,0,0,0]"]
  by (simp add: cb_make_wf GetUsedSize_def GetFreeSize_def ring_view_def mem_put_def upt_rec)

text \<open>\<open>Resize\<close> adds 1024000 bytes and keeps the contents of every ring that is not full; on a full
  ring its copy is empty and the contents become whatever the allocator's block held.\<close>

theorem Resize_keeps_unless_full:
  assumes "cb_wf b"
  shows "\<exists>b'. Resize junk b = Inr b' \<and> cb_wf b' \<and> m_iBufferSize b' = m_iBufferSize b + CIR_BUFSIZE \<and>
     GetUsedSize b' = GetUsedSize b \<and>
     cb_contents b' = (if GetUsedSize b < m_iBufferSize b then cb_contents b
       else map junk [0..<nat (m_iBufferSize b)])"
proof -
  from assms obtain m sz h u where b: "b = cb_make m sz h u" "length m = Suc sz" "h < sz" "u \<le> sz"
    by (rule cb_wfE)
  let ?new = "new_chars junk (int sz + CIR_BUFSIZE + 1)"
  have lnew: "length ?new = Suc (sz + 1024000)" by (simp add: CIR_BUFSIZE_def nat_add_distrib)
  show ?thesis
  proof (cases "u < sz")
    case True
    let ?m = "mem_put ?new 0 (ring_view m sz h u)"
    have lm: "length ?m = Suc (sz + 1024000)" using lnew b by simp
    have "ring_view ?m (sz + 1024000) 0 u = take (length (ring_view m sz h u)) ?m"
      using lm b by (simp add: ring_view_linear)
    also have "\<dots> = ring_view m sz h u"
      using lnew b by (intro take_mem_put_0) simp
    finally show ?thesis
      using Resize_not_full [OF b(2,3) True, of junk] b True lm
      by (auto simp: cb_make_wf GetUsedSize_def CIR_BUFSIZE_def)
  next
    case False
    have "ring_view ?new (sz + 1024000) 0 sz = map junk [0..<sz]"
      using lnew by (simp add: ring_view_linear)
        (simp add: new_chars_def take_map CIR_BUFSIZE_def nat_add_distrib min_def del: upt_Suc)
    then show ?thesis
      using Resize_full [OF b(2,3), of junk] b False lnew
      by (auto simp: cb_make_wf GetUsedSize_def CIR_BUFSIZE_def)
  qed
qed

theorem Resize_keeps_unless_full_witness:
  "\<exists>b'. Resize (\<lambda>_. 9) (cb_make [1,2,3,4,0] 4 2 4) = Inr b' \<and> cb_contents b' = [9,9,9,9]"
  using Resize_keeps_unless_full [of "cb_make [1,2,3,4,0] 4 2 4" "\<lambda>_. 9"]
  by (auto simp: cb_make_wf GetUsedSize_def upt_rec)

end
