(* ===== verification/RingQueue.thy ===== *)
theory RingQueue
  imports Prelude
begin

text \<open>
  The five bounded pointer queues \<open>CircularQueue\<close>, \<open>EventQueue\<close>, \<open>SendQueue\<close>, \<open>CloseQueue\<close> and
  \<open>QoSQueue\<close>: one array of \<open>cap\<close> cells, a start index and a count, guarded by one mutex and two
  condition variables. \<open>ring_enq\<close> and \<open>ring_deq\<close> are the critical sections; \<open>None\<close> is the wait. The
  relation \<open>qstep\<close> interleaves the threads at the points where the mutex is released. The
  interface \<open>bounded_fifo\<close> states what a client may rely on and carries the proofs about runs and
  about the waiting threads; each of the five classes is an instance.
\<close>

section \<open>State and critical sections\<close>

record 'a cqueue =
  start_idx :: nat
  num_full :: nat
  qdata :: "'a list"

definition ring_new :: "nat \<Rightarrow> (nat \<Rightarrow> 'a) \<Rightarrow> 'a cqueue" where
  "ring_new cap junk = \<lparr>start_idx = 0, num_full = 0, qdata = map junk [0..<cap]\<rparr>"

definition ring_enq :: "nat \<Rightarrow> 'a cqueue \<Rightarrow> 'a \<Rightarrow> 'a cqueue option" where
  "ring_enq cap q x =
     (if num_full q = cap then None
      else Some (q\<lparr>qdata := (qdata q)[(start_idx q + num_full q) mod cap := x],
                   num_full := num_full q + 1\<rparr>))"

definition ring_deq :: "nat \<Rightarrow> 'a cqueue \<Rightarrow> ('a \<times> 'a cqueue) option" where
  "ring_deq cap q =
     (if num_full q = 0 then None
      else Some (qdata q ! start_idx q,
                 q\<lparr>start_idx := (start_idx q + 1) mod cap, num_full := num_full q - 1\<rparr>))"

definition QSIZE :: nat where "QSIZE = 1024"
definition EVENTQSIZE :: nat where "EVENTQSIZE = 10240"
definition SENDQSIZE :: nat where "SENDQSIZE = 1024"
definition CLOSEQSIZE :: nat where "CLOSEQSIZE = 200"
definition QOSQSIZE :: nat where "QOSQSIZE = 1024"

definition CircularQueue_new :: "(nat \<Rightarrow> 'a) \<Rightarrow> 'a cqueue" where
  "CircularQueue_new = ring_new QSIZE"
definition CircularQueue_EnQueue :: "'a cqueue \<Rightarrow> 'a \<Rightarrow> 'a cqueue option" where
  "CircularQueue_EnQueue = ring_enq QSIZE"
definition CircularQueue_DeQueue :: "'a cqueue \<Rightarrow> ('a \<times> 'a cqueue) option" where
  "CircularQueue_DeQueue = ring_deq QSIZE"

definition EventQueue_new :: "(nat \<Rightarrow> 'a) \<Rightarrow> 'a cqueue" where
  "EventQueue_new = ring_new EVENTQSIZE"
definition EventQueue_EnQueue :: "'a cqueue \<Rightarrow> 'a \<Rightarrow> 'a cqueue option" where
  "EventQueue_EnQueue = ring_enq EVENTQSIZE"
definition EventQueue_DeQueue :: "'a cqueue \<Rightarrow> ('a \<times> 'a cqueue) option" where
  "EventQueue_DeQueue = ring_deq EVENTQSIZE"

definition SendQueue_new :: "(nat \<Rightarrow> 'a) \<Rightarrow> 'a cqueue" where
  "SendQueue_new = ring_new SENDQSIZE"
definition SendQueue_EnQueue :: "'a cqueue \<Rightarrow> 'a \<Rightarrow> 'a cqueue option" where
  "SendQueue_EnQueue = ring_enq SENDQSIZE"
definition SendQueue_DeQueue :: "'a cqueue \<Rightarrow> ('a \<times> 'a cqueue) option" where
  "SendQueue_DeQueue = ring_deq SENDQSIZE"

definition CloseQueue_new :: "(nat \<Rightarrow> 'a) \<Rightarrow> 'a cqueue" where
  "CloseQueue_new = ring_new CLOSEQSIZE"
definition CloseQueue_EnQueue :: "'a cqueue \<Rightarrow> 'a \<Rightarrow> 'a cqueue option" where
  "CloseQueue_EnQueue = ring_enq CLOSEQSIZE"
definition CloseQueue_DeQueue :: "'a cqueue \<Rightarrow> ('a \<times> 'a cqueue) option" where
  "CloseQueue_DeQueue = ring_deq CLOSEQSIZE"

definition QoSQueue_new :: "(nat \<Rightarrow> 'a) \<Rightarrow> 'a cqueue" where
  "QoSQueue_new = ring_new QOSQSIZE"
definition QoSQueue_EnQueue :: "'a cqueue \<Rightarrow> 'a \<Rightarrow> 'a cqueue option" where
  "QoSQueue_EnQueue = ring_enq QOSQSIZE"
definition QoSQueue_DeQueue :: "'a cqueue \<Rightarrow> ('a \<times> 'a cqueue) option" where
  "QoSQueue_DeQueue = ring_deq QOSQSIZE"

lemma QSIZE_pos: "0 < QSIZE"
  by (simp add: QSIZE_def)

section \<open>Invariant and abstraction\<close>

definition rq_wf :: "nat \<Rightarrow> 'a cqueue \<Rightarrow> bool" where
  "rq_wf cap q \<longleftrightarrow> length (qdata q) = cap \<and> start_idx q < cap \<and> num_full q \<le> cap"

definition rq_items :: "nat \<Rightarrow> 'a cqueue \<Rightarrow> 'a list" where
  "rq_items cap q = ring_view (qdata q) cap (start_idx q) (num_full q)"

declare rq_wf_def [wf_defs]

lemma ring_new_wf: "0 < cap \<Longrightarrow> rq_wf cap (ring_new cap junk)"
  and ring_new_items: "rq_items cap (ring_new cap junk) = []"
  by (simp_all add: ring_new_def rq_wf_def rq_items_def)

lemma mem_put_single: "k < length m \<Longrightarrow> mem_put m k [x] = m[k := x]"
  by (simp add: mem_put_def upd_conv_take_nth_drop)

lemma ring_enq_Some:
  assumes wf: "rq_wf cap q" and q': "ring_enq cap q x = Some q'"
  shows "rq_wf cap q'" "rq_items cap q' = rq_items cap q @ [x]"
proof -
  let ?t = "(start_idx q + num_full q) mod cap"
  have room: "num_full q < cap" and q'_eq:
      "q' = q\<lparr>qdata := (qdata q)[?t := x], num_full := num_full q + 1\<rparr>"
    using wf q' by (auto simp: ring_enq_def rq_wf_def split: if_splits)
  show "rq_wf cap q'" using wf room by (simp add: q'_eq rq_wf_def)
  have t: "?t < cap" using room by simp
  then have "(qdata q)[?t := x] = mem_put (qdata q) ?t [x]"
    using wf by (simp add: rq_wf_def mem_put_single)
  moreover have "ring_view (mem_put (qdata q) ?t [x]) cap (start_idx q) (num_full q + length [x]) =
      ring_view (qdata q) cap (start_idx q) (num_full q) @ [x]"
    using wf room t by (intro ring_write) (simp_all add: rq_wf_def Suc_leI)
  ultimately show "rq_items cap q' = rq_items cap q @ [x]"
    by (simp add: rq_items_def q'_eq)
qed

lemma ring_deq_Some:
  assumes wf: "rq_wf cap q" and q': "ring_deq cap q = Some (x, q')"
  shows "rq_wf cap q'" "rq_items cap q = x # rq_items cap q'"
proof -
  have n: "0 < num_full q" and eqs: "x = qdata q ! start_idx q"
      "q' = q\<lparr>start_idx := (start_idx q + 1) mod cap, num_full := num_full q - 1\<rparr>"
    using q' by (auto simp: ring_deq_def split: if_splits)
  show "rq_wf cap q'" using wf n by (auto simp: eqs rq_wf_def)
  have "ring_view (qdata q) cap (start_idx q) (1 + (num_full q - 1)) =
      ring_view (qdata q) cap (start_idx q) 1 @ ring_view (qdata q) cap (start_idx q + 1) (num_full q - 1)"
    by (rule ring_view_add)
  moreover have "ring_view (qdata q) cap (start_idx q) 1 = [x]"
    using wf by (simp add: ring_view_def eqs rq_wf_def)
  ultimately show "rq_items cap q = x # rq_items cap q'"
    using n ring_view_mod [of "qdata q" cap "start_idx q + 1" "num_full q - 1"]
    by (simp add: rq_items_def eqs)
qed

lemma ring_enq_None: "ring_enq cap q x = None \<longleftrightarrow> length (rq_items cap q) = cap"
  by (simp add: ring_enq_def rq_items_def)

lemma ring_deq_None: "ring_deq cap q = None \<longleftrightarrow> rq_items cap q = []"
  by (simp add: ring_deq_def rq_items_def ring_view_def)

section \<open>Threads at the monitor\<close>

text \<open>
  A thread inside \<open>EnQueue\<close> or \<open>DeQueue\<close> is waiting on its condition variable, or has been woken
  and has not yet got the mutex back, or is not blocked (and then not recorded). \<open>m_in\<close> and \<open>m_out\<close>
  record what was stored and what was handed out, in order.
\<close>

record ('q, 'a) monitor =
  m_queue :: 'q
  enq_wait :: "(nat \<times> 'a) list"
  enq_woken :: "(nat \<times> 'a) list"
  deq_wait :: "nat list"
  deq_woken :: "nat list"
  m_in :: "'a list"
  m_out :: "'a list"

text \<open>\<open>pthread_cond_signal\<close> wakes one waiting thread, whichever it picks, or none if none waits.\<close>

inductive cond_signal :: "'t list \<Rightarrow> 't list \<Rightarrow> 't list \<Rightarrow> 't list \<Rightarrow> bool" where
  signal_none: "cond_signal [] rs [] rs"
| signal_one: "w \<in> set ws \<Longrightarrow> cond_signal ws rs (remove1 w ws) (w # rs)"

inductive_simps cond_signal_Nil [simp]: "cond_signal [] rs ws' rs'"

inductive qstep ::
  "('q \<Rightarrow> 'a \<Rightarrow> 'q option) \<Rightarrow> ('q \<Rightarrow> ('a \<times> 'q) option) \<Rightarrow>
   ('q, 'a) monitor \<Rightarrow> ('q, 'a) monitor \<Rightarrow> bool"
  for enq deq where
  enq_block: "enq (m_queue s) x = None \<Longrightarrow>
     qstep enq deq s (s\<lparr>enq_wait := (t, x) # enq_wait s\<rparr>)"
| enq_go: "enq (m_queue s) x = Some q' \<Longrightarrow> cond_signal (deq_wait s) (deq_woken s) dw dr \<Longrightarrow>
     qstep enq deq s (s\<lparr>m_queue := q', deq_wait := dw, deq_woken := dr, m_in := m_in s @ [x]\<rparr>)"
| enq_again: "(t, x) \<in> set (enq_woken s) \<Longrightarrow> enq (m_queue s) x = None \<Longrightarrow>
     qstep enq deq s (s\<lparr>enq_woken := remove1 (t, x) (enq_woken s), enq_wait := (t, x) # enq_wait s\<rparr>)"
| enq_resume: "(t, x) \<in> set (enq_woken s) \<Longrightarrow> enq (m_queue s) x = Some q' \<Longrightarrow>
     cond_signal (deq_wait s) (deq_woken s) dw dr \<Longrightarrow>
     qstep enq deq s (s\<lparr>m_queue := q', enq_woken := remove1 (t, x) (enq_woken s),
        deq_wait := dw, deq_woken := dr, m_in := m_in s @ [x]\<rparr>)"
| deq_block: "deq (m_queue s) = None \<Longrightarrow>
     qstep enq deq s (s\<lparr>deq_wait := t # deq_wait s\<rparr>)"
| deq_go: "deq (m_queue s) = Some (x, q') \<Longrightarrow> cond_signal (enq_wait s) (enq_woken s) ew er \<Longrightarrow>
     qstep enq deq s (s\<lparr>m_queue := q', enq_wait := ew, enq_woken := er, m_out := m_out s @ [x]\<rparr>)"
| deq_again: "t \<in> set (deq_woken s) \<Longrightarrow> deq (m_queue s) = None \<Longrightarrow>
     qstep enq deq s (s\<lparr>deq_woken := remove1 t (deq_woken s), deq_wait := t # deq_wait s\<rparr>)"
| deq_resume: "t \<in> set (deq_woken s) \<Longrightarrow> deq (m_queue s) = Some (x, q') \<Longrightarrow>
     cond_signal (enq_wait s) (enq_woken s) ew er \<Longrightarrow>
     qstep enq deq s (s\<lparr>m_queue := q', deq_woken := remove1 t (deq_woken s),
        enq_wait := ew, enq_woken := er, m_out := m_out s @ [x]\<rparr>)"
| spurious_enq: "cond_signal (enq_wait s) (enq_woken s) ew er \<Longrightarrow>
     qstep enq deq s (s\<lparr>enq_wait := ew, enq_woken := er\<rparr>)"
| spurious_deq: "cond_signal (deq_wait s) (deq_woken s) dw dr \<Longrightarrow>
     qstep enq deq s (s\<lparr>deq_wait := dw, deq_woken := dr\<rparr>)"

definition monitor_init :: "'q \<Rightarrow> ('q, 'a) monitor" where
  "monitor_init q = \<lparr>m_queue = q, enq_wait = [], enq_woken = [], deq_wait = [], deq_woken = [],
     m_in = [], m_out = []\<rparr>"

inductive qreach ::
  "('q \<Rightarrow> 'a \<Rightarrow> 'q option) \<Rightarrow> ('q \<Rightarrow> ('a \<times> 'q) option) \<Rightarrow> 'q \<Rightarrow> ('q, 'a) monitor \<Rightarrow> bool"
  for enq deq q0 where
  qreach_init: "qreach enq deq q0 (monitor_init q0)"
| qreach_step: "qreach enq deq q0 s \<Longrightarrow> qstep enq deq s s' \<Longrightarrow> qreach enq deq q0 s'"

section \<open>Interface: a bounded FIFO with blocking operations\<close>

locale bounded_fifo =
  fixes inv :: "'q \<Rightarrow> bool"
    and items :: "'q \<Rightarrow> 'a list"
    and cap :: nat
    and enq :: "'q \<Rightarrow> 'a \<Rightarrow> 'q option"
    and deq :: "'q \<Rightarrow> ('a \<times> 'q) option"
  assumes bounded: "inv q \<Longrightarrow> length (items q) \<le> cap"
    and enq_blocks: "inv q \<Longrightarrow> enq q x = None \<longleftrightarrow> length (items q) = cap"
    and enq_inv: "inv q \<Longrightarrow> enq q x = Some q' \<Longrightarrow> inv q'"
    and enq_items: "inv q \<Longrightarrow> enq q x = Some q' \<Longrightarrow> items q' = items q @ [x]"
    and deq_blocks: "inv q \<Longrightarrow> deq q = None \<longleftrightarrow> items q = []"
    and deq_inv: "inv q \<Longrightarrow> deq q = Some (x, q') \<Longrightarrow> inv q'"
    and deq_items: "inv q \<Longrightarrow> deq q = Some (x, q') \<Longrightarrow> items q = x # items q'"
begin

lemma step_order:
  assumes "qstep enq deq s s'" "inv (m_queue s)" "m_in s = m_out s @ items (m_queue s)"
  shows "inv (m_queue s') \<and> m_in s' = m_out s' @ items (m_queue s')"
  using assms
  by (induction rule: qstep.induct) (auto simp: enq_items deq_items intro: enq_inv deq_inv)

lemma reach_order:
  assumes "qreach enq deq q0 s" "inv q0" "items q0 = []"
  shows "inv (m_queue s) \<and> m_in s = m_out s @ items (m_queue s)"
  using assms
proof (induction rule: qreach.induct)
  case (qreach_step s s')
  then show ?case using step_order [of s s'] by simp
qed (simp add: monitor_init_def)

text \<open>No wake-up is lost: a consumer sleeps beside a stored item only if as many consumers as
  there are items have been woken already; the same for producers and free cells.\<close>

definition wakeups_ok :: "('q, 'a) monitor \<Rightarrow> bool" where
  "wakeups_ok s \<longleftrightarrow>
     (deq_wait s \<noteq> [] \<longrightarrow> length (items (m_queue s)) \<le> length (deq_woken s)) \<and>
     (enq_wait s \<noteq> [] \<longrightarrow> cap - length (items (m_queue s)) \<le> length (enq_woken s))"

lemma signal_lengths:
  "cond_signal ws rs ws' rs' \<Longrightarrow>
     (ws = [] \<and> ws' = [] \<and> rs' = rs) \<or> (ws \<noteq> [] \<and> length rs' = Suc (length rs))"
  by (erule cond_signal.cases) auto

lemma step_wakeups:
  assumes "qstep enq deq s s'" "inv (m_queue s)" "wakeups_ok s"
  shows "wakeups_ok s'"
  using assms
proof (induction rule: qstep.induct)
  case (enq_go s x q' dw dr)
  then show ?case
    using enq_items [of "m_queue s" x q'] signal_lengths [of "deq_wait s" "deq_woken s" dw dr]
    by (auto simp: wakeups_ok_def)
next
  case (enq_resume t x s q' dw dr)
  then have "enq_woken s \<noteq> []" by auto
  with enq_resume show ?case
    using enq_items [of "m_queue s" x q'] signal_lengths [of "deq_wait s" "deq_woken s" dw dr]
    by (auto simp: wakeups_ok_def length_remove1)
next
  case (deq_go s x q' ew er)
  then show ?case
    using deq_items [of "m_queue s" x q'] signal_lengths [of "enq_wait s" "enq_woken s" ew er]
    by (auto simp: wakeups_ok_def)
next
  case (deq_resume t s x q' ew er)
  then have "deq_woken s \<noteq> []" by auto
  with deq_resume show ?case
    using deq_items [of "m_queue s" x q'] signal_lengths [of "enq_wait s" "enq_woken s" ew er]
    by (auto simp: wakeups_ok_def length_remove1)
next
  case (spurious_enq s ew er)
  then show ?case
    using signal_lengths [of "enq_wait s" "enq_woken s" ew er] by (auto simp: wakeups_ok_def)
next
  case (spurious_deq s dw dr)
  then show ?case
    using signal_lengths [of "deq_wait s" "deq_woken s" dw dr] by (auto simp: wakeups_ok_def)
next
  case (enq_block s x t)
  then show ?case using enq_blocks [of "m_queue s" x] by (simp add: wakeups_ok_def)
next
  case (enq_again t x s)
  then show ?case using enq_blocks [of "m_queue s" x] by (simp add: wakeups_ok_def)
next
  case (deq_block s t)
  then show ?case using deq_blocks [of "m_queue s"] by (simp add: wakeups_ok_def)
next
  case (deq_again t s)
  then show ?case using deq_blocks [of "m_queue s"] by (simp add: wakeups_ok_def)
qed

lemma reach_wakeups:
  assumes "qreach enq deq q0 s" "inv q0" "items q0 = []"
  shows "wakeups_ok s"
  using assms
proof (induction rule: qreach.induct)
  case (qreach_step s s')
  then show ?case using step_wakeups [of s s'] reach_order [of q0 s] by simp
qed (simp add: monitor_init_def wakeups_ok_def)

end

text \<open>One proof serves the five classes: they differ in the size of the array only.\<close>

lemma ring_is_bounded_fifo: "bounded_fifo (rq_wf cap) (rq_items cap) cap (ring_enq cap) (ring_deq cap)"
proof
  fix q :: "'a cqueue"
  assume "rq_wf cap q"
  then show "length (rq_items cap q) \<le> cap" by (simp add: rq_items_def rq_wf_def)
qed (rule ring_enq_None ring_deq_None ring_enq_Some ring_deq_Some, assumption?, assumption?)+

interpretation circular: bounded_fifo "rq_wf QSIZE" "rq_items QSIZE" QSIZE
    CircularQueue_EnQueue CircularQueue_DeQueue
  unfolding CircularQueue_EnQueue_def CircularQueue_DeQueue_def by (rule ring_is_bounded_fifo)

interpretation event: bounded_fifo "rq_wf EVENTQSIZE" "rq_items EVENTQSIZE" EVENTQSIZE
    EventQueue_EnQueue EventQueue_DeQueue
  unfolding EventQueue_EnQueue_def EventQueue_DeQueue_def by (rule ring_is_bounded_fifo)

interpretation sendq: bounded_fifo "rq_wf SENDQSIZE" "rq_items SENDQSIZE" SENDQSIZE
    SendQueue_EnQueue SendQueue_DeQueue
  unfolding SendQueue_EnQueue_def SendQueue_DeQueue_def by (rule ring_is_bounded_fifo)

interpretation closeq: bounded_fifo "rq_wf CLOSEQSIZE" "rq_items CLOSEQSIZE" CLOSEQSIZE
    CloseQueue_EnQueue CloseQueue_DeQueue
  unfolding CloseQueue_EnQueue_def CloseQueue_DeQueue_def by (rule ring_is_bounded_fifo)

interpretation qosq: bounded_fifo "rq_wf QOSQSIZE" "rq_items QOSQSIZE" QOSQSIZE
    QoSQueue_EnQueue QoSQueue_DeQueue
  unfolding QoSQueue_EnQueue_def QoSQueue_DeQueue_def by (rule ring_is_bounded_fifo)

lemma circular_new_wf: "rq_wf QSIZE (CircularQueue_new junk)"
  and circular_new_items: "rq_items QSIZE (CircularQueue_new junk) = []"
  by (simp_all add: CircularQueue_new_def ring_new_wf ring_new_items QSIZE_pos)

section \<open>Properties\<close>

text \<open>C19: whatever way threads interleave at a \<open>CircularQueue\<close> (blocking, signals that pick any
  waiter, spurious wake-ups), the pointers handed out so far followed by those stored are exactly
  the pointers enqueued, in order: none is lost, duplicated or overtaken, and at most 1024 wait.\<close>

theorem CircularQueue_fifo:
  assumes "qreach CircularQueue_EnQueue CircularQueue_DeQueue (CircularQueue_new junk) s"
  shows "m_in s = m_out s @ rq_items QSIZE (m_queue s) \<and> num_full (m_queue s) \<le> QSIZE"
  using circular.reach_order [OF assms circular_new_wf circular_new_items] by (simp add: rq_wf_def)

theorem CircularQueue_fifo_witness:
  "\<exists>s :: (nat cqueue, nat) monitor. m_in s = [7] \<and> m_out s = [] \<and> rq_items QSIZE (m_queue s) = [7]"
proof -
  let ?q = "CircularQueue_new (\<lambda>_. 0 :: nat)"
  obtain q' where q': "CircularQueue_EnQueue ?q 7 = Some q'"
    by (cases "CircularQueue_EnQueue ?q 7")
      (auto simp: CircularQueue_new_def CircularQueue_EnQueue_def ring_enq_def ring_new_def QSIZE_def)
  let ?s = "(monitor_init ?q)\<lparr>m_queue := q', m_in := [7]\<rparr>"
  have "qreach CircularQueue_EnQueue CircularQueue_DeQueue ?q ?s"
    using qreach_step [OF qreach_init enq_go [of CircularQueue_EnQueue "monitor_init ?q" 7 q' "[]" "[]"]] q'
    by (simp add: monitor_init_def)
  then show ?thesis
    using CircularQueue_fifo [of "\<lambda>_. 0" ?s] by (intro exI [of _ ?s]) (simp add: monitor_init_def)
qed

text \<open>C29: no wake-up of a \<open>CircularQueue\<close> is lost: in every reachable state a consumer waits while
  pointers are stored only if at least as many consumers have been woken and are about to take
  them, and a producer waits while cells are free only if as many producers have been woken.\<close>

theorem CircularQueue_no_lost_wakeup:
  assumes "qreach CircularQueue_EnQueue CircularQueue_DeQueue (CircularQueue_new junk) s"
  shows "(deq_wait s = [] \<or> num_full (m_queue s) \<le> length (deq_woken s)) \<and>
     (enq_wait s = [] \<or> QSIZE - num_full (m_queue s) \<le> length (enq_woken s))"
  using circular.reach_wakeups [OF assms circular_new_wf circular_new_items]
  by (auto simp: circular.wakeups_ok_def rq_items_def)

theorem CircularQueue_no_lost_wakeup_witness:
  "\<exists>s :: (nat cqueue, nat) monitor. deq_wait s = [3] \<and> num_full (m_queue s) \<le> length (deq_woken s)"
proof -
  let ?q = "CircularQueue_new (\<lambda>_. 0 :: nat)"
  have "CircularQueue_DeQueue ?q = None"
    by (simp add: CircularQueue_new_def CircularQueue_DeQueue_def ring_deq_def ring_new_def)
  then have "qreach CircularQueue_EnQueue CircularQueue_DeQueue ?q ((monitor_init ?q)\<lparr>deq_wait := [3]\<rparr>)"
    using qreach_step [OF qreach_init deq_block [of CircularQueue_DeQueue "monitor_init ?q" _ 3]]
    by (simp add: monitor_init_def)
  then show ?thesis
    using CircularQueue_no_lost_wakeup [of "\<lambda>_. 0" "(monitor_init ?q)\<lparr>deq_wait := [3]\<rparr>"]
    by (intro exI [of _ "(monitor_init ?q)\<lparr>deq_wait := [3]\<rparr>"]) (simp add: monitor_init_def)
qed

end
