(* ===== verification/Packet.thy ===== *)
theory Packet
  imports Prelude
begin

text \<open>
  The wire format of include/Packet.h, under \<open>#pragma pack(2)\<close> on a little-endian machine. The
  structs are records; the casts of the code between \<open>char *\<close> and a struct are the pairs
  \<open>X_bytes\<close> (the struct's bytes in memory) and \<open>X_of\<close> (a struct read at a pointer). The round
  trips make the casts lossless, the sizes are those of \<open>sizeof\<close>.
\<close>

section \<open>Little-endian words\<close>

definition le_bytes :: "nat \<Rightarrow> 'a::len word \<Rightarrow> byte list" where
  "le_bytes n w = map (\<lambda>i. ucast (drop_bit (8 * i) w)) [0..<n]"

fun le_word :: "byte list \<Rightarrow> 'a::len word" where
  "le_word [] = 0"
| "le_word (b # bs) = or (ucast b) (push_bit 8 (le_word bs))"

lemma length_le_bytes [simp]: "length (le_bytes n w) = n"
  by (simp add: le_bytes_def)

lemma nth_le_bytes: "i < n \<Longrightarrow> le_bytes n w ! i = ucast (drop_bit (8 * i) w)"
  by (simp add: le_bytes_def)

lemma bit_le_word:
  "bit (le_word bs :: 'a::len word) i \<longleftrightarrow>
     i < LENGTH('a) \<and> i div 8 < length bs \<and> bit (bs ! (i div 8)) (i mod 8)"
proof (induction bs arbitrary: i)
  case Nil
  then show ?case by simp
next
  case (Cons b bs)
  show ?case
  proof (cases "i < 8")
    case True
    then show ?thesis by (auto simp: bit_or_iff bit_push_bit_iff bit_ucast_iff)
  next
    case False
    then obtain j where j: "i = 8 + j" using le_Suc_ex not_less by blast
    have nb: "\<not> bit b (8 + j)" by (auto dest: bit_imp_le_length)
    have dv: "(8 + j) div 8 = Suc (j div 8)" by simp
    show ?thesis
      using nb unfolding j dv by (auto simp: bit_or_iff bit_push_bit_iff bit_ucast_iff Cons.IH)
  qed
qed

lemma le_word_le_bytes:
  assumes "LENGTH('a) \<le> 8 * n"
  shows "le_word (le_bytes n w) = (w :: 'a::len word)"
proof (rule bit_eqI)
  fix i assume "possible_bit TYPE('a word) i"
  then have i: "i < LENGTH('a)" by simp
  then have n: "i div 8 < n" using assms by (simp add: less_mult_imp_div_less mult.commute)
  have "i mod 8 < 8" by simp
  then show "bit (le_word (le_bytes n w) :: 'a word) i = bit w i"
    using i n by (simp add: bit_le_word nth_le_bytes bit_ucast_iff bit_drop_bit_eq)
qed

lemma le_bytes_le_word:
  assumes "8 * length bs \<le> LENGTH('a)"
  shows "le_bytes (length bs) (le_word bs :: 'a::len word) = bs"
proof (rule nth_equalityI)
  fix i assume i: "i < length (le_bytes (length bs) (le_word bs :: 'a word))"
  show "le_bytes (length bs) (le_word bs :: 'a word) ! i = bs ! i"
  proof (rule bit_eqI)
    fix k assume "possible_bit TYPE(8 word) k"
    then have k: "k < 8" by simp
    moreover have "8 * i + k < LENGTH('a)" using i k assms by simp
    ultimately show "bit (le_bytes (length bs) (le_word bs :: 'a word) ! i) k = bit (bs ! i) k"
      using i by (simp add: nth_le_bytes bit_ucast_iff bit_drop_bit_eq bit_le_word)
  qed
qed simp

text \<open>Reading \<open>n\<close> bytes at an offset, and what is there after a struct has been laid out.\<close>

definition field :: "nat \<Rightarrow> nat \<Rightarrow> byte list \<Rightarrow> byte list" where
  "field off n bs = take n (drop off bs)"

lemma field_length [simp]: "off + n \<le> length bs \<Longrightarrow> length (field off n bs) = n"
  by (simp add: field_def)

lemma field_append_left: "length xs = off \<Longrightarrow> field off n (xs @ ys) = take n ys"
  by (simp add: field_def)

lemma field_append_0: "n \<le> length xs \<Longrightarrow> field 0 n (xs @ ys) = take n xs"
  by (simp add: field_def)

lemma le_bytes_field:
  "off + n \<le> length bs \<Longrightarrow> 8 * n \<le> LENGTH('a) \<Longrightarrow>
     le_bytes n (le_word (field off n bs) :: 'a::len word) = field off n bs"
  using le_bytes_le_word [of "field off n bs", where 'a = 'a] by simp

section \<open>Constants and structs\<close>

definition MAXPDUSIZE :: nat where "MAXPDUSIZE = 4096"
definition PDUHEADERSIZE :: nat where "PDUHEADERSIZE = 4"
definition PDUBODYSIZE :: nat where "PDUBODYSIZE = MAXPDUSIZE - PDUHEADERSIZE"

lemmas pdu_sizes [simp] = MAXPDUSIZE_def PDUHEADERSIZE_def PDUBODYSIZE_def

definition cmd_HELLO_DS_DSM :: "16 word" where "cmd_HELLO_DS_DSM = 1802"
definition cmd_HELLO_DSM_DS :: "16 word" where "cmd_HELLO_DSM_DS = 1803"
definition cmd_USER_CLOSE_DS_DSM :: "16 word" where "cmd_USER_CLOSE_DS_DSM = 1804"
definition cmd_HEARTBEAT_DC_DSM :: "16 word" where "cmd_HEARTBEAT_DC_DSM = 1610"
definition cmd_HEARTBEAT_DSM_DC :: "16 word" where "cmd_HEARTBEAT_DSM_DC = 1611"
definition cmd_CHAT_BROADCAST :: "16 word" where "cmd_CHAT_BROADCAST = 1620"

lemmas cmd_defs = cmd_HELLO_DS_DSM_def cmd_HELLO_DSM_DS_def cmd_USER_CLOSE_DS_DSM_def
  cmd_HEARTBEAT_DC_DSM_def cmd_HEARTBEAT_DSM_DC_def cmd_CHAT_BROADCAST_def

record PACKET_HEADER =
  hdr_command :: "16 word"
  hdr_length :: "16 word"

definition PACKET_HEADER_bytes :: "PACKET_HEADER \<Rightarrow> byte list" where
  "PACKET_HEADER_bytes h = le_bytes 2 (hdr_command h) @ le_bytes 2 (hdr_length h)"

definition PACKET_HEADER_of :: "byte list \<Rightarrow> PACKET_HEADER" where
  "PACKET_HEADER_of bs =
     \<lparr>hdr_command = le_word (field 0 2 bs), hdr_length = le_word (field 2 2 bs)\<rparr>"

record T_PACKET =
  pkt_header :: PACKET_HEADER
  pkt_data :: "byte list"

definition T_PACKET_wf :: "T_PACKET \<Rightarrow> bool" where
  "T_PACKET_wf p \<longleftrightarrow> length (pkt_data p) = PDUBODYSIZE"

definition T_PACKET_bytes :: "T_PACKET \<Rightarrow> byte list" where
  "T_PACKET_bytes p = PACKET_HEADER_bytes (pkt_header p) @ pkt_data p"

definition T_PACKET_of :: "byte list \<Rightarrow> T_PACKET" where
  "T_PACKET_of bs = \<lparr>pkt_header = PACKET_HEADER_of bs, pkt_data = field 4 PDUBODYSIZE bs\<rparr>"

text \<open>\<open>T_PACKET p; memset(&p, 0x00, sizeof(p));\<close>\<close>

definition T_PACKET_zero :: T_PACKET where
  "T_PACKET_zero = \<lparr>pkt_header = \<lparr>hdr_command = 0, hdr_length = 0\<rparr>,
                    pkt_data = replicate PDUBODYSIZE 0\<rparr>"

record Tcmd_CHAT_BROADCAST =
  cb_uniqId :: "64 word"
  cb_message :: "byte list"

definition Tcmd_CHAT_BROADCAST_bytes :: "Tcmd_CHAT_BROADCAST \<Rightarrow> byte list" where
  "Tcmd_CHAT_BROADCAST_bytes c = le_bytes 8 (cb_uniqId c) @ cb_message c"

definition Tcmd_CHAT_BROADCAST_of :: "byte list \<Rightarrow> Tcmd_CHAT_BROADCAST" where
  "Tcmd_CHAT_BROADCAST_of bs =
     \<lparr>cb_uniqId = le_word (field 0 8 bs), cb_message = field 8 1000 bs\<rparr>"

record Tcmd_HELLO_DS_DSM =
  hello_uniqId :: "64 word"

definition Tcmd_HELLO_DS_DSM_bytes :: "Tcmd_HELLO_DS_DSM \<Rightarrow> byte list" where
  "Tcmd_HELLO_DS_DSM_bytes c = le_bytes 8 (hello_uniqId c)"

definition Tcmd_HELLO_DS_DSM_of :: "byte list \<Rightarrow> Tcmd_HELLO_DS_DSM" where
  "Tcmd_HELLO_DS_DSM_of bs = \<lparr>hello_uniqId = le_word (field 0 8 bs)\<rparr>"

text \<open>\<open>dHelloTime\<close> is a \<open>double\<close> at offset 12; its eight bytes are kept as they are.\<close>

record Tcmd_HELLO_DSM_DS =
  ack_uniqId :: "64 word"
  ack_iMaxUser :: "32 word"
  ack_dHelloTime :: "byte list"

definition Tcmd_HELLO_DSM_DS_bytes :: "Tcmd_HELLO_DSM_DS \<Rightarrow> byte list" where
  "Tcmd_HELLO_DSM_DS_bytes c =
     le_bytes 8 (ack_uniqId c) @ le_bytes 4 (ack_iMaxUser c) @ ack_dHelloTime c"

definition Tcmd_HELLO_DSM_DS_of :: "byte list \<Rightarrow> Tcmd_HELLO_DSM_DS" where
  "Tcmd_HELLO_DSM_DS_of bs =
     \<lparr>ack_uniqId = le_word (field 0 8 bs), ack_iMaxUser = le_word (field 8 4 bs),
      ack_dHelloTime = field 12 8 bs\<rparr>"

section \<open>Sizes and round trips\<close>

lemma length_PACKET_HEADER_bytes [simp]: "length (PACKET_HEADER_bytes h) = 4"
  by (simp add: PACKET_HEADER_bytes_def)

lemma length_T_PACKET_bytes [simp]: "T_PACKET_wf p \<Longrightarrow> length (T_PACKET_bytes p) = 4096"
  by (simp add: T_PACKET_bytes_def T_PACKET_wf_def)

lemma T_PACKET_of_wf: "length bs = 4096 \<Longrightarrow> T_PACKET_wf (T_PACKET_of bs)"
  by (simp add: T_PACKET_of_def T_PACKET_wf_def field_def)

lemma PACKET_HEADER_of_bytes: "PACKET_HEADER_of (PACKET_HEADER_bytes h @ rest) = h"
proof -
  have "field 0 2 (PACKET_HEADER_bytes h @ rest) = le_bytes 2 (hdr_command h)"
    by (simp add: PACKET_HEADER_bytes_def field_def)
  moreover have "field 2 2 (PACKET_HEADER_bytes h @ rest) = le_bytes 2 (hdr_length h)"
    by (simp add: PACKET_HEADER_bytes_def field_def)
  ultimately show ?thesis by (simp add: PACKET_HEADER_of_def le_word_le_bytes)
qed

lemma PACKET_HEADER_bytes_of:
  assumes "4 \<le> length bs"
  shows "PACKET_HEADER_bytes (PACKET_HEADER_of bs) = take 4 bs"
proof -
  have "field 0 2 bs @ field 2 2 bs = take (2 + 2) bs"
    unfolding field_def take_add by simp
  then show ?thesis
    using assms by (simp add: PACKET_HEADER_bytes_def PACKET_HEADER_of_def le_bytes_field)
qed

lemma T_PACKET_of_bytes: "T_PACKET_wf p \<Longrightarrow> T_PACKET_of (T_PACKET_bytes p) = p"
  by (simp add: T_PACKET_of_def T_PACKET_bytes_def T_PACKET_wf_def PACKET_HEADER_of_bytes
      field_append_left)

lemma T_PACKET_bytes_of:
  assumes "length bs = 4096"
  shows "T_PACKET_bytes (T_PACKET_of bs) = bs"
  using assms by (simp add: T_PACKET_bytes_def T_PACKET_of_def PACKET_HEADER_bytes_of field_def)

lemma CHAT_BROADCAST_of_bytes:
  "length (cb_message c) = 1000 \<Longrightarrow> Tcmd_CHAT_BROADCAST_of (Tcmd_CHAT_BROADCAST_bytes c @ rest) = c"
  by (simp add: Tcmd_CHAT_BROADCAST_of_def Tcmd_CHAT_BROADCAST_bytes_def field_def le_word_le_bytes)

lemma HELLO_DS_DSM_of_bytes: "Tcmd_HELLO_DS_DSM_of (Tcmd_HELLO_DS_DSM_bytes c @ rest) = c"
  by (simp add: Tcmd_HELLO_DS_DSM_of_def Tcmd_HELLO_DS_DSM_bytes_def field_def le_word_le_bytes)

lemma HELLO_DSM_DS_of_bytes:
  "length (ack_dHelloTime c) = 8 \<Longrightarrow> Tcmd_HELLO_DSM_DS_of (Tcmd_HELLO_DSM_DS_bytes c @ rest) = c"
  by (simp add: Tcmd_HELLO_DSM_DS_of_def Tcmd_HELLO_DSM_DS_bytes_def field_def le_word_le_bytes)

lemma T_PACKET_zero_wf: "T_PACKET_wf T_PACKET_zero"
  by (simp add: T_PACKET_wf_def T_PACKET_zero_def)

end
