(* ===== verification/Broadcast.thy ===== *)
theory Broadcast
  imports Packet
begin

text \<open>
  \<open>BroadcastMessage\<close> (include/BroadcastMessage.h, src/BroadcastMessage.cpp), the unit that travels
  through the broadcast queue, and \<open>ConnectList\<close> (src/ConnectList.cpp), a bounded stack of
  pointers. A message object owns a block of exactly 1024 bytes; \<open>SetMessage\<close> writes to it without
  looking at the size, so its copies are bounds-checked here.
\<close>

section \<open>BroadcastMessage\<close>

definition MAX_MESSAGE_SIZE :: int where "MAX_MESSAGE_SIZE = 1024"

datatype ENUM_MESSAGE_TYPE = CLIENT_CHAT_MESSAGE | RELAYED_MESSAGE

record BroadcastMessage =
  messageType :: ENUM_MESSAGE_TYPE
  msg_socket :: int
  msg_block :: "byte list"
  messageSize :: int

definition BroadcastMessage_new :: "(nat \<Rightarrow> byte) \<Rightarrow> BroadcastMessage" where
  "BroadcastMessage_new junk =
     \<lparr>messageType = CLIENT_CHAT_MESSAGE, msg_socket = 0,
      msg_block = map junk [0..<nat MAX_MESSAGE_SIZE], messageSize = 0\<rparr>"

definition SetMessage_all :: "BroadcastMessage \<Rightarrow> byte list \<Rightarrow> BroadcastMessage res" where
  \<comment> \<open>\<open>SetMessage(char *)\<close>: always copies the whole block\<close>
  "SetMessage_all bm src =
     bindR (mem_write (msg_block bm) 0 (replicate (nat MAX_MESSAGE_SIZE) 0)) (\<lambda>m.
     bindR (memcpy m 0 src 0 MAX_MESSAGE_SIZE) (\<lambda>m'. Inr (bm\<lparr>msg_block := m'\<rparr>)))"

definition SetMessage :: "BroadcastMessage \<Rightarrow> byte list \<Rightarrow> int \<Rightarrow> BroadcastMessage res" where
  \<comment> \<open>\<open>SetMessage(char *, int)\<close>\<close>
  "SetMessage bm src n =
     bindR (memcpy (msg_block bm) 0 src 0 n) (\<lambda>m.
     bindR (mem_write m (n - 1) [0]) (\<lambda>m'. Inr (bm\<lparr>msg_block := m'\<rparr>)))"

definition GetMessage :: "BroadcastMessage \<Rightarrow> byte list" where
  "GetMessage bm = msg_block bm"
definition msg_GetSocketFd :: "BroadcastMessage \<Rightarrow> int" where
  "msg_GetSocketFd bm = msg_socket bm"
definition GetMessageType :: "BroadcastMessage \<Rightarrow> ENUM_MESSAGE_TYPE" where
  "GetMessageType bm = messageType bm"
definition GetMessageSize :: "BroadcastMessage \<Rightarrow> int" where
  "GetMessageSize bm = messageSize bm"
definition msg_SetSocketFd :: "BroadcastMessage \<Rightarrow> int \<Rightarrow> BroadcastMessage" where
  "msg_SetSocketFd bm fd = bm\<lparr>msg_socket := fd\<rparr>"
definition SetMessageSize :: "BroadcastMessage \<Rightarrow> int \<Rightarrow> BroadcastMessage" where
  "SetMessageSize bm n = bm\<lparr>messageSize := n\<rparr>"
definition SetMessageType :: "BroadcastMessage \<Rightarrow> ENUM_MESSAGE_TYPE \<Rightarrow> BroadcastMessage" where
  "SetMessageType bm t = bm\<lparr>messageType := t\<rparr>"

lemmas msg_access = GetMessage_def msg_GetSocketFd_def GetMessageType_def GetMessageSize_def
  msg_SetSocketFd_def SetMessageSize_def SetMessageType_def

lemma BroadcastMessage_new_block [simp]: "length (msg_block (BroadcastMessage_new junk)) = 1024"
  by (simp add: BroadcastMessage_new_def MAX_MESSAGE_SIZE_def)

text \<open>What \<open>SetMessage\<close> stores when it stays in bounds: the text with its last byte cleared.\<close>

lemma SetMessage_ok:
  assumes "length (msg_block bm) = 1024" "0 < n" "n \<le> 1024" "n \<le> length src"
  shows "SetMessage bm src (int n) =
    Inr (bm\<lparr>msg_block := take (n - 1) src @ 0 # drop n (msg_block bm)\<rparr>)"
proof -
  obtain k where k: "n = Suc k" using assms(2) gr0_conv_Suc by blast
  have "memcpy (msg_block bm) 0 src 0 (int n) = Inr (take n src @ drop n (msg_block bm))"
    using memcpy_nat_from0 [of n src 0 "msg_block bm"] assms by (simp add: mem_put_def)
  moreover have "mem_put (take n src @ drop n (msg_block bm)) k [0] =
      take k src @ 0 # drop n (msg_block bm)"
    using assms k by (simp add: mem_put_def)
  ultimately show ?thesis
    using assms k by (simp add: SetMessage_def mem_write_ok)
qed

lemma SetMessage_fault_iff:
  assumes "length (msg_block bm) = 1024"
  shows "SetMessage bm src n = Inl e \<longleftrightarrow>
    e = OutOfBounds \<and> (n \<le> 0 \<or> 1024 < n \<or> int (length src) < n)"
proof (cases "0 < n \<and> n \<le> 1024 \<and> n \<le> int (length src)")
  case True
  then obtain k where "n = int k" "0 < k" "k \<le> 1024" "k \<le> length src"
    by (metis of_nat_0_less_iff of_nat_le_iff of_nat_numeral pos_int_cases)
  with True show ?thesis using SetMessage_ok [OF assms, of k src] by auto
next
  case False
  show ?thesis
  proof (cases "n = 0")
    case True
    then show ?thesis
      by (auto simp: SetMessage_def memcpy_def mem_read_def mem_write_def)
  next
    case nz: False
    then have "memcpy (msg_block bm) 0 src 0 n = Inl OutOfBounds"
      using False assms by (auto simp: memcpy_fault_iff)
    then show ?thesis using False nz by (auto simp: SetMessage_def)
  qed
qed

section \<open>ConnectList\<close>

definition FD_QSIZE :: int where "FD_QSIZE = 10240"

record 'a ConnectList =
  m_iIdx :: int
  iCurrentConntionCnt :: int
  cl_data :: "'a list"

definition ConnectList_new :: "(nat \<Rightarrow> 'a) \<Rightarrow> 'a ConnectList" where
  "ConnectList_new junk =
     \<lparr>m_iIdx = 0, iCurrentConntionCnt = 0, cl_data = map junk [0..<nat FD_QSIZE]\<rparr>"

definition InsertData :: "'a ConnectList \<Rightarrow> 'a \<Rightarrow> (int \<times> 'a ConnectList) res" where
  "InsertData c x =
     (if iCurrentConntionCnt c \<ge> FD_QSIZE \<or> m_iIdx c > FD_QSIZE then Inr (-1, c)
      else bindR (mem_write (cl_data c) (m_iIdx c) [x]) (\<lambda>d.
        Inr (0, c\<lparr>cl_data := d, m_iIdx := m_iIdx c + 1,
                  iCurrentConntionCnt := iCurrentConntionCnt c + 1\<rparr>)))"

definition DeleteData :: "'a ConnectList \<Rightarrow> ('a option \<times> 'a ConnectList) res" where
  "DeleteData c =
     (if m_iIdx c \<le> 0 then Inr (None, c\<lparr>m_iIdx := 0\<rparr>)
      else bindR (mem_read (cl_data c) (m_iIdx c - 1) 1) (\<lambda>d.
        Inr (Some (hd d), c\<lparr>m_iIdx := m_iIdx c - 1,
                            iCurrentConntionCnt := iCurrentConntionCnt c - 1\<rparr>)))"

definition cl_wf :: "'a ConnectList \<Rightarrow> bool" where
  "cl_wf c \<longleftrightarrow> int (length (cl_data c)) = FD_QSIZE \<and> iCurrentConntionCnt c = m_iIdx c \<and>
     0 \<le> m_iIdx c \<and> m_iIdx c \<le> FD_QSIZE"

declare cl_wf_def [wf_defs]

definition cl_stack :: "'a ConnectList \<Rightarrow> 'a list" where
  "cl_stack c = rev (take (nat (m_iIdx c)) (cl_data c))"

lemma InsertData_push:
  assumes "cl_wf c"
  shows "if int (length (cl_stack c)) = FD_QSIZE then InsertData c x = Inr (-1, c)
     else \<exists>c'. InsertData c x = Inr (0, c') \<and> cl_wf c' \<and> cl_stack c' = x # cl_stack c"
proof -
  obtain k where k: "m_iIdx c = int k" "k \<le> length (cl_data c)"
    using assms unfolding cl_wf_def by (metis nat_int of_nat_le_iff zero_le_imp_eq_int)
  have len: "length (cl_stack c) = k" using k by (simp add: cl_stack_def)
  have fd: "int (length (cl_data c)) = FD_QSIZE" "iCurrentConntionCnt c = int k"
    using assms k by (auto simp: cl_wf_def)
  show ?thesis
  proof (cases "k < length (cl_data c)")
    case True
    let ?d = "mem_put (cl_data c) k [x]"
    have "take (Suc k) ?d = take k (cl_data c) @ [x]" using True by (simp add: mem_put_def)
    moreover have "length ?d = length (cl_data c)" using True by simp
    moreover have "InsertData c x = Inr (0, c\<lparr>cl_data := ?d, m_iIdx := int k + 1,
        iCurrentConntionCnt := int k + 1\<rparr>)"
      using True k fd by (simp add: InsertData_def mem_write_ok)
    ultimately show ?thesis using True k fd len
      by (auto simp: cl_wf_def cl_stack_def nat_add_distrib)
  next
    case False
    then show ?thesis using k fd len by (simp add: InsertData_def)
  qed
qed

lemma DeleteData_pop:
  assumes "cl_wf c"
  shows "case cl_stack c of [] \<Rightarrow> DeleteData c = Inr (None, c)
     | x # xs \<Rightarrow> \<exists>c'. DeleteData c = Inr (Some x, c') \<and> cl_wf c' \<and> cl_stack c' = xs"
proof -
  obtain k where k: "m_iIdx c = int k" "k \<le> length (cl_data c)"
    using assms unfolding cl_wf_def by (metis nat_int of_nat_le_iff zero_le_imp_eq_int)
  show ?thesis
  proof (cases k)
    case 0
    then show ?thesis using k by (simp add: cl_stack_def DeleteData_def)
  next
    case (Suc j)
    then have "nat (m_iIdx c) = Suc j" using k by simp
    then have st: "cl_stack c = cl_data c ! j # rev (take j (cl_data c))"
      using k Suc by (simp add: cl_stack_def take_Suc_conv_app_nth)
    have "mem_read (cl_data c) (int j) 1 = Inr [cl_data c ! j]"
      using k Suc by (simp add: mem_read_def take_Suc_conv_app_nth hd_drop_conv_nth take_Suc)
    then show ?thesis
      using assms k Suc st by (auto simp: DeleteData_def cl_wf_def cl_stack_def)
  qed
qed

end
