(* ===== verification/SocketIO.thy ===== *)
theory SocketIO
  imports Prelude
begin

text \<open>
  The socket layer: \<open>Socket\<close>, \<open>TcpSocket\<close>, \<open>ServerSocket\<close>, \<open>ClientSocket\<close> and \<open>CNPUtil::Write\<close>.
  The kernel side of a descriptor is part of the socket's state: \<open>rx\<close> is what reads will meet, in
  order (data, end of file, errors), \<open>tx\<close> how writes will be taken, \<open>wire\<close> the bytes the kernel
  has accepted so far. When a script ends the call does not return (\<open>Blocks\<close>). Results of other
  system calls (\<open>select\<close>, \<open>connect\<close>, \<open>setsockopt\<close>, ...) are arguments.
\<close>

section \<open>Kernel side\<close>

datatype errno = EINTR | EAGAIN | EINPROGRESS | EOTHER int
datatype 'a sysret = Ret 'a | Fail errno
datatype rx_event = RxData "byte list" | RxEof | RxErr errno
datatype tx_event = TxTake nat | TxErr errno
datatype sockopt = SO_SNDBUF | SO_RCVBUF | SO_KEEPALIVE | SO_LINGER | SO_REUSEADDR
  | TCP_CORK | TCP_NODELAY

fun sys_read :: "rx_event list \<Rightarrow> nat \<Rightarrow> (byte list sysret \<times> rx_event list) option" where
  "sys_read [] n = None"
| "sys_read (RxData bs # es) n =
     Some (Ret (take n bs), if length bs \<le> n then es else RxData (drop n bs) # es)"
| "sys_read (RxEof # es) n = Some (Ret [], RxEof # es)"
| "sys_read (RxErr e # es) n = Some (Fail e, es)"

fun sys_write :: "tx_event list \<Rightarrow> byte list \<Rightarrow> (nat sysret \<times> tx_event list) option" where
  "sys_write [] bs = None"
| "sys_write (TxTake k # es) bs = Some (Ret (min k (length bs)), es)"
| "sys_write (TxErr e # es) bs = Some (Fail e, es)"

record Socket =
  m_iFd :: int
  rx :: "rx_event list"
  tx :: "tx_event list"
  wire :: "byte list"
  so_opts :: "sockopt \<Rightarrow> int"
  so_flags :: "32 word"

definition Socket_GetFd :: "'z Socket_scheme \<Rightarrow> int" where "Socket_GetFd s = m_iFd s"
definition Socket_SetFd :: "'z Socket_scheme \<Rightarrow> int \<Rightarrow> 'z Socket_scheme" where
  "Socket_SetFd s fd = s\<lparr>m_iFd := fd\<rparr>"
definition Socket_Close :: "'z Socket_scheme \<Rightarrow> int \<times> 'z Socket_scheme" where
  "Socket_Close s = (0, s\<lparr>m_iFd := -1\<rparr>)"
definition Socket_new :: "int \<Rightarrow> rx_event list \<Rightarrow> tx_event list \<Rightarrow> Socket" where
  "Socket_new fd r t = \<lparr>m_iFd = fd, rx = r, tx = t, wire = [], so_opts = (\<lambda>_. 0), so_flags = 0\<rparr>"

section \<open>Reading\<close>

lemma sys_read_length:
  "sys_read r n = Some (Ret bs, r') \<Longrightarrow> length bs \<le> n \<and> length r' \<le> length r"
  "sys_read r n = Some (Fail e, r') \<Longrightarrow> length r' < length r"
  by (cases "(r, n)" rule: sys_read.cases, auto)+

function Read_loop ::
  "rx_event list \<Rightarrow> nat \<Rightarrow> byte list \<Rightarrow> (int \<times> byte list \<times> rx_event list) res" where
  "Read_loop r remain got =
     (if remain = 0 then Inr (int (length got), got, r)
      else case sys_read r remain of
        None \<Rightarrow> Inl Blocks
      | Some (Fail e, r') \<Rightarrow>
          if e = EINTR then Read_loop r' remain got else Inr (-1, got, r')
      | Some (Ret bs, r') \<Rightarrow>
          if bs = [] then Inr (int (length got), got, r')
          else Read_loop r' (remain - length bs) (got @ bs))"
  by pat_completeness auto
termination
  by (relation "measure (\<lambda>(r, remain, got). length r + remain)")
    (auto dest!: sys_read_length simp: diff_less add_le_less_mono simp flip: length_greater_0_conv)

declare Read_loop.simps [simp del]

text \<open>\<open>Socket::Read\<close>: the return value, the bytes stored at \<open>_vPtr\<close> and the socket.\<close>

definition Socket_Read :: "'z Socket_scheme \<Rightarrow> nat \<Rightarrow> (int \<times> byte list \<times> 'z Socket_scheme) res" where
  "Socket_Read s n =
     bindR (Read_loop (rx s) n []) (\<lambda>(ret, got, r'). Inr (ret, got, s\<lparr>rx := r'\<rparr>))"

text \<open>One \<open>read\<close> call, as the edge-triggered readers make it, and \<open>FIONREAD\<close>.\<close>

definition rx_stream :: "rx_event list \<Rightarrow> byte list" where
  "rx_stream es = concat (map (\<lambda>e. case e of RxData bs \<Rightarrow> bs | _ \<Rightarrow> []) es)"

lemma rx_stream_simps [simp]:
  "rx_stream [] = []"
  "rx_stream (RxData bs # es) = bs @ rx_stream es"
  "rx_stream (RxEof # es) = rx_stream es"
  "rx_stream (RxErr e # es) = rx_stream es"
  by (simp_all add: rx_stream_def)

lemma sys_read_stream:
  "sys_read r n = Some (Ret bs, r') \<Longrightarrow> bs @ rx_stream r' = rx_stream r"
  "sys_read r n = Some (Fail e, r') \<Longrightarrow> rx_stream r' = rx_stream r"
  by (cases "(r, n)" rule: sys_read.cases, auto)+

lemma Read_loop_conserves:
  "Read_loop r n got = Inr (ret, out, r') \<Longrightarrow>
     out @ rx_stream r' = got @ rx_stream r \<and>
     length out \<le> length got + n \<and> (ret = int (length out) \<or> ret = -1)"
proof (induction r n got rule: Read_loop.induct)
  case (1 r n got)
  show ?case
  proof (cases "n = 0")
    case True
    then show ?thesis using "1.prems" by (subst (asm) Read_loop.simps) auto
  next
    case n: False
    show ?thesis
    proof (cases "sys_read r n")
      case None
      then show ?thesis using "1.prems" n by (subst (asm) Read_loop.simps) simp
    next
      case (Some a)
      then obtain x r1 where a: "sys_read r n = Some (x, r1)" by (cases a) simp
      note rd = sys_read_stream [of r n _ r1] sys_read_length [of r n _ r1]
      show ?thesis
      proof (cases x)
        case (Fail e)
        then show ?thesis
          using "1.prems" n a rd "1.IH"(2) [OF n a refl Fail]
          by (subst (asm) Read_loop.simps) (auto split: if_splits)
      next
        case (Ret bs)
        then show ?thesis
          using "1.prems" n a rd "1.IH"(1) [OF n a refl Ret]
          by (subst (asm) Read_loop.simps) (auto split: if_splits)
      qed
    qed
  qed
qed

section \<open>Writing\<close>

fun write_loop ::
  "tx_event list \<Rightarrow> byte list \<Rightarrow> byte list \<Rightarrow> (bool \<times> tx_event list \<times> byte list) res" where
  \<comment> \<open>the flag tells whether everything was taken; the last component is the wire\<close>
  "write_loop es [] w = Inr (True, es, w)"
| "write_loop [] (b # bs) w = Inl Blocks"
| "write_loop (TxTake k # es) (b # bs) w = write_loop es (drop k (b # bs)) (w @ take k (b # bs))"
| "write_loop (TxErr e # es) (b # bs) w =
     (if e = EINTR then write_loop es (b # bs) w else Inr (False, es, w))"

lemma write_loop_prefix:
  "write_loop es bs w = Inr (full, es', w') \<Longrightarrow>
     \<exists>k \<le> length bs. w' = w @ take k bs \<and> (full \<longleftrightarrow> k = length bs \<or> bs = [])"
proof (induction es bs w rule: write_loop.induct)
  case (3 k es b bs w)
  then obtain j where j: "j \<le> length (drop k (b # bs))"
      "w' = w @ take k (b # bs) @ take j (drop k (b # bs))"
      "full \<longleftrightarrow> j = length (drop k (b # bs)) \<or> drop k (b # bs) = []"
    by auto
  show ?case
  proof (cases "k \<le> length (b # bs)")
    case True
    have "w' = w @ take (k + j) (b # bs)" using j(2) by (simp only: take_add)
    then show ?thesis using j True by (intro exI [of _ "k + j"]) auto
  next
    case False
    then show ?thesis using j by (intro exI [of _ "length (b # bs)"]) simp
  qed
qed (auto split: if_splits)

definition Socket_Write :: "'z Socket_scheme \<Rightarrow> byte list \<Rightarrow> int \<Rightarrow> (int \<times> 'z Socket_scheme) res" where
  "Socket_Write s buf n =
     (if m_iFd s \<le> 0 then Inr (0, s)
      else bindR (mem_read buf 0 n) (\<lambda>bs.
        bindR (write_loop (tx s) bs (wire s)) (\<lambda>(full, t', w').
          Inr (if full then n else -1, s\<lparr>tx := t', wire := w'\<rparr>))))"

text \<open>\<open>CNPUtil::Write\<close> is the same loop on a bare descriptor, without the test of the descriptor.\<close>

record File =
  file_tx :: "tx_event list"
  file_out :: "byte list"

definition CNPUtil_Write :: "File \<Rightarrow> byte list \<Rightarrow> int \<Rightarrow> (int \<times> File) res" where
  "CNPUtil_Write f buf n =
     bindR (mem_read buf 0 n) (\<lambda>bs.
     bindR (write_loop (file_tx f) bs (file_out f)) (\<lambda>(full, t', w').
       Inr (if full then n else -1, \<lparr>file_tx = t', file_out = w'\<rparr>)))"

section \<open>Interface: a stream writer\<close>

text \<open>
  What the loops over many clients rely on when they write: a call puts a prefix of its bytes on the
  wire and nothing else, the whole of them when it returns their number.
\<close>

fun write_many :: "('s \<Rightarrow> byte list \<Rightarrow> (int \<times> 's) res) \<Rightarrow> 's \<Rightarrow> byte list list \<Rightarrow> (int list \<times> 's) res" where
  "write_many wr s [] = Inr ([], s)"
| "write_many wr s (m # ms) =
     bindR (wr s m) (\<lambda>(r, s1). bindR (write_many wr s1 ms) (\<lambda>(rs, s2). Inr (r # rs, s2)))"

locale stream_writer =
  fixes wr :: "'s \<Rightarrow> byte list \<Rightarrow> (int \<times> 's) res"
    and out :: "'s \<Rightarrow> byte list"
  assumes wr_prefix: "wr s bs = Inr (r, s') \<Longrightarrow>
      \<exists>k \<le> length bs. out s' = out s @ take k bs \<and> (r = int (length bs) \<longrightarrow> k = length bs)"
begin

lemma wr_full: "wr s bs = Inr (int (length bs), s') \<Longrightarrow> out s' = out s @ bs"
  using wr_prefix [of s bs "int (length bs)" s'] by auto

lemma write_many_prefixes:
  "write_many wr s ms = Inr (rs, s') \<Longrightarrow>
     \<exists>parts. out s' = out s @ concat parts \<and> list_all2 (\<lambda>p m. \<exists>k. p = take k m) parts ms"
proof (induction ms arbitrary: s rs)
  case (Cons m ms)
  then obtain r s1 rs' where s1: "wr s m = Inr (r, s1)" "write_many wr s1 ms = Inr (rs', s')"
    by (auto simp: bindR_Inr_iff)
  obtain k where "out s1 = out s @ take k m" using wr_prefix [OF s1(1)] by blast
  moreover obtain parts where "out s' = out s1 @ concat parts"
      "list_all2 (\<lambda>p m. \<exists>k. p = take k m) parts ms"
    using Cons.IH [OF s1(2)] by blast
  ultimately show ?case by (intro exI [of _ "take k m # parts"]) auto
qed simp

lemma write_many_all:
  "write_many wr s ms = Inr (map (\<lambda>m. int (length m)) ms, s') \<Longrightarrow> out s' = out s @ concat ms"
proof (induction ms arbitrary: s)
  case (Cons m ms)
  then obtain s1 where "wr s m = Inr (int (length m), s1)"
      "write_many wr s1 ms = Inr (map (\<lambda>m. int (length m)) ms, s')"
    by (auto simp: bindR_Inr_iff)
  then show ?case using Cons.IH [of s1] wr_full by simp
qed simp

end

definition Socket_Write_all :: "'z Socket_scheme \<Rightarrow> byte list \<Rightarrow> (int \<times> 'z Socket_scheme) res" where
  "Socket_Write_all s bs = Socket_Write s bs (int (length bs))"
definition CNPUtil_Write_all :: "File \<Rightarrow> byte list \<Rightarrow> (int \<times> File) res" where
  "CNPUtil_Write_all f bs = CNPUtil_Write f bs (int (length bs))"

lemma mem_read_whole [simp]: "mem_read bs 0 (int (length bs)) = Inr bs"
  by (simp add: mem_read_def)

lemma Socket_Write_prefix:
  assumes "Socket_Write s buf n = Inr (r, s')" "0 \<le> n"
  shows "\<exists>k \<le> nat n. wire s' = wire s @ take k buf \<and>
     (if m_iFd s \<le> 0 then r = 0 \<and> k = 0 else r = n \<and> k = nat n \<or> r = -1 \<and> k < nat n)"
proof (cases "m_iFd s \<le> 0")
  case True
  then show ?thesis using assms by (auto simp: Socket_Write_def)
next
  case False
  then obtain bs full t' w' where bs: "mem_read buf 0 n = Inr bs"
      and wl: "write_loop (tx s) bs (wire s) = Inr (full, t', w')"
      and r: "r = (if full then n else -1)" "wire s' = w'"
    using assms by (auto simp: Socket_Write_def bindR_Inr_iff)
  have b: "bs = take (nat n) buf" "length bs = nat n"
    using bs mem_read_length [OF bs] by (auto simp: mem_read_def split: if_splits)
  obtain k where k: "k \<le> length bs" "w' = wire s @ take k bs" "full \<longleftrightarrow> k = length bs \<or> bs = []"
    using write_loop_prefix [OF wl] by blast
  then show ?thesis using False r b by (intro exI [of _ k]) (auto simp: min_def)
qed

interpretation socket_writer: stream_writer Socket_Write_all wire
proof
  fix s s' :: "'z Socket_scheme" and bs r
  assume "Socket_Write_all s bs = Inr (r, s')"
  then show "\<exists>k \<le> length bs. wire s' = wire s @ take k bs \<and> (r = int (length bs) \<longrightarrow> k = length bs)"
    using Socket_Write_prefix [of s bs "int (length bs)" r s']
    by (fastforce simp: Socket_Write_all_def split: if_splits)
qed

interpretation file_writer: stream_writer CNPUtil_Write_all file_out
proof
  fix s s' :: File and bs r
  assume "CNPUtil_Write_all s bs = Inr (r, s')"
  then obtain full t' w' where
      wl: "write_loop (file_tx s) bs (file_out s) = Inr (full, t', w')"
      and r: "r = (if full then int (length bs) else -1)" "file_out s' = w'"
    by (auto simp: CNPUtil_Write_all_def CNPUtil_Write_def bindR_Inr_iff)
  then show "\<exists>k \<le> length bs. file_out s' = file_out s @ take k bs \<and>
      (r = int (length bs) \<longrightarrow> k = length bs)"
    using write_loop_prefix [OF wl] by auto
qed

section \<open>Timed and datagram calls\<close>

text \<open>\<open>Socket::Send\<close> and \<open>Socket::Recv\<close>: \<open>iCnt\<close> is what \<open>select\<close> returned, \<open>isset\<close> the descriptor's
  bit afterwards, \<open>io\<close> the result of \<open>send\<close> or \<open>recv\<close>.\<close>

definition Socket_Send :: "'z Socket_scheme \<Rightarrow> int \<Rightarrow> bool \<Rightarrow> int \<Rightarrow> int" where
  "Socket_Send s iCnt isset io =
     (if m_iFd s < 0 then -1
      else if iCnt = 0 then -1
      else if iCnt < 0 then -1
      else if isset then io
      else -1)"

definition Socket_Recv :: "'z Socket_scheme \<Rightarrow> int \<Rightarrow> bool \<Rightarrow> int \<Rightarrow> int" where
  "Socket_Recv s iCnt isset io =
     (if m_iFd s < 0 then -1
      else if iCnt = 0 then -1
      else if iCnt < 0 then -1
      else if isset then io
      else -1)"

text \<open>\<open>SendTo\<close> and \<open>RecvFrom\<close>: two nested retry loops. A script holds the results of the system
  calls in order, \<open>(return value, errno)\<close>; \<open>None\<close> is a script that ends before the loop does.\<close>

fun SendTo_io :: "(int \<times> errno) list \<Rightarrow> (int \<times> (int \<times> errno) list) option"
  and SendTo_select :: "int \<Rightarrow> (int \<times> errno) list \<Rightarrow> (int \<times> (int \<times> errno) list) option" where
  "SendTo_io [] = None"
| "SendTo_io ((iBytesSent, e) # es) =
     (if iBytesSent = -1 \<and> e = EINTR then SendTo_io es
      else if iBytesSent = -1 \<and> e = EAGAIN then SendTo_select iBytesSent es
      else Some (iBytesSent, es))"
| "SendTo_select iBytesSent [] = None"
| "SendTo_select iBytesSent ((iRetVal, e) # es) =
     (if iRetVal = -1 \<and> e = EINTR then SendTo_select iBytesSent es
      else if iRetVal \<noteq> 1 then Some (iBytesSent, es)
      else SendTo_io es)"

definition Socket_SendTo :: "(int \<times> errno) list \<Rightarrow> (int \<times> (int \<times> errno) list) option" where
  "Socket_SendTo es = SendTo_io es"

fun RecvFrom_io :: "(int \<times> errno) list \<Rightarrow> (int \<times> (int \<times> errno) list) option"
  and RecvFrom_select :: "int \<Rightarrow> (int \<times> errno) list \<Rightarrow> (int \<times> (int \<times> errno) list) option" where
  "RecvFrom_io [] = None"
| "RecvFrom_io ((iBytesRecv, e) # es) =
     (if iBytesRecv = -1 \<and> e = EINTR then RecvFrom_io es
      else if iBytesRecv = -1 \<and> e = EAGAIN then RecvFrom_select iBytesRecv es
      else Some (iBytesRecv, es))"
| "RecvFrom_select iBytesRecv [] = None"
| "RecvFrom_select iBytesRecv ((iRetVal, e) # es) =
     (if iRetVal = -1 \<and> e = EINTR then RecvFrom_select iBytesRecv es
      else if iRetVal \<noteq> 1 then Some (iBytesRecv, es)
      else RecvFrom_io es)"

definition Socket_RecvFrom :: "(int \<times> errno) list \<Rightarrow> (int \<times> (int \<times> errno) list) option" where
  "Socket_RecvFrom es = RecvFrom_io es"

definition Socket_Available :: "'z Socket_scheme \<Rightarrow> int option \<Rightarrow> int" where
  \<comment> \<open>\<open>fionread\<close> is what \<open>ioctl\<close> stores, or nothing when it fails\<close>
  "Socket_Available s fionread = (case fionread of None \<Rightarrow> 0 | Some n \<Rightarrow> n)"

section \<open>Flags and options\<close>

definition O_NDELAY :: "32 word" where "O_NDELAY = 0x800"

definition fcntl_F_SETFL :: "bool \<Rightarrow> 'z Socket_scheme \<Rightarrow> 32 word \<Rightarrow> int \<times> 'z Socket_scheme" where
  "fcntl_F_SETFL accepted s fl = (if accepted then (0, s\<lparr>so_flags := fl\<rparr>) else (-1, s))"

definition Socket_SetNonBlock :: "bool \<Rightarrow> 'z Socket_scheme \<Rightarrow> int \<times> 'z Socket_scheme" where
  "Socket_SetNonBlock accepted s =
     (case fcntl_F_SETFL accepted s O_NDELAY of (r, s') \<Rightarrow> (if r < 0 then -1 else 0, s'))"

definition Socket_SetBlock :: "bool \<Rightarrow> 'z Socket_scheme \<Rightarrow> int \<times> 'z Socket_scheme" where
  "Socket_SetBlock accepted s =
     (case fcntl_F_SETFL accepted s (so_flags s) of (r, s') \<Rightarrow> (if r < 0 then -1 else 0, s'))"

definition setsockopt ::
  "bool \<Rightarrow> 'z Socket_scheme \<Rightarrow> sockopt \<Rightarrow> int \<Rightarrow> int \<times> 'z Socket_scheme" where
  "setsockopt accepted s opt v =
     (if accepted then (0, s\<lparr>so_opts := (so_opts s)(opt := v)\<rparr>) else (-1, s))"

definition set_option :: "bool \<Rightarrow> 'z Socket_scheme \<Rightarrow> sockopt \<Rightarrow> int \<Rightarrow> int \<times> 'z Socket_scheme" where
  "set_option accepted s opt v =
     (case setsockopt accepted s opt v of (r, s') \<Rightarrow> (if r < 0 then -1 else 0, s'))"

definition Socket_SetSndBufSize :: "bool \<Rightarrow> 'z Socket_scheme \<Rightarrow> int \<Rightarrow> int \<times> 'z Socket_scheme" where
  "Socket_SetSndBufSize accepted s n = set_option accepted s SO_SNDBUF n"
definition Socket_SetRcvBufSize :: "bool \<Rightarrow> 'z Socket_scheme \<Rightarrow> int \<Rightarrow> int \<times> 'z Socket_scheme" where
  "Socket_SetRcvBufSize accepted s n = set_option accepted s SO_RCVBUF n"
definition Socket_SetKeepAlive :: "bool \<Rightarrow> 'z Socket_scheme \<Rightarrow> int \<times> 'z Socket_scheme" where
  "Socket_SetKeepAlive accepted s = set_option accepted s SO_KEEPALIVE 1"
definition Socket_SetLinger :: "bool \<Rightarrow> 'z Socket_scheme \<Rightarrow> int \<times> 'z Socket_scheme" where
  \<comment> \<open>the option's value is the linger time: \<open>l_onoff = 1\<close>, \<open>l_linger = 0\<close>\<close>
  "Socket_SetLinger accepted s = set_option accepted s SO_LINGER 0"
definition Socket_SetReUse :: "bool \<Rightarrow> 'z Socket_scheme \<Rightarrow> int \<times> 'z Socket_scheme" where
  "Socket_SetReUse accepted s = set_option accepted s SO_REUSEADDR 1"
definition Socket_SetFreeBind :: "bool \<Rightarrow> 'z Socket_scheme \<Rightarrow> int \<times> 'z Socket_scheme" where
  "Socket_SetFreeBind accepted s = set_option accepted s SO_REUSEADDR 1"
definition Socket_SetTcpCORK :: "bool \<Rightarrow> 'z Socket_scheme \<Rightarrow> int \<Rightarrow> int \<times> 'z Socket_scheme" where
  "Socket_SetTcpCORK accepted s v = set_option accepted s TCP_CORK v"
definition Socket_SetNoDelay :: "bool \<Rightarrow> 'z Socket_scheme \<Rightarrow> int \<times> 'z Socket_scheme" where
  "Socket_SetNoDelay accepted s = set_option accepted s TCP_NODELAY 1"
definition Socket_GetRcvBufSize :: "bool \<Rightarrow> 'z Socket_scheme \<Rightarrow> int" where
  "Socket_GetRcvBufSize ok s = (if ok then so_opts s SO_RCVBUF else 0)"
definition Socket_GetSndBufSize :: "bool \<Rightarrow> 'z Socket_scheme \<Rightarrow> int" where
  "Socket_GetSndBufSize ok s = (if ok then so_opts s SO_SNDBUF else 0)"
definition Socket_GetReturnCode :: "int option \<Rightarrow> int" where
  \<comment> \<open>\<open>so_error\<close> is the value of \<open>SO_ERROR\<close>, or nothing when \<open>getsockopt\<close> fails\<close>
  "Socket_GetReturnCode so_error = (case so_error of None \<Rightarrow> -1 | Some e \<Rightarrow> e)"

lemmas so_defs [op_defs] = fcntl_F_SETFL_def Socket_SetNonBlock_def Socket_SetBlock_def setsockopt_def
  set_option_def Socket_GetReturnCode_def

lemma so_opts_keep_wire:
  "wire (snd (set_option a s opt v)) = wire s" "m_iFd (snd (set_option a s opt v)) = m_iFd s"
  by (simp_all add: so_defs)

end
