(* ===== verification/TcpSockets.thy ===== *)
theory TcpSockets
  imports SocketIO
begin

text \<open>
  \<open>TcpSocket\<close>, \<open>ServerSocket\<close> and \<open>ClientSocket\<close> (src/TcpSocket.cpp, src/ServerSocket.cpp,
  src/ClientSocket.cpp): addresses, accepting and connecting. What the kernel answers to
  \<open>bind\<close>, \<open>listen\<close>, \<open>accept\<close>, \<open>connect\<close>, \<open>select\<close> and \<open>getpeername\<close> is an argument; \<open>inet_addr\<close> of
  the C library is the parameter \<open>inet_addr\<close>.
\<close>

section \<open>Addresses\<close>

definition swap16 :: "16 word \<Rightarrow> 16 word" where
  "swap16 w = or (push_bit 8 w) (drop_bit 8 w)"
definition AF_INET :: "16 word" where "AF_INET = 2"
definition INADDR_ANY :: "32 word" where "INADDR_ANY = 0"

record sockaddr_in =
  sin_family :: "16 word"
  sin_port :: "16 word"
  s_addr :: "32 word"

record TcpSocket = Socket +
  m_ServerAddr :: sockaddr_in
  m_ClientAddr :: sockaddr_in

definition zero_addr :: sockaddr_in where
  "zero_addr = \<lparr>sin_family = 0, sin_port = 0, s_addr = 0\<rparr>"

definition TcpSocket_of :: "Socket \<Rightarrow> TcpSocket" where
  "TcpSocket_of s = Socket.extend s \<lparr>m_ServerAddr = zero_addr, m_ClientAddr = zero_addr\<rparr>"

definition TcpSocket_new :: "int \<Rightarrow> TcpSocket" where
  \<comment> \<open>\<open>fd\<close> is what \<open>socket\<close> returned\<close>
  "TcpSocket_new fd = TcpSocket_of (Socket_new fd [] [])"

definition SetClientAddr :: "TcpSocket \<Rightarrow> sockaddr_in \<Rightarrow> TcpSocket" where
  "SetClientAddr s a = s\<lparr>m_ClientAddr := a\<rparr>"
definition SetClientAddr_peer :: "sockaddr_in option \<Rightarrow> TcpSocket \<Rightarrow> TcpSocket" where
  "SetClientAddr_peer peer s = (case peer of None \<Rightarrow> s | Some a \<Rightarrow> s\<lparr>m_ClientAddr := a\<rparr>)"
definition GetClientIp :: "TcpSocket \<Rightarrow> 32 word" where
  "GetClientIp s = s_addr (m_ClientAddr s)"
definition GetServerIp :: "TcpSocket \<Rightarrow> 32 word" where
  "GetServerIp s = s_addr (m_ServerAddr s)"
definition GetServerAddr :: "TcpSocket \<Rightarrow> sockaddr_in" where "GetServerAddr s = m_ServerAddr s"
definition GetClientAddr :: "TcpSocket \<Rightarrow> sockaddr_in" where "GetClientAddr s = m_ClientAddr s"

lemma bit_swap16:
  "bit (swap16 w) i \<longleftrightarrow> i < 16 \<and> bit w (if i < 8 then i + 8 else i - 8)"
proof -
  have "\<not> bit w j" if "16 \<le> j" for j using that by (auto dest: bit_imp_le_length)
  then show ?thesis
    by (auto simp: swap16_def bit_or_iff bit_push_bit_iff bit_drop_bit_eq add.commute)
qed

lemma swap16_swap16 [simp]: "swap16 (swap16 w) = w"
proof (rule bit_eqI)
  fix i assume "possible_bit TYPE(16 word) i"
  then have i: "i < 16" by simp
  show "bit (swap16 (swap16 w)) i = bit w i"
  proof (cases "i < 8")
    case False
    with i have "i - 8 < 8" "i - 8 + 8 = i" by simp_all
    with i False show ?thesis by (simp add: bit_swap16)
  qed (simp add: bit_swap16)
qed

section \<open>Server side\<close>

definition ServerSocket_Bind :: "bool \<Rightarrow> 'z TcpSocket_scheme \<Rightarrow> int \<Rightarrow> int \<times> 'z TcpSocket_scheme" where
  "ServerSocket_Bind ok s port =
     (let s' = s\<lparr>m_ServerAddr := \<lparr>sin_family = AF_INET, sin_port = swap16 (word_of_int port),
                                 s_addr = INADDR_ANY\<rparr>\<rparr>
      in if \<not> ok then (-1, s') else (0, s'))"

definition ServerSocket_Listen :: "bool \<Rightarrow> int" where
  "ServerSocket_Listen ok = (if \<not> ok then -1 else 0)"

definition ServerSocket_Accept :: "(int \<times> sockaddr_in) option \<Rightarrow> TcpSocket \<Rightarrow> TcpSocket option" where
  \<comment> \<open>\<open>kern\<close> is what \<open>accept\<close> returned, \<open>None\<close> for a negative descriptor\<close>
  "ServerSocket_Accept kern s =
     (case kern of None \<Rightarrow> None
      | Some (iClientSocket, stClientAddr) \<Rightarrow>
          if m_iFd s < 0 then None
          else Some (SetClientAddr (TcpSocket_of (Socket_new iClientSocket [] [])) stClientAddr))"

definition ServerSocket_AcceptFD ::
  "(int \<times> sockaddr_in) option \<Rightarrow> TcpSocket \<Rightarrow> int \<times> TcpSocket" where
  "ServerSocket_AcceptFD kern s =
     (case kern of None \<Rightarrow> (-1, s)
      | Some (iClientSocket, a) \<Rightarrow> (iClientSocket, SetClientAddr (s\<lparr>m_ClientAddr := a\<rparr>) a))"

section \<open>Client side\<close>

definition server_of :: "(string \<Rightarrow> 32 word) \<Rightarrow> string option \<Rightarrow> int \<Rightarrow> sockaddr_in" where
  "server_of inet_addr addr port =
     \<lparr>sin_family = AF_INET, sin_port = swap16 (word_of_int port),
      s_addr = (case addr of None \<Rightarrow> INADDR_ANY | Some a \<Rightarrow> inet_addr a)\<rparr>"

definition ClientSocket_Connect ::
  "(string \<Rightarrow> 32 word) \<Rightarrow> unit sysret \<Rightarrow> TcpSocket \<Rightarrow> string option \<Rightarrow> int \<Rightarrow> int \<times> TcpSocket" where
  "ClientSocket_Connect inet_addr conn s addr port =
     (let s' = s\<lparr>m_ServerAddr := server_of inet_addr addr port\<rparr>
      in case conn of Fail e \<Rightarrow> (-1, s') | Ret _ \<Rightarrow> (0, s'))"

text \<open>What \<open>select\<close> answers: its return value with \<open>errno\<close>, and whether one of the bits is set.\<close>

definition NonBlockConnect ::
  "(string \<Rightarrow> 32 word) \<Rightarrow> bool \<Rightarrow> bool \<Rightarrow> unit sysret \<Rightarrow> int \<times> errno \<times> bool \<Rightarrow> int option \<Rightarrow>
   TcpSocket \<Rightarrow> string option \<Rightarrow> int \<Rightarrow> int \<times> TcpSocket" where
  "NonBlockConnect inet_addr nb_ok bl_ok conn sel so_error s addr port =
     (let s1 = s\<lparr>m_ServerAddr := server_of inet_addr addr port\<rparr>;
          (nb, s2) = Socket_SetNonBlock nb_ok s1
      in if nb < 0 then (-1, s2)
         else case conn of
           Ret _ \<Rightarrow> (0, snd (Socket_SetBlock bl_ok s2))
         | Fail e \<Rightarrow>
             if e = EINPROGRESS then
               (case sel of (iRet, err, isset) \<Rightarrow>
                 if iRet < 0 \<and> err \<noteq> EINTR then (-1, s2)
                 else if iRet > 0 then
                   (if isset then
                      (if Socket_GetReturnCode so_error < 0 then (-1, s2)
                       else (0, snd (Socket_SetBlock bl_ok s2)))
                    else (-1, s2))
                 else (-1, s2))
             else (0, snd (Socket_SetBlock bl_ok s2)))"

lemma SetBlock_flags: "so_flags (snd (Socket_SetBlock ok s)) = so_flags s"
  by (simp add: so_defs)

lemma SetNonBlock_flags: "nb = fst (Socket_SetNonBlock ok s) \<Longrightarrow> 0 \<le> nb \<Longrightarrow>
    so_flags (snd (Socket_SetNonBlock ok s)) = O_NDELAY"
  by (auto simp: so_defs split: if_splits)

section \<open>Properties\<close>



text \<open>\<open>Socket::Write\<close> puts a prefix of the requested bytes on the wire, and all of them exactly
  when it returns their number. A result of -1 does not mean that nothing was sent: on a socket
  that reports \<open>EAGAIN\<close> after taking a part, that part is out and the caller cannot tell how much.\<close>

theorem Socket_Write_partial:
  assumes "Socket_Write s buf n = Inr (r, s')" "0 \<le> n" "0 < m_iFd s"
  shows "\<exists>k \<le> nat n. wire s' = wire s @ take k buf \<and> (r = n \<and> k = nat n \<or> r = -1 \<and> k < nat n)"
  using Socket_Write_prefix [OF assms(1,2)] assms(3) by auto

theorem Socket_Write_partial_witness:
  "\<exists>s' k. Socket_Write (Socket_new 4 [] [TxTake 2, TxErr EAGAIN]) [1, 2, 3] 3 = Inr (-1, s') \<and>
     wire s' = take k [1, 2, 3] \<and> k < 3"
proof -
  let ?s = "Socket_new 4 [] [TxTake 2, TxErr EAGAIN]"
  have w: "Socket_Write ?s [1, 2, 3] 3 = Inr (-1, ?s\<lparr>tx := [], wire := [1, 2]\<rparr>)"
    by (simp add: Socket_Write_def Socket_new_def mem_read_def)
  then show ?thesis
    using Socket_Write_partial [OF w] by (fastforce simp: Socket_new_def)
qed

text \<open>\<open>SetBlock\<close> writes back the flags it has just read, so it never clears \<open>O_NDELAY\<close>: after a
  successful \<open>NonBlockConnect\<close> the descriptor is still non-blocking. And \<open>NonBlockConnect\<close> reports
  success for every refused connection: one refused at once (any \<open>errno\<close> but \<open>EINPROGRESS\<close>) and one
  refused later (a positive \<open>SO_ERROR\<close>).\<close>

theorem NonBlockConnect_false_success:
  assumes "fst (Socket_SetNonBlock nb_ok s) = 0"
    and "(\<exists>e. conn = Fail e \<and> e \<noteq> EINPROGRESS) \<or>
         conn = Fail EINPROGRESS \<and> (\<exists>iRet err code. sel = (iRet, err, True) \<and> 0 < iRet \<and>
           so_error = Some code \<and> 0 < code)"
  shows "\<exists>s'. NonBlockConnect inet nb_ok bl_ok conn sel so_error s addr port = (0, s') \<and>
     so_flags s' = O_NDELAY"
  using assms by (auto simp: NonBlockConnect_def so_defs Let_def split: if_splits)

theorem NonBlockConnect_false_success_witness:
  "\<exists>s'. NonBlockConnect (\<lambda>_. 0x0100007F) True True (Fail (EOTHER 111)) (0, EINTR, False) None
      (TcpSocket_new 4) (Some ''127.0.0.1'') 5555 = (0, s') \<and> so_flags s' = O_NDELAY"
  using NonBlockConnect_false_success [of True "TcpSocket_new 4" "Fail (EOTHER 111)"]
  by (simp add: so_defs)

end
