(* ===== verification/SockFill.thy ===== *)
theory SockFill
  imports CircBuff TcpSockets
begin

text \<open>
  \<open>CircularBuff::Put(Socket *)\<close> (src/CircularBuff.cpp 234-391), both builds: the one under
  \<open>_USE_ONESHOT\<close> reads straight into the ring, the other (the Linux build, edge-triggered) drains the
  descriptor into a 1024000-byte stack array until \<open>EAGAIN\<close> and then calls \<open>Put\<close>. \<open>avail\<close> is what
  \<open>Available\<close> returned; \<open>errno\<close> is carried because the loop looks at it after an end of file too.
\<close>

section \<open>Operations\<close>

definition USER_CLOSE :: int where "USER_CLOSE = -100"

definition read_into :: "'z Socket_scheme \<Rightarrow> byte list \<Rightarrow> int \<Rightarrow> int \<Rightarrow>
    (int \<times> byte list \<times> 'z Socket_scheme) res" where
  \<comment> \<open>\<open>_pSocket->Read(&m[off], n)\<close>\<close>
  "read_into s m off n =
     bindR (Socket_Read s (nat n)) (\<lambda>(r, got, s'). bindR (mem_write m off got) (\<lambda>m'. Inr (r, m', s')))"

definition Put_socket_oneshot :: "CircularBuff \<Rightarrow> 'z Socket_scheme \<Rightarrow> int \<Rightarrow>
    (int \<times> CircularBuff \<times> 'z Socket_scheme) res" where
  "Put_socket_oneshot b s avail =
     (if avail \<le> 0 then Inr (USER_CLOSE, b, s)
      else if avail > GetFreeSize b then Inr (USER_CLOSE, b, s)
      else bindR (deref (m_pchBufferHeader b)) (\<lambda>m.
        bindR
          (if m_iHead b \<le> m_iTail b \<and> m_iHead b \<noteq> 0 \<and> \<not> avail \<le> m_iBufferSize b - m_iTail b
           then let iFree = m_iBufferSize b - m_iTail b in
             bindR (read_into s m (m_iTail b) iFree) (\<lambda>(iReadLen, m1, s1).
               if iReadLen \<le> 0 then Inr (USER_CLOSE, m1, s1)
               else bindR (read_into s1 m1 0 (avail - iFree)) (\<lambda>(iTmp, m2, s2).
                 Inr (if iTmp \<le> 0 then USER_CLOSE else iReadLen + iTmp, m2, s2)))
           else bindR (read_into s m (m_iTail b) avail) (\<lambda>(iReadLen, m1, s1).
             Inr (if iReadLen \<le> 0 then USER_CLOSE else iReadLen, m1, s1)))
          (\<lambda>(iReadLen, m', s').
             if iReadLen = USER_CLOSE then Inr (USER_CLOSE, b\<lparr>m_pchBufferHeader := Some m'\<rparr>, s')
             else let t = m_iTail b + iReadLen;
                      t' = (if m_iBufferSize b \<le> t then t - m_iBufferSize b else t)
               in Inr (iReadLen, b\<lparr>m_pchBufferHeader := Some m', m_iTail := t',
                                   m_iUseBufferSize := m_iUseBufferSize b + iReadLen\<rparr>, s'))))"

definition ET_BUF :: nat where "ET_BUF = 1024000"

lemma rx_stream_shrinks:
  "sys_read r n = Some (Ret bs, r') \<Longrightarrow> bs \<noteq> [] \<Longrightarrow>
     length r' + length (rx_stream r') < length r + length (rx_stream r)"
  using sys_read_stream(1) [of r n bs r', THEN arg_cong [where f = length]]
    sys_read_length(1) [of r n bs r'] by (cases bs) simp_all

function et_loop :: "rx_event list \<Rightarrow> errno \<Rightarrow> byte list \<Rightarrow> nat \<Rightarrow>
    ((byte list \<times> nat) option \<times> rx_event list \<times> errno) res" where
  \<comment> \<open>\<open>Some\<close> (the array, \<open>sizen\<close>) after the \<open>break\<close>, \<open>None\<close> for \<open>return USER_CLOSE\<close>\<close>
  "et_loop r err buf_in sizen =
     (case sys_read r 256 of
        None \<Rightarrow> Inl Blocks
      | Some (Fail e, r') \<Rightarrow>
          if e = EAGAIN then Inr (Some (buf_in, sizen), r', e) else Inr (None, r', e)
      | Some (Ret readbuf, r') \<Rightarrow>
          if readbuf = [] then
            (if err = EAGAIN then Inr (Some (buf_in, sizen), r', err) else Inr (None, r', err))
          else if ET_BUF \<le> sizen then Inr (None, r', err)
          else bindR (mem_write buf_in (int sizen) readbuf) (\<lambda>buf'.
                 et_loop r' err buf' (sizen + length readbuf)))"
  by pat_completeness auto

termination
  by (relation "measure (\<lambda>(r, _). length r + length (rx_stream r))")
    (use rx_stream_shrinks in fastforce)+

declare et_loop.simps [simp del]

definition Put_socket_ET :: "CircularBuff \<Rightarrow> 'z Socket_scheme \<Rightarrow> int \<Rightarrow> errno \<Rightarrow>
    (int \<times> CircularBuff \<times> 'z Socket_scheme \<times> errno) res" where
  "Put_socket_ET b s avail err =
     (if avail \<le> 0 then Inr (USER_CLOSE, b, s, err)
      else if avail > GetFreeSize b then Inr (USER_CLOSE, b, s, err)
      else bindR (et_loop (rx s) err (replicate ET_BUF 0) 0) (\<lambda>(res, r', err').
        let s' = s\<lparr>rx := r'\<rparr> in
        case res of None \<Rightarrow> Inr (USER_CLOSE, b, s', err')
        | Some (buf_in, sizen) \<Rightarrow>
            if sizen = 0 then Inr (USER_CLOSE, b, s', err')
            else bindR (Put b buf_in (int sizen)) (\<lambda>(ret, b'). Inr (ret, b', s', err'))))"

section \<open>Draining a descriptor that has data and then \<open>EAGAIN\<close>\<close>

text \<open>Chunks that arrive before the descriptor runs dry; what comes later is \<open>later\<close>.\<close>

definition ready :: "byte list list \<Rightarrow> rx_event list \<Rightarrow> rx_event list" where
  "ready chunks later = map RxData chunks @ RxErr EAGAIN # later"

definition chunks_ok :: "byte list list \<Rightarrow> bool" where
  "chunks_ok chunks \<longleftrightarrow> [] \<notin> set chunks"

lemma sys_read_chunk: "sys_read (ready (c # cs) later) n =
    Some (Ret (take n c), if length c \<le> n then ready cs later else ready (drop n c # cs) later)"
  by (simp add: ready_def)

lemma et_loop_drains:
  assumes "chunks_ok chunks" "length buf = ET_BUF"
    and "sizen + length (concat chunks) \<le> ET_BUF"
  shows "et_loop (ready chunks later) err buf sizen =
    Inr (Some (mem_put buf sizen (concat chunks), sizen + length (concat chunks)), later, EAGAIN)"
  using assms
proof (induction "length chunks + length (concat chunks)" arbitrary: chunks buf sizen rule: less_induct)
  case less
  show ?case
  proof (cases chunks)
    case Nil
    then show ?thesis by (subst et_loop.simps) (simp add: ready_def)
  next
    case (Cons c cs)
    then have c: "c \<noteq> []" "chunks_ok cs" using less.prems by (auto simp: chunks_ok_def)
    define rd where "rd = take 256 c"
    define rest where "rest = (if length c \<le> 256 then cs else drop 256 c # cs)"
    have rd: "rd \<noteq> []" using c by (simp add: rd_def)
    have split: "concat chunks = rd @ concat rest" by (simp add: rd_def rest_def Cons)
    have ok: "chunks_ok rest" using c by (auto simp: rest_def chunks_ok_def)
    have sys: "sys_read (ready chunks later) 256 = Some (Ret rd, ready rest later)"
      by (simp add: Cons sys_read_chunk rd_def rest_def)
    have room: "sizen + length rd \<le> length buf" using less.prems by (simp add: split)
    have smaller: "length rest + length (concat rest) < length chunks + length (concat chunks)"
      using rd by (auto simp: split) (auto simp: rest_def Cons)
    have lt: "\<not> ET_BUF \<le> sizen" using rd less.prems by (cases rd) (auto simp: split)
    have "et_loop (ready chunks later) err buf sizen =
        et_loop (ready rest later) err (mem_put buf sizen rd) (sizen + length rd)"
      using rd lt room by (subst et_loop.simps) (simp add: sys mem_write_ok)
    also have "\<dots> = Inr (Some (mem_put (mem_put buf sizen rd) (sizen + length rd) (concat rest),
        sizen + length rd + length (concat rest)), later, EAGAIN)"
      using less.prems room ok by (intro less.hyps smaller) (auto simp: split)
    also have "mem_put (mem_put buf sizen rd) (sizen + length rd) (concat rest) =
        mem_put buf sizen (concat chunks)"
      using less.prems room unfolding split by (intro mem_put_append) simp
    finally show ?thesis by (simp add: split)
  qed
qed

text \<open>A chunk that carries the total past the array in reads of 256 bytes, without hitting the end.\<close>

lemma et_loop_overruns:
  assumes "length buf = ET_BUF" "sizen < ET_BUF" "ET_BUF < sizen + length c"
    and "(ET_BUF - sizen) mod 256 \<noteq> 0"
  shows "et_loop (RxData c # r) err buf sizen = Inl OutOfBounds"
  using assms
proof (induction "length c" arbitrary: c buf sizen rule: less_induct)
  case less
  show ?case
  proof (cases "sizen + 256 \<le> ET_BUF")
    case True
    have "sizen + 256 \<noteq> ET_BUF"
    proof
      assume "sizen + 256 = ET_BUF"
      then have "ET_BUF - sizen = 256" by linarith
      then show False using less.prems(4) by simp
    qed
    with True have far: "sizen + 256 < ET_BUF" by simp
    then have c: "256 < length c" using less.prems by simp
    have e: "ET_BUF - sizen = (ET_BUF - (sizen + 256)) + 256" using far by simp
    have m: "(ET_BUF - (sizen + 256)) mod 256 \<noteq> 0"
      using less.prems(4) unfolding e mod_add_self2 .
    have lt: "\<not> ET_BUF \<le> sizen" and ne: "take 256 c \<noteq> []" and l: "length (take 256 c) = 256"
      using c far by auto
    have room: "int sizen + int (length (take 256 c)) \<le> int (length buf)"
      using far l less.prems(1) by simp
    have sys: "sys_read (RxData c # r) 256 = Some (Ret (take 256 c), RxData (drop 256 c) # r)"
      using c by simp
    have "et_loop (RxData c # r) err buf sizen =
        et_loop (RxData (drop 256 c) # r) err (mem_put buf sizen (take 256 c)) (sizen + 256)"
      by (subst et_loop.simps) (simp only: sys option.case prod.case sysret.case ne lt if_False
          mem_write_ok [OF of_nat_0_le_iff room] bindR_simps nat_int l)
    also have "\<dots> = Inl OutOfBounds"
    proof (rule less.hyps)
      show "length (mem_put buf sizen (take 256 c)) = ET_BUF"
        using room less.prems(1) by (subst length_mem_put) linarith+
      show "ET_BUF < sizen + 256 + length (drop 256 c)" using c less.prems(3) by simp
    qed (use c far m in simp_all)
    finally show ?thesis .
  next
    case False
    then have "ET_BUF < sizen + length (take 256 c)" "take 256 c \<noteq> []"
      using less.prems by auto
    then show ?thesis
      using less.prems by (subst et_loop.simps) (simp add: mem_write_def)
  qed
qed

section \<open>Reading a descriptor that has enough data\<close>

lemma Read_loop_clean:
  assumes "chunks_ok chunks" "n \<le> length (concat chunks)"
  shows "\<exists>chunks'. Read_loop (map RxData chunks @ es) n got =
      Inr (int (length got + n), got @ take n (concat chunks), map RxData chunks' @ es) \<and>
     chunks_ok chunks' \<and> concat chunks' = drop n (concat chunks)"
  using assms
proof (induction chunks arbitrary: n got)
  case Nil
  then show ?case by (auto simp: Read_loop.simps chunks_ok_def intro: exI [of _ "[]"])
next
  case (Cons c cs)
  have c: "c \<noteq> []" "chunks_ok cs" using Cons.prems by (auto simp: chunks_ok_def)
  consider "n = 0" | "0 < n" "n < length c" | "0 < n" "length c \<le> n" by linarith
  then show ?case
  proof cases
    case 1
    then show ?thesis using Cons.prems
      by (intro exI [of _ "c # cs"]) (simp add: Read_loop.simps)
  next
    case 2
    then show ?thesis using Cons.prems c
      by (intro exI [of _ "drop n c # cs"])
        (simp add: Read_loop.simps [of _ n] Read_loop.simps [of _ 0] chunks_ok_def)
  next
    case 3
    have le: "n - length c \<le> length (concat cs)" using Cons.prems 3 by simp
    obtain chunks' where IH: "Read_loop (map RxData cs @ es) (n - length c) (got @ c) =
        Inr (int (length (got @ c) + (n - length c)),
             (got @ c) @ take (n - length c) (concat cs), map RxData chunks' @ es)"
        "chunks_ok chunks'" "concat chunks' = drop (n - length c) (concat cs)"
      using Cons.IH [OF c(2) le, of "got @ c"] by blast
    have "Read_loop (map RxData (c # cs) @ es) n got =
        Read_loop (map RxData cs @ es) (n - length c) (got @ c)"
      using 3 c by (subst Read_loop.simps) simp
    then show ?thesis using IH 3 by (intro exI [of _ chunks']) simp
  qed
qed

lemma Socket_Read_clean:
  assumes "chunks_ok chunks" "n \<le> length (concat chunks)" "rx s = map RxData chunks @ es"
  obtains chunks' where "Socket_Read s n = Inr (int n, take n (concat chunks), s\<lparr>rx := map RxData chunks' @ es\<rparr>)"
    "chunks_ok chunks'" "concat chunks' = drop n (concat chunks)"
  using Read_loop_clean [OF assms(1,2), of es "[]"] assms(3) by (auto simp: Socket_Read_def)

text \<open>What both parts of the one-shot reader do to the ring, in the terms of \<open>Put\<close>.\<close>

lemma oneshot_is_Put:
  assumes wf: "cb_wf b" and av: "0 < avail" "avail \<le> GetFreeSize b"
    and ch: "chunks_ok chunks" "nat avail \<le> length (concat chunks)" "rx s = map RxData chunks @ es"
  obtains chunks' b' where "Put_socket_oneshot b s avail = Inr (avail, b', s\<lparr>rx := map RxData chunks' @ es\<rparr>)"
    "Put b (concat chunks) avail = Inr (avail, b')" "concat chunks' = drop (nat avail) (concat chunks)"
    "chunks_ok chunks'"
proof -
  from wf obtain m sz h u where b: "b = cb_make m sz h u" "length m = Suc sz" "h < sz" "u \<le> sz"
    by (rule cb_wfE)
  define t where "t = (h + u) mod sz"
  define k where "k = nat avail"
  have k: "avail = int k" "0 < k" "k \<le> sz - u" "k \<le> length (concat chunks)"
    using av ch b by (auto simp: k_def GetFreeSize_def)
  have t: "t < sz" using b by (simp add: t_def)
  have sel: "m_iHead b = int h" "m_iTail b = int t" "m_iBufferSize b = int sz"
      "m_iUseBufferSize b = int u" "m_pchBufferHeader b = Some m"
    by (simp_all add: b(1) t_def)
  have uc: "int k \<noteq> USER_CLOSE" by (simp add: USER_CLOSE_def)
  show thesis
  proof (cases "h \<le> t \<and> h \<noteq> 0 \<and> \<not> t + k \<le> sz")
    case False
    have fits: "t + k \<le> sz"
    proof (cases "h + u < sz")
      case True
      then have "t = h + u" by (simp add: t_def)
      then show ?thesis using False k by auto
    next
      case False
      then have "t = h + u - sz" using b by (simp add: t_def le_mod_geq)
      then show ?thesis using k b False by auto
    qed
    obtain chunks' where rd: "Socket_Read s k = Inr (int k, take k (concat chunks), s\<lparr>rx := map RxData chunks' @ es\<rparr>)"
      "chunks_ok chunks'" "concat chunks' = drop k (concat chunks)"
      by (rule Socket_Read_clean [OF ch(1) k(4) ch(3)])
    let ?m = "mem_put m t (take k (concat chunks))"
    have wr: "mem_write m (int t) (take k (concat chunks)) = Inr ?m"
      using fits b k by (simp add: mem_write_ok)
    have cp: "memcpy m (int t) (concat chunks) 0 (int k) = Inr ?m"
      using fits b k by (simp add: memcpy_nat_from0)
    let ?t' = "if int sz \<le> int t + int k then int t + int k - int sz else int t + int k"
    let ?b' = "b\<lparr>m_pchBufferHeader := Some ?m, m_iTail := ?t', m_iUseBufferSize := int u + int k\<rparr>"
    have "Put_socket_oneshot b s avail = Inr (avail, ?b', s\<lparr>rx := map RxData chunks' @ es\<rparr>)"
      using False av k rd wr uc t
      by (auto simp: Put_socket_oneshot_def sel read_into_def Let_def)
    moreover have "Put b (concat chunks) avail = Inr (avail, ?b')"
      using av cp k fits by (auto simp: Put_def sel Let_def)
    ultimately show thesis using that [of ?b' chunks'] rd k by simp
  next
    case True
    define q where "q = sz - t"
    have i: "q \<le> length (concat chunks)" "q < k" "int sz - int t = int q" "0 < q" "t + q = sz"
      using True k t by (auto simp: q_def)
    obtain c1 where rd1: "Socket_Read s q = Inr (int q, take q (concat chunks), s\<lparr>rx := map RxData c1 @ es\<rparr>)"
      "chunks_ok c1" "concat c1 = drop q (concat chunks)"
      by (rule Socket_Read_clean [OF ch(1) i(1) ch(3)])
    have l1: "k - q \<le> length (concat c1)" using rd1 k by simp
    obtain c2 where rd2: "Socket_Read (s\<lparr>rx := map RxData c1 @ es\<rparr>) (k - q) =
        Inr (int (k - q), take (k - q) (concat c1), s\<lparr>rx := map RxData c2 @ es\<rparr>)"
      "chunks_ok c2" "concat c2 = drop (k - q) (concat c1)"
      using Socket_Read_clean [OF rd1(2) l1, of "s\<lparr>rx := map RxData c1 @ es\<rparr>" es] by auto
    let ?m1 = "mem_put m t (take q (concat chunks))"
    let ?m2 = "mem_put ?m1 0 (take (k - q) (drop q (concat chunks)))"
    have lm1: "length ?m1 = length m" using i b t by (subst length_mem_put) auto
    have wr1: "mem_write m (int t) (take q (concat chunks)) = Inr ?m1"
      using b i t by (simp add: mem_write_ok)
    have wr2: "mem_write ?m1 0 (take (k - q) (concat c1)) = Inr ?m2"
      using b k lm1 rd1(3) by (simp add: mem_write_ok)
    have cp1: "memcpy m (int t) (concat chunks) 0 (int q) = Inr ?m1"
      using b i t by (intro memcpy_nat_from0) auto
    have ki: "int k - int q = int (k - q)" "nat (int k - int q) = k - q" using i(2) by auto
    have cp2: "memcpy ?m1 0 (concat chunks) (int q) (int k - int q) = Inr ?m2"
      unfolding ki using b k i lm1 by (intro memcpy_nat_to0) auto
    let ?b' = "b\<lparr>m_pchBufferHeader := Some ?m2, m_iTail := int t + int k - int sz,
        m_iUseBufferSize := int u + int k\<rparr>"
    have sum: "int q + int (k - q) = int k" "\<not> int k \<le> int q" "int sz \<le> int t + int k"
      using i(2) True by auto
    have pos: "0 < int q" "0 < int (k - q)" using i(2,4) by auto
    have cond: "m_iHead b \<le> m_iTail b \<and> m_iHead b \<noteq> 0 \<and> \<not> avail \<le> m_iBufferSize b - m_iTail b"
      using True k(1) by (simp add: sel)
    have into1: "read_into s m (int t) (int q) = Inr (int q, ?m1, s\<lparr>rx := map RxData c1 @ es\<rparr>)"
      using rd1(1) wr1 by (simp add: read_into_def)
    have into2: "read_into (s\<lparr>rx := map RxData c1 @ es\<rparr>) ?m1 0 (int k - int q) =
        Inr (int (k - q), ?m2, s\<lparr>rx := map RxData c2 @ es\<rparr>)"
      using rd2(1) wr2 by (simp add: read_into_def ki(2) rd1(3))
    have le: "\<not> int q \<le> 0" "\<not> int (k - q) \<le> 0" "\<not> avail \<le> 0" "\<not> avail > GetFreeSize b"
      using pos av by auto
    have "Put_socket_oneshot b s avail = Inr (avail, ?b', s\<lparr>rx := map RxData c2 @ es\<rparr>)"
      unfolding Put_socket_oneshot_def if_P [OF cond] if_not_P [OF le(3)] if_not_P [OF le(4)]
      by (simp only: le if_False sel deref_simps bindR_simps Let_def i(3) k(1) into1 prod.case into2 sum(1,3) uc
          if_True)
    moreover have "Put b (concat chunks) avail = Inr (avail, ?b')"
    proof -
      have c: "m_iHead b \<le> m_iTail b + avail" "m_iHead b \<noteq> 0" using True k(1) by (simp_all add: sel)
      show ?thesis
        unfolding Put_def if_not_P [OF le(4)] if_P [OF c(1)] if_not_P [OF c(2)]
        by (simp only: sel deref_simps bindR_simps Let_def i(3) k(1) if_False sum(2,3) cp1 cp2 if_True)
    qed
    moreover have "concat c2 = drop k (concat chunks)" using rd2 rd1 i by simp
    ultimately show thesis using that [of ?b' c2] rd2 k by simp
  qed
qed

section \<open>Properties\<close>

lemma ET_drained:
  assumes "0 < avail" "avail \<le> GetFreeSize b" "chunks_ok chunks" "rx s = ready chunks later"
    and "concat chunks \<noteq> []" "length (concat chunks) \<le> 1024000"
  obtains buf where "length buf = ET_BUF" "take (length (concat chunks)) buf = concat chunks"
    "Put_socket_ET b s avail err =
      bindR (Put b buf (int (length (concat chunks)))) (\<lambda>(ret, b'). Inr (ret, b', s\<lparr>rx := later\<rparr>, EAGAIN))"
proof -
  let ?d = "concat chunks"
  let ?buf = "mem_put (replicate ET_BUF 0) 0 ?d"
  have len: "length ?d \<le> length (replicate ET_BUF (0 :: byte))" using assms by (simp add: ET_BUF_def)
  have lb: "length ?buf = ET_BUF" using len by (subst length_mem_put) auto
  have loop: "et_loop (rx s) err (replicate ET_BUF 0) 0 = Inr (Some (?buf, length ?d), later, EAGAIN)"
    using et_loop_drains [OF assms(3), of "replicate ET_BUF 0" 0 later err] assms by (simp add: ET_BUF_def)
  have "Put_socket_ET b s avail err =
      bindR (Put b ?buf (int (length ?d))) (\<lambda>(ret, b'). Inr (ret, b', s\<lparr>rx := later\<rparr>, EAGAIN))"
    using assms(1,2,5) by (auto simp: Put_socket_ET_def loop Let_def)
  then show thesis using that lb take_mem_put_0 [OF len] by blast
qed

lemma ET_fills:
  assumes "cb_wf b" "0 < avail" "avail \<le> GetFreeSize b" "chunks_ok chunks" "rx s = ready chunks later"
    and "concat chunks \<noteq> []" "length (concat chunks) \<le> 1024000" "int (length (concat chunks)) \<le> GetFreeSize b"
  obtains b' where "Put_socket_ET b s avail err = Inr (int (length (concat chunks)), b', s\<lparr>rx := later\<rparr>, EAGAIN)"
    "cb_wf b'" "cb_contents b' = cb_contents b @ concat chunks" "m_iBufferSize b' = m_iBufferSize b"
proof -
  let ?n = "int (length (concat chunks))"
  obtain buf where buf: "length buf = ET_BUF" "take (length (concat chunks)) buf = concat chunks"
    "Put_socket_ET b s avail err = bindR (Put b buf ?n) (\<lambda>(ret, b'). Inr (ret, b', s\<lparr>rx := later\<rparr>, EAGAIN))"
    by (rule ET_drained [OF assms(2-7)])
  have "?n \<le> int (length buf)" using assms(7) buf(1) by (simp add: ET_BUF_def)
  then obtain b' where "Put b buf ?n = Inr (?n, b')" "cb_wf b'"
      "cb_contents b' = cb_contents b @ take (nat ?n) buf" "m_iBufferSize b' = m_iBufferSize b"
    by (rule Put_spec [OF assms(1) of_nat_0_le_iff _ assms(8)])
  then show thesis using that buf(2,3) by simp
qed

text \<open>The edge-triggered reader appends exactly what the descriptor held, chunk boundaries and all
  reads of 256 bytes notwithstanding, provided it fits the free space. When more has arrived than
  is free (the check made before draining looks only at what was there then), the reader still
  empties the descriptor, and every byte of it is dropped with the result -1.\<close>

theorem ET_fill:
  assumes "cb_wf b" "0 < avail" "avail \<le> GetFreeSize b"
    and "chunks_ok chunks" "rx s = ready chunks later"
    and "concat chunks \<noteq> []" "length (concat chunks) \<le> 1024000"
  shows "\<exists>b'. if int (length (concat chunks)) \<le> GetFreeSize b
     then Put_socket_ET b s avail err =
        Inr (int (length (concat chunks)), b', s\<lparr>rx := later\<rparr>, EAGAIN) \<and>
       cb_wf b' \<and> cb_contents b' = cb_contents b @ concat chunks
     else Put_socket_ET b s avail err = Inr (-1, b, s\<lparr>rx := later\<rparr>, EAGAIN)"
proof (cases "int (length (concat chunks)) \<le> GetFreeSize b")
  case True
  then show ?thesis using ET_fills [OF assms] by metis
next
  case False
  obtain buf where
    "Put_socket_ET b s avail err = bindR (Put b buf (int (length (concat chunks)))) (\<lambda>(ret, b'). Inr (ret, b', s\<lparr>rx := later\<rparr>, EAGAIN))"
    by (rule ET_drained [OF assms(2-7)])
  then show ?thesis using False by (simp add: Put_def)
qed

theorem ET_fill_witness:
  "\<exists>b'. Put_socket_ET (cb_make [0,0,0,0,0,0,0,0,0] 8 6 1) (Socket_new 5 (ready [[1, 2], [3]] []) []) 2 EINTR =
     Inr (3, b', Socket_new 5 [] [], EAGAIN) \<and> cb_contents b' = [0, 1, 2, 3]"
  using ET_fill [of "cb_make [0,0,0,0,0,0,0,0,0] 8 6 1" 2 "[[1, 2], [3]]"
      "Socket_new 5 (ready [[1, 2], [3]] []) []" "[]" EINTR]
  by (auto simp: cb_make_wf GetFreeSize_def chunks_ok_def Socket_new_def ring_view_def)

text \<open>The reader's stack array can be overrun by the peer: one byte first (so that \<open>Available\<close> is 1),
  then a million and more while the loop is running. The test \<open>sizen >= 1024000\<close> comes before
  the copy and does not look at \<open>readn\<close>.\<close>

theorem ET_stack_overrun:
  assumes "1 \<le> GetFreeSize b" "rx s = RxData [x] # RxData c # later" "1024000 \<le> length c"
  shows "Put_socket_ET b s 1 err = Inl OutOfBounds"
proof -
  let ?buf = "mem_put (replicate ET_BUF 0) 0 [x]"
  have lb: "length ?buf = ET_BUF" by (subst length_mem_put) (simp_all add: ET_BUF_def)
  have w: "mem_write (replicate ET_BUF 0) (int 0) [x] = Inr ?buf"
    by (simp add: mem_write_def ET_BUF_def)
  have "et_loop (rx s) err (replicate ET_BUF 0) 0 = et_loop (RxData c # later) err ?buf 1"
    using assms(2) w by (subst et_loop.simps) (simp add: ET_BUF_def)
  also have "\<dots> = Inl OutOfBounds"
    using lb assms(3) by (intro et_loop_overruns) (simp_all add: ET_BUF_def)
  finally show ?thesis using assms(1) by (simp add: Put_socket_ET_def)
qed

theorem ET_stack_overrun_witness:
  "Put_socket_ET (CircularBuff_new (\<lambda>_. 0)) (Socket_new 5 [RxData [65], RxData (replicate 1024000 66)] []) 1
     EINTR = Inl OutOfBounds"
proof (rule ET_stack_overrun)
  show "rx (Socket_new 5 [RxData [65], RxData (replicate 1024000 66)] []) =
      [RxData [65], RxData (replicate 1024000 66)]"
    by (simp only: Socket_new_def Socket.select_convs)
qed (simp add: CircularBuff_new_eq GetFreeSize_def, simp only: length_replicate order_refl)

text \<open>The one-shot reader, which reads into the ring itself, in one piece or in two, leaves the
  ring as \<open>Put\<close> of the next \<open>avail\<close> bytes of the stream would, and takes no byte more.\<close>

theorem oneshot_fill:
  assumes "cb_wf b" "0 < avail" "avail \<le> GetFreeSize b"
    and "chunks_ok chunks" "nat avail \<le> length (concat chunks)" "rx s = map RxData chunks @ es"
  shows "\<exists>chunks' b'. Put_socket_oneshot b s avail = Inr (avail, b', s\<lparr>rx := map RxData chunks' @ es\<rparr>) \<and>
     cb_wf b' \<and> cb_contents b' = cb_contents b @ take (nat avail) (concat chunks) \<and>
     concat chunks' = drop (nat avail) (concat chunks)"
proof -
  obtain chunks' b' where o: "Put_socket_oneshot b s avail = Inr (avail, b', s\<lparr>rx := map RxData chunks' @ es\<rparr>)"
    "Put b (concat chunks) avail = Inr (avail, b')" "concat chunks' = drop (nat avail) (concat chunks)"
    by (rule oneshot_is_Put [OF assms])
  obtain b'' where "Put b (concat chunks) avail = Inr (avail, b'')" "cb_wf b''"
      "cb_contents b'' = cb_contents b @ take (nat avail) (concat chunks)"
    by (rule Put_spec [OF assms(1) _ _ assms(3)]) (use assms in auto)
  then show ?thesis using o by auto
qed

theorem oneshot_fill_witness:
  "\<exists>chunks' b'. Put_socket_oneshot (cb_make [10,11,12,13,14,15,16,17,0] 8 5 2)
       (Socket_new 5 (map RxData [[1, 2], [3, 4]] @ []) []) 3 =
     Inr (3, b', Socket_new 5 (map RxData chunks' @ []) []) \<and>
     cb_contents b' = [15, 16, 1, 2, 3] \<and> concat chunks' = [4]"
  using oneshot_fill [of "cb_make [10,11,12,13,14,15,16,17,0] 8 5 2" 3 "[[1, 2], [3, 4]]"
      "Socket_new 5 (map RxData [[1, 2], [3, 4]] @ []) []" "[]"]
  by (auto simp: cb_make_wf GetFreeSize_def chunks_ok_def Socket_new_def ring_view_def upt_rec)

end
