(* ===== verification/ClientObj.thy ===== *)
theory ClientObj
  imports SockFill Broadcast
begin

text \<open>
  The client objects: \<open>Client\<close> (src/Client.cpp), \<open>ClientServer\<close>, \<open>ChatUser\<close> (src/ChatUser.cpp). Each
  owns a byte ring and points to a socket. \<open>ExecuteCommand\<close> takes one unit of work out of the ring:
  for a connection to a manager a packet, for a user everything that is buffered. The message it
  hands to the broadcast queue is part of the result. Times are microseconds (the code's \<open>double\<close>
  holds the seconds of \<open>gettimeofday\<close>).
\<close>

section \<open>Client\<close>

datatype ENUM_CLIENT_TYPE = CLIENT_NOTHING | CLIENT_USER | CLIENT_SERVER | CLIENT_CHAT_MANAGER
  | CLIENT_CHAT_SERVER
datatype ENUM_CLIENT_STATE = STATE_WAIT | STATE_SEND | STATE_CLOSED
datatype process_class = ProcChatServer | ProcChatManager

text \<open>The three settings of \<open>_USE_LT\<close>, \<open>_USE_ET\<close> and \<open>_USE_ONESHOT\<close>.\<close>

datatype build = BuildLT | BuildET | BuildOneshot

fun state_bits :: "ENUM_CLIENT_STATE \<Rightarrow> byte" where
  "state_bits STATE_WAIT = 1"
| "state_bits STATE_SEND = 2"
| "state_bits STATE_CLOSED = 4"

record Client =
  m_cSocket :: "nat option"
  m_iState :: byte
  m_eType :: ENUM_CLIENT_TYPE
  m_tAccessTime :: int
  m_cCBuff :: CircularBuff
  m_pMainProcess :: "process_class option"

definition Client_new :: "(nat \<Rightarrow> byte) \<Rightarrow> int \<Rightarrow> Client" where
  "Client_new junk now =
     \<lparr>m_cSocket = None, m_iState = state_bits STATE_CLOSED, m_eType = CLIENT_NOTHING,
      m_tAccessTime = now, m_cCBuff = CircularBuff_new junk, m_pMainProcess = None\<rparr>"

definition Client_new_socket :: "(nat \<Rightarrow> byte) \<Rightarrow> int \<Rightarrow> nat option \<Rightarrow> ENUM_CLIENT_TYPE \<Rightarrow> Client" where
  "Client_new_socket junk now sock t =
     \<lparr>m_cSocket = sock, m_iState = state_bits STATE_WAIT, m_eType = t,
      m_tAccessTime = now, m_cCBuff = CircularBuff_new junk, m_pMainProcess = None\<rparr>"

definition SetMainProcess :: "'z Client_scheme \<Rightarrow> process_class \<Rightarrow> 'z Client_scheme" where
  "SetMainProcess c p = c\<lparr>m_pMainProcess := Some p\<rparr>"
definition IsValidPacket :: "'z Client_scheme \<Rightarrow> int" where
  "IsValidPacket c = GetUsedSize (m_cCBuff c)"
definition SetState :: "'z Client_scheme \<Rightarrow> ENUM_CLIENT_STATE \<Rightarrow> 'z Client_scheme" where
  "SetState c st = c\<lparr>m_iState := state_bits st\<rparr>"
definition GetState :: "'z Client_scheme \<Rightarrow> int" where
  "GetState c = uint (m_iState c)"
definition GetState_of :: "'z Client_scheme \<Rightarrow> ENUM_CLIENT_STATE \<Rightarrow> int" where
  "GetState_of c st = (if and (m_iState c) (state_bits st) \<noteq> 0 then 1 else 0)"
definition IsClosed :: "'z Client_scheme \<Rightarrow> bool" where
  "IsClosed c \<longleftrightarrow> and (m_iState c) (state_bits STATE_CLOSED) \<noteq> 0"
definition Client_GetType :: "'z Client_scheme \<Rightarrow> ENUM_CLIENT_TYPE" where
  "Client_GetType c = m_eType c"
definition Client_SetType :: "'z Client_scheme \<Rightarrow> ENUM_CLIENT_TYPE \<Rightarrow> 'z Client_scheme" where
  "Client_SetType c t = c\<lparr>m_eType := t\<rparr>"
definition SetAccessTime :: "'z Client_scheme \<Rightarrow> int \<Rightarrow> 'z Client_scheme" where
  "SetAccessTime c now = c\<lparr>m_tAccessTime := now\<rparr>"
definition GetAccessTime :: "'z Client_scheme \<Rightarrow> int" where
  "GetAccessTime c = m_tAccessTime c"
definition Client_GetSocket :: "'z Client_scheme \<Rightarrow> nat option" where
  "Client_GetSocket c = m_cSocket c"

lemmas client_access = SetMainProcess_def IsValidPacket_def SetState_def GetState_def GetState_of_def
  IsClosed_def Client_GetType_def Client_SetType_def SetAccessTime_def GetAccessTime_def
  Client_GetSocket_def

definition Client_GetPacket :: "'z Client_scheme \<Rightarrow> byte list \<Rightarrow> int \<Rightarrow>
    (int \<times> byte list \<times> 'z Client_scheme) res" where
  "Client_GetPacket c dst len =
     bindR (Get (m_cCBuff c) dst len) (\<lambda>(iRet, dst', b').
       Inr (if iRet < 0 then -1 else 0, dst', c\<lparr>m_cCBuff := b'\<rparr>))"

definition Client_FillFromSocket :: "build \<Rightarrow> 'z Client_scheme \<Rightarrow> 'y Socket_scheme \<Rightarrow> int \<Rightarrow> errno \<Rightarrow>
    (int \<times> 'z Client_scheme \<times> 'y Socket_scheme \<times> errno) res" where
  "Client_FillFromSocket bd c s avail err =
     (if bd = BuildOneshot
      then bindR (Put_socket_oneshot (m_cCBuff c) s avail) (\<lambda>(iReadLen, b', s').
             Inr (iReadLen, c\<lparr>m_cCBuff := b'\<rparr>, s', err))
      else bindR (Put_socket_ET (m_cCBuff c) s avail err) (\<lambda>(iReadLen, b', s', err').
             Inr (iReadLen, c\<lparr>m_cCBuff := b'\<rparr>, s', err')))"

definition Client_SendToClient :: "'y Socket_scheme \<Rightarrow> T_PACKET \<Rightarrow> int \<Rightarrow> (int \<times> 'y Socket_scheme) res" where
  "Client_SendToClient s p n = Socket_Write s (T_PACKET_bytes p) n"

section \<open>Reading one packet out of the ring\<close>

text \<open>
  The start of every packet handler: peek the header into a zeroed five-byte array, then copy
  \<open>length + PDUHEADERSIZE\<close> bytes into a zeroed \<open>T_PACKET\<close>.
\<close>

definition read_packet :: "'z Client_scheme \<Rightarrow>
    (int \<times> PACKET_HEADER \<times> T_PACKET \<times> 'z Client_scheme) res" where
  "read_packet c =
     bindR (GetHeader (m_cCBuff c) (replicate (PDUHEADERSIZE + 1) 0)) (\<lambda>(_, packetHeader).
     let pPacketHeader = PACKET_HEADER_of packetHeader in
     bindR (Client_GetPacket c (T_PACKET_bytes T_PACKET_zero)
              (uint (hdr_length pPacketHeader) + int PDUHEADERSIZE)) (\<lambda>(r, blk, c').
       Inr (r, pPacketHeader, T_PACKET_of blk, c')))"

record ClientServer = Client +
  cs_m_iPort :: int

definition ClientServer_new :: "(nat \<Rightarrow> byte) \<Rightarrow> int \<Rightarrow> nat option \<Rightarrow> ClientServer" where
  "ClientServer_new junk now sock =
     Client.extend (Client_new_socket junk now sock CLIENT_SERVER) \<lparr>cs_m_iPort = 0\<rparr>"

definition ClientServer_ExecuteCommand :: "ClientServer \<Rightarrow> (int \<times> ClientServer) res" where
  \<comment> \<open>every command falls to the \<open>default\<close> branch, which only logs\<close>
  "ClientServer_ExecuteCommand c =
     bindR (read_packet c) (\<lambda>(r, _, tPacket, c'). Inr (if r < 0 then -1 else 0, c'))"

section \<open>ChatUser\<close>

datatype ENUM_SEND_MODE = SEND_ONLY_FILE | SEND_WIDTH_HEADER

record ChatUser = Client +
  m_eSendMode :: ENUM_SEND_MODE
  m_lstSendPacket :: "nat list"
  m_tSendPacket :: T_PACKET

definition ChatUser_new :: "(nat \<Rightarrow> byte) \<Rightarrow> int \<Rightarrow> nat option \<Rightarrow> ChatUser" where
  "ChatUser_new junk now sock =
     Client.extend (Client_new_socket junk now sock CLIENT_USER)
       \<lparr>m_eSendMode = SEND_ONLY_FILE, m_lstSendPacket = [], m_tSendPacket = T_PACKET_zero\<rparr>"

definition GetSendPacketCount :: "ChatUser \<Rightarrow> int" where
  "GetSendPacketCount c = int (length (m_lstSendPacket c))"
definition AddPacketFront :: "ChatUser \<Rightarrow> nat \<Rightarrow> ChatUser" where
  "AddPacketFront c p = c\<lparr>m_lstSendPacket := p # m_lstSendPacket c\<rparr>"
definition RemovePacket :: "ChatUser \<Rightarrow> nat \<Rightarrow> ChatUser" where
  "RemovePacket c p = c\<lparr>m_lstSendPacket := removeAll p (m_lstSendPacket c)\<rparr>"

definition ChatUser_SendPacket :: "'y Socket_scheme \<Rightarrow> T_PACKET \<Rightarrow> (int \<times> 'y Socket_scheme) res" where
  \<comment> \<open>the build without \<open>_USE_SENDTHREAD\<close>\<close>
  "ChatUser_SendPacket s p =
     Socket_Write s (T_PACKET_bytes p) (int PDUHEADERSIZE + uint (hdr_length (pkt_header p)))"

text \<open>\<open>ChatUser::MessageBroadcast\<close>: the message reaches the queue only if the process is a \<open>ChatServer\<close>.\<close>

definition ChatUser_MessageBroadcast :: "ChatUser \<Rightarrow> BroadcastMessage \<Rightarrow> BroadcastMessage option" where
  "ChatUser_MessageBroadcast c bm =
     (if m_pMainProcess c = Some ProcChatServer then Some bm else None)"

definition ChatUser_ExecuteCommand :: "(nat \<Rightarrow> byte) \<Rightarrow> int \<Rightarrow> ChatUser \<Rightarrow>
    (int \<times> ChatUser \<times> BroadcastMessage option) res" where
  \<comment> \<open>\<open>fd\<close> is the descriptor of the client's socket\<close>
  "ChatUser_ExecuteCommand junk fd c =
     (if Client_GetType c = CLIENT_CHAT_MANAGER then
        bindR (read_packet c) (\<lambda>(r, pPacketHeader, tPacket, c').
          if r < 0 then Inr (-1, c', None)
          else if hdr_command (pkt_header tPacket) = cmd_CHAT_BROADCAST then
            let messageSize = uint (hdr_length pPacketHeader) - 8;
                bm = SetMessageSize (BroadcastMessage_new junk) messageSize
            in bindR (SetMessage bm (drop 8 (pkt_data tPacket)) messageSize) (\<lambda>bm1.
                 let bm2 = SetMessageType (msg_SetSocketFd bm1 fd) RELAYED_MESSAGE
                 in Inr (0, c', ChatUser_MessageBroadcast c' bm2))
          else Inr (0, c', None))
      else
        let bm = SetMessageSize (BroadcastMessage_new junk) (GetUsedSize (m_cCBuff c))
        in bindR (Client_GetPacket c (GetMessage bm) (GetMessageSize bm)) (\<lambda>(r, blk, c').
             if r < 0 then Inr (-1, c', None)
             else Inr (0, c', ChatUser_MessageBroadcast c' (msg_SetSocketFd (bm\<lparr>msg_block := blk\<rparr>) fd))))"

section \<open>Packets that lie whole in the ring\<close>

text \<open>What a sender puts on the wire for a packet: the header and \<open>length\<close> bytes of data.\<close>

definition pkt_len :: "T_PACKET \<Rightarrow> nat" where
  "pkt_len p = unat (hdr_length (pkt_header p))"

definition pkt_wire :: "T_PACKET \<Rightarrow> byte list" where
  "pkt_wire p = take (4 + pkt_len p) (T_PACKET_bytes p)"

definition pkt_ok :: "T_PACKET \<Rightarrow> bool" where
  "pkt_ok p \<longleftrightarrow> T_PACKET_wf p \<and> pkt_len p \<le> 4092"

text \<open>What a receiver gets: the data beyond \<open>length\<close> is zero.\<close>

definition pkt_received :: "T_PACKET \<Rightarrow> T_PACKET" where
  "pkt_received p = p\<lparr>pkt_data := take (pkt_len p) (pkt_data p) @ replicate (4092 - pkt_len p) 0\<rparr>"

lemma pkt_wire_eq: "pkt_wire p = PACKET_HEADER_bytes (pkt_header p) @ take (pkt_len p) (pkt_data p)"
  by (simp add: pkt_wire_def T_PACKET_bytes_def)

lemma length_pkt_wire: "pkt_ok p \<Longrightarrow> length (pkt_wire p) = 4 + pkt_len p"
  by (simp add: pkt_wire_def pkt_ok_def)

lemma pkt_received_len [simp]: "pkt_len (pkt_received p) = pkt_len p"
  by (simp add: pkt_received_def pkt_len_def)

lemma pkt_received_ok: "pkt_ok p \<Longrightarrow> pkt_ok (pkt_received p)"
  by (simp add: pkt_ok_def T_PACKET_wf_def) (simp add: pkt_received_def)

lemma pkt_received_wire: "pkt_ok p \<Longrightarrow> pkt_wire (pkt_received p) = pkt_wire p"
  by (simp add: pkt_wire_eq) (simp add: pkt_received_def pkt_ok_def T_PACKET_wf_def)

lemma length_T_PACKET_zero [simp]: "length (T_PACKET_bytes T_PACKET_zero) = 4096"
  by (simp add: T_PACKET_zero_wf)

lemma T_PACKET_zero_bytes: "T_PACKET_bytes T_PACKET_zero = replicate 4096 0"
proof -
  have "le_bytes 2 (0 :: 16 word) = replicate 2 0"
    by (rule nth_equalityI) (simp_all add: nth_le_bytes)
  then have "T_PACKET_bytes T_PACKET_zero = replicate (2 + 2 + PDUBODYSIZE) 0"
    by (simp only: T_PACKET_bytes_def T_PACKET_zero_def PACKET_HEADER_bytes_def PACKET_HEADER.simps
        T_PACKET.simps replicate_add append_assoc)
  then show ?thesis by simp
qed

lemma T_PACKET_of_wire:
  assumes "pkt_ok p"
  shows "T_PACKET_of (mem_put (T_PACKET_bytes T_PACKET_zero) 0 (pkt_wire p)) = pkt_received p"
proof -
  have "length (pkt_wire p) = 4 + pkt_len p" "pkt_len p \<le> 4092"
    using assms length_pkt_wire by (auto simp: pkt_ok_def)
  then have "mem_put (T_PACKET_bytes T_PACKET_zero) 0 (pkt_wire p) =
      pkt_wire p @ replicate (4092 - pkt_len p) 0"
    by (simp add: mem_put_drop_0 T_PACKET_zero_bytes)
  also have "\<dots> = T_PACKET_bytes (pkt_received p)"
    by (simp add: pkt_wire_eq T_PACKET_bytes_def) (simp add: pkt_received_def)
  finally show ?thesis
    using pkt_received_ok [OF assms] by (simp add: T_PACKET_of_bytes pkt_ok_def)
qed

lemma hdr_uint_len: "uint (hdr_length (pkt_header p)) = int (pkt_len p)"
  by (simp add: pkt_len_def)

lemma read_packet_peek:
  assumes "cb_half (m_cCBuff c)" "cb_contents (m_cCBuff c) = PACKET_HEADER_bytes h @ rest"
  shows "GetHeader (m_cCBuff c) (replicate 5 0) = Inr (0, PACKET_HEADER_bytes h @ [0])"
proof -
  have wf: "cb_wf (m_cCBuff c)" using assms by (simp add: cb_half_def)
  have used: "GetUsedSize (m_cCBuff c) = 4 + int (length rest)"
    using cb_wf_used [OF wf] assms by (simp add: GetUsedSize_def)
  then have "cb_get_ok (m_cCBuff c) 4"
    using assms by (intro cb_half_get_ok) auto
  then have "GetHeader (m_cCBuff c) (replicate 5 0) =
      Inr (0, mem_put (replicate 5 0) 0 (take 4 (cb_contents (m_cCBuff c))))"
    using GetHeader_spec [OF wf, of "replicate 5 0"] used by simp
  then show ?thesis by (simp add: assms mem_put_drop_0)
qed

lemma read_packet_whole:
  assumes half: "cb_half (m_cCBuff c)" and con: "cb_contents (m_cCBuff c) = pkt_wire p @ rest"
    and p: "pkt_ok p"
  obtains b' where "read_packet c = Inr (0, pkt_header p, pkt_received p, c\<lparr>m_cCBuff := b'\<rparr>)"
    "cb_half b'" "cb_contents b' = rest" "m_iBufferSize b' = m_iBufferSize (m_cCBuff c)"
proof -
  have wf: "cb_wf (m_cCBuff c)" using half by (simp add: cb_half_def)
  let ?n = "int (pkt_len p) + 4"
  have used: "GetUsedSize (m_cCBuff c) = ?n + int (length rest)"
    using cb_wf_used [OF wf] length_pkt_wire [OF p] by (simp add: GetUsedSize_def con)
  have ok: "cb_get_ok (m_cCBuff c) ?n" using half used by (intro cb_half_get_ok) auto
  obtain b' where b': "Get (m_cCBuff c) (T_PACKET_bytes T_PACKET_zero) ?n =
        Inr (?n, mem_put (T_PACKET_bytes T_PACKET_zero) 0 (take (nat ?n) (cb_contents (m_cCBuff c))), b')"
      "cb_wf b'" "cb_contents b' = drop (nat ?n) (cb_contents (m_cCBuff c))"
      "m_iBufferSize b' = m_iBufferSize (m_cCBuff c)" "GetUsedSize b' = GetUsedSize (m_cCBuff c) - ?n"
    by (rule Get_spec [OF wf _ _ _ ok]) (use used p in \<open>auto simp: pkt_ok_def\<close>)
  have n: "nat ?n = length (pkt_wire p)" using length_pkt_wire [OF p] by simp
  have hd: "GetHeader (m_cCBuff c) (replicate 5 0) =
      Inr (0, PACKET_HEADER_bytes (pkt_header p) @ [0])"
    by (rule read_packet_peek [OF half]) (simp add: con pkt_wire_eq)
  have "read_packet c = Inr (0, pkt_header p, pkt_received p, c\<lparr>m_cCBuff := b'\<rparr>)"
    using b'(1) T_PACKET_of_wire [OF p]
    by (simp add: read_packet_def hd PACKET_HEADER_of_bytes Client_GetPacket_def hdr_uint_len n con
        del: nat_int_add)
  moreover have "cb_half b'" using b' half used by (simp add: cb_half_def)
  moreover have "cb_contents b' = rest" using b'(3) by (simp add: n con)
  ultimately show thesis using that b'(4) by blast
qed

text \<open>A packet that has not arrived whole: the handler returns -1 and leaves the ring as it was.\<close>

lemma read_packet_partial:
  assumes "cb_half (m_cCBuff c)" "cb_contents (m_cCBuff c) = PACKET_HEADER_bytes h @ part"
    and "length part < unat (hdr_length h)"
  shows "\<exists>p. read_packet c = Inr (-1, h, p, c)"
proof -
  have wf: "cb_wf (m_cCBuff c)" using assms by (simp add: cb_half_def)
  have used: "GetUsedSize (m_cCBuff c) = 4 + int (length part)"
    using cb_wf_used [OF wf] assms by (simp add: GetUsedSize_def)
  have "int (length part) < int (unat (hdr_length h))"
    using assms(3) by (simp only: of_nat_less_iff)
  then have "GetUsedSize (m_cCBuff c) < uint (hdr_length h) + 4" using used by simp
  then show ?thesis
    using read_packet_peek [OF assms(1,2)]
    by (simp add: read_packet_def PACKET_HEADER_of_bytes Client_GetPacket_def Get_def RECV_NOT_ENOUGH_def)
qed

section \<open>What \<open>ExecuteCommand\<close> makes of the ring\<close>

definition junk_block :: "(nat \<Rightarrow> byte) \<Rightarrow> byte list" where
  "junk_block junk = map junk [0..<1024]"

lemma length_junk_block [simp]: "length (junk_block junk) = 1024"
  by (simp add: junk_block_def)

definition relayed_message :: "(nat \<Rightarrow> byte) \<Rightarrow> int \<Rightarrow> T_PACKET \<Rightarrow> BroadcastMessage" where
  "relayed_message junk fd p =
     \<lparr>messageType = RELAYED_MESSAGE, msg_socket = fd,
      msg_block = take (pkt_len p - 9) (drop 8 (pkt_data p)) @ 0 # drop (pkt_len p - 8) (junk_block junk),
      messageSize = int (pkt_len p - 8)\<rparr>"

definition user_message :: "(nat \<Rightarrow> byte) \<Rightarrow> int \<Rightarrow> byte list \<Rightarrow> BroadcastMessage" where
  "user_message junk fd text =
     \<lparr>messageType = CLIENT_CHAT_MESSAGE, msg_socket = fd,
      msg_block = text @ drop (length text) (junk_block junk), messageSize = int (length text)\<rparr>"

definition relayable :: "T_PACKET \<Rightarrow> bool" where
  "relayable p \<longleftrightarrow> pkt_ok p \<and> hdr_command (pkt_header p) = cmd_CHAT_BROADCAST \<and>
     9 \<le> pkt_len p \<and> pkt_len p \<le> 1032"

lemma BroadcastMessage_new_eq:
  "BroadcastMessage_new junk = \<lparr>messageType = CLIENT_CHAT_MESSAGE, msg_socket = 0,
     msg_block = junk_block junk, messageSize = 0\<rparr>"
  by (simp add: BroadcastMessage_new_def junk_block_def MAX_MESSAGE_SIZE_def)

lemma SetMessage_relayed:
  assumes "relayable p"
  shows "SetMessage (SetMessageSize (BroadcastMessage_new junk) n) (drop 8 (pkt_data (pkt_received p)))
      (int (pkt_len p) - 8) =
    Inr ((SetMessageSize (BroadcastMessage_new junk) n)\<lparr>msg_block :=
      take (pkt_len p - 9) (drop 8 (pkt_data p)) @ 0 # drop (pkt_len p - 8) (junk_block junk)\<rparr>)"
proof -
  define k where "k = pkt_len p - 9"
  have k: "pkt_len p = Suc k + 8" "k < 1024" using assms by (auto simp: relayable_def k_def)
  let ?d = "drop 8 (pkt_data (pkt_received p))"
  have len: "length ?d = 4084" and src: "take k ?d = take k (drop 8 (pkt_data p))"
    using assms k by (simp_all add: relayable_def pkt_ok_def T_PACKET_wf_def pkt_received_def take_drop)
  show ?thesis
    using SetMessage_ok [of "SetMessageSize (BroadcastMessage_new junk) n" "Suc k" ?d] len src k
    by (simp add: SetMessageSize_def BroadcastMessage_new_eq)
qed

lemma ExecuteCommand_relays:
  assumes c: "m_eType c = CLIENT_CHAT_MANAGER" "m_pMainProcess c = Some ProcChatServer"
    and half: "cb_half (m_cCBuff c)" and con: "cb_contents (m_cCBuff c) = pkt_wire p @ rest"
    and p: "relayable p"
  obtains b' where "ChatUser_ExecuteCommand junk fd c =
      Inr (0, c\<lparr>m_cCBuff := b'\<rparr>, Some (relayed_message junk fd p))"
    "cb_half b'" "cb_contents b' = rest" "m_iBufferSize b' = m_iBufferSize (m_cCBuff c)"
proof -
  have ok: "pkt_ok p" using p by (simp add: relayable_def)
  obtain b' where b': "read_packet c = Inr (0, pkt_header p, pkt_received p, c\<lparr>m_cCBuff := b'\<rparr>)"
    "cb_half b'" "cb_contents b' = rest" "m_iBufferSize b' = m_iBufferSize (m_cCBuff c)"
    by (rule read_packet_whole [OF half con ok])
  have "ChatUser_ExecuteCommand junk fd c = Inr (0, c\<lparr>m_cCBuff := b'\<rparr>, Some (relayed_message junk fd p))"
    using c p b'(1) SetMessage_relayed [OF p, of junk "int (pkt_len p) - 8"]
    by (simp add: ChatUser_ExecuteCommand_def Client_GetType_def hdr_uint_len relayable_def Let_def
        ChatUser_MessageBroadcast_def relayed_message_def msg_access BroadcastMessage_new_eq
        pkt_received_def of_nat_diff)
  then show thesis using that b' by blast
qed

lemma ExecuteCommand_text:
  assumes c: "m_eType c \<noteq> CLIENT_CHAT_MANAGER" "m_pMainProcess c = Some ProcChatServer"
    and half: "cb_half (m_cCBuff c)" and len: "length (cb_contents (m_cCBuff c)) \<le> 1024"
  obtains b' where "ChatUser_ExecuteCommand junk fd c =
      Inr (0, c\<lparr>m_cCBuff := b'\<rparr>, Some (user_message junk fd (cb_contents (m_cCBuff c))))"
    "cb_half b'" "cb_contents b' = []" "m_iBufferSize b' = m_iBufferSize (m_cCBuff c)"
proof -
  have wf: "cb_wf (m_cCBuff c)" using half by (simp add: cb_half_def)
  let ?n = "GetUsedSize (m_cCBuff c)"
  have n: "?n = int (length (cb_contents (m_cCBuff c)))" using cb_wf_used [OF wf] by (simp add: GetUsedSize_def)
  have ok: "cb_get_ok (m_cCBuff c) ?n" using half n by (intro cb_half_get_ok) auto
  obtain b' where b': "Get (m_cCBuff c) (junk_block junk) ?n =
        Inr (?n, mem_put (junk_block junk) 0 (take (nat ?n) (cb_contents (m_cCBuff c))), b')"
      "cb_wf b'" "cb_contents b' = drop (nat ?n) (cb_contents (m_cCBuff c))"
      "m_iBufferSize b' = m_iBufferSize (m_cCBuff c)" "GetUsedSize b' = ?n - ?n"
    by (rule Get_spec [OF wf _ _ _ ok, where dst = "junk_block junk"]) (use n len in auto)
  have "ChatUser_ExecuteCommand junk fd c =
      Inr (0, c\<lparr>m_cCBuff := b'\<rparr>, Some (user_message junk fd (cb_contents (m_cCBuff c))))"
    using c b'(1) n len
    by (simp add: ChatUser_ExecuteCommand_def Client_GetType_def Client_GetPacket_def Let_def
        ChatUser_MessageBroadcast_def user_message_def msg_access BroadcastMessage_new_eq mem_put_drop_0)
  moreover have "cb_half b'" using b' half n by (simp add: cb_half_def)
  ultimately show thesis using that b' n by simp
qed

lemma ExecuteCommand_text_overflow:
  assumes "m_eType c \<noteq> CLIENT_CHAT_MANAGER" "cb_wf (m_cCBuff c)" "1024 < GetUsedSize (m_cCBuff c)"
  shows "ChatUser_ExecuteCommand junk fd c = Inl OutOfBounds"
proof -
  obtain m where "m_pchBufferHeader (m_cCBuff c) = Some m"
    using assms(2) by (auto simp: cb_wf_def split: option.splits)
  then have "Get (m_cCBuff c) (junk_block junk) (GetUsedSize (m_cCBuff c)) = Inl OutOfBounds"
    using assms(3) by (intro Get_dst_too_small) auto
  then show ?thesis
    using assms(1)
    by (simp add: ChatUser_ExecuteCommand_def Client_GetType_def Client_GetPacket_def Let_def msg_access
        BroadcastMessage_new_eq)
qed

end
