(* ===== verification/NetWorld.thy ===== *)
theory NetWorld
  imports SocketIO
begin

text \<open>
  What the two server processes share: the \<open>Socket\<close> objects on the heap (\<open>n_socks\<close>, a pointer to the
  object's \<open>m_iFd\<close>; absent once deleted), the open descriptors with their kernel side (\<open>n_kern\<close>), and
  the interest list of \<open>IOMP_EPoll\<close> (\<open>n_epoll\<close>). Using a deleted object is \<open>UseAfterFree\<close>, a NULL one
  \<open>NullDeref\<close>. The kernel forgets a closed descriptor in its interest list too.
\<close>

section \<open>State\<close>

record net =
  n_socks :: "nat \<rightharpoonup> int"
  n_kern :: "int \<rightharpoonup> Socket"
  n_epoll :: "int \<rightharpoonup> 32 word \<times> nat"

definition sock_fd :: "'z net_scheme \<Rightarrow> nat option \<Rightarrow> int res" where
  \<comment> \<open>\<open>p->GetFd()\<close>\<close>
  "sock_fd w p =
     (case p of None \<Rightarrow> Inl NullDeref
      | Some a \<Rightarrow> (case n_socks w a of None \<Rightarrow> Inl UseAfterFree | Some fd \<Rightarrow> Inr fd))"

definition delete_socket :: "'z net_scheme \<Rightarrow> nat option \<Rightarrow> 'z net_scheme res" where
  \<comment> \<open>\<open>delete p\<close> with \<open>~Socket\<close>, which closes the descriptor\<close>
  "delete_socket w p =
     (case p of None \<Rightarrow> Inr w
      | Some a \<Rightarrow> (case n_socks w a of None \<Rightarrow> Inl UseAfterFree
          | Some fd \<Rightarrow> Inr (w\<lparr>n_socks := (n_socks w)(a := None), n_kern := (n_kern w)(fd := None),
                             n_epoll := (n_epoll w)(fd := None)\<rparr>)))"

definition write_at :: "'z net_scheme \<Rightarrow> nat option \<Rightarrow> byte list \<Rightarrow> int \<Rightarrow> (int \<times> 'z net_scheme) res" where
  \<comment> \<open>\<open>p->Write(buf, n)\<close>; a descriptor that is not open makes \<open>write\<close> fail\<close>
  "write_at w p buf n =
     bindR (sock_fd w p) (\<lambda>fd.
       case n_kern w fd of
         None \<Rightarrow> Inr (if fd \<le> 0 \<or> n = 0 then 0 else -1, w)
       | Some s \<Rightarrow> bindR (Socket_Write (s\<lparr>m_iFd := fd\<rparr>) buf n) (\<lambda>(r, s').
           Inr (r, w\<lparr>n_kern := (n_kern w)(fd \<mapsto> s')\<rparr>)))"

definition write_fd :: "'z net_scheme \<Rightarrow> int \<Rightarrow> byte list \<Rightarrow> int \<Rightarrow> (int \<times> 'z net_scheme) res" where
  \<comment> \<open>\<open>CNPUtil::Write(fd, buf, n)\<close>\<close>
  "write_fd w fd buf n =
     (case n_kern w fd of
        None \<Rightarrow> Inr (if n = 0 then 0 else -1, w)
      | Some s \<Rightarrow> bindR (CNPUtil_Write \<lparr>file_tx = tx s, file_out = wire s\<rparr> buf n) (\<lambda>(r, f).
          Inr (r, w\<lparr>n_kern := (n_kern w)(fd \<mapsto> s\<lparr>tx := file_tx f, wire := file_out f\<rparr>)\<rparr>)))"

definition wire_of :: "'z net_scheme \<Rightarrow> int \<Rightarrow> byte list" where
  "wire_of w fd = (case n_kern w fd of None \<Rightarrow> [] | Some s \<Rightarrow> wire s)"

text \<open>One block to many sockets, one after the other: through pointers, and on descriptors.\<close>

fun write_managers :: "'z net_scheme \<Rightarrow> nat option list \<Rightarrow> byte list \<Rightarrow> int \<Rightarrow> 'z net_scheme res" where
  "write_managers w [] blk n = Inr w"
| "write_managers w (p # ps) blk n =
     bindR (write_at w p blk n) (\<lambda>(_, w'). write_managers w' ps blk n)"

fun write_targets :: "'z net_scheme \<Rightarrow> int list \<Rightarrow> byte list \<Rightarrow> int \<Rightarrow> 'z net_scheme res" where
  "write_targets w [] blk n = Inr w"
| "write_targets w (fd # fds) blk n =
     bindR (write_fd w fd blk n) (\<lambda>(_, w'). write_targets w' fds blk n)"

section \<open>IOMP_EPoll\<close>

definition EPOLL_SIZE :: nat where "EPOLL_SIZE = 20000"
definition EPOLLIN :: "32 word" where "EPOLLIN = 0x001"
definition EPOLLOUT :: "32 word" where "EPOLLOUT = 0x004"
definition EPOLLERR :: "32 word" where "EPOLLERR = 0x008"
definition EPOLLHUP :: "32 word" where "EPOLLHUP = 0x010"
definition EPOLLET :: "32 word" where "EPOLLET = 0x80000000"
definition EPOLLONESHOT :: "32 word" where "EPOLLONESHOT = 0x40000000"

text \<open>\<open>epoll_ctl\<close>: ADD fails on a closed or already registered descriptor, MOD and DEL on one that is
  not registered.\<close>

definition IOMP_EPoll_AddClient :: "'z net_scheme \<Rightarrow> nat \<Rightarrow> nat option \<Rightarrow> 32 word \<Rightarrow>
    (int \<times> 'z net_scheme) res" where
  \<comment> \<open>the client's pointer and its socket's\<close>
  "IOMP_EPoll_AddClient w cp sp events =
     bindR (sock_fd w sp) (\<lambda>fd.
       if n_kern w fd = None \<or> n_epoll w fd \<noteq> None then Inr (-1, w)
       else Inr (0, w\<lparr>n_epoll := (n_epoll w)(fd \<mapsto> (events, cp))\<rparr>))"

definition IOMP_EPoll_ModifyFd :: "'z net_scheme \<Rightarrow> nat \<Rightarrow> nat option \<Rightarrow> 32 word \<Rightarrow>
    (int \<times> 'z net_scheme) res" where
  "IOMP_EPoll_ModifyFd w cp sp events =
     bindR (sock_fd w sp) (\<lambda>fd.
       if n_epoll w fd = None then Inr (-1, w)
       else Inr (0, w\<lparr>n_epoll := (n_epoll w)(fd \<mapsto> (events, cp))\<rparr>))"

definition IOMP_EPoll_DelFd :: "'z net_scheme \<Rightarrow> int \<Rightarrow> int \<times> 'z net_scheme" where
  "IOMP_EPoll_DelFd w fd =
     (if n_epoll w fd = None then (-1, w) else (0, w\<lparr>n_epoll := (n_epoll w)(fd := None)\<rparr>))"

definition IOMP_EPoll_DelClient :: "'z net_scheme \<Rightarrow> nat option \<Rightarrow> (int \<times> 'z net_scheme) res" where
  "IOMP_EPoll_DelClient w sp = bindR (sock_fd w sp) (\<lambda>fd. Inr (IOMP_EPoll_DelFd w fd))"

text \<open>\<open>Polling\<close>: the kernel picks at most \<open>EPOLL_SIZE\<close> registered descriptors with their events
  (\<open>ready\<close>); the result is what \<open>m_stEvent\<close> holds afterwards.\<close>

definition IOMP_EPoll_Polling :: "'z net_scheme \<Rightarrow> (int \<times> 32 word) list \<Rightarrow> (32 word \<times> nat) list" where
  "IOMP_EPoll_Polling w ready =
     take EPOLL_SIZE
       (List.map_filter (\<lambda>(fd, ev). map_option (\<lambda>(_, cp). (ev, cp)) (n_epoll w fd)) ready)"

lemmas net_defs = sock_fd_def delete_socket_def IOMP_EPoll_AddClient_def IOMP_EPoll_ModifyFd_def
  IOMP_EPoll_DelFd_def IOMP_EPoll_DelClient_def

section \<open>Lemmas\<close>

lemma sock_fd_simps [simp]:
  "sock_fd w None = Inl NullDeref"
  "n_socks w a = None \<Longrightarrow> sock_fd w (Some a) = Inl UseAfterFree"
  "n_socks w a = Some fd \<Longrightarrow> sock_fd w (Some a) = Inr fd"
  by (simp_all add: sock_fd_def)

section \<open>Writing to many descriptors\<close>

text \<open>A descriptor that answers every \<open>write\<close> of these bytes, perhaps with an error; the same
  answered in full.\<close>

definition responsive :: "'z net_scheme \<Rightarrow> int \<Rightarrow> byte list \<Rightarrow> bool" where
  "responsive w fd bs \<longleftrightarrow>
     (\<exists>s r. n_kern w fd = Some s \<and> write_loop (tx s) bs (wire s) = Inr r)"

definition takes_all :: "'z net_scheme \<Rightarrow> int \<Rightarrow> byte list \<Rightarrow> bool" where
  "takes_all w fd bs \<longleftrightarrow>
     (\<exists>s t x. n_kern w fd = Some s \<and> write_loop (tx s) bs (wire s) = Inr (True, t, x))"

definition kern_ok :: "'z net_scheme \<Rightarrow> bool" where
  "kern_ok w \<longleftrightarrow> (\<forall>fd s. n_kern w fd = Some s \<longrightarrow> m_iFd s = fd)"

text \<open>What a delivery does to one descriptor: a prefix of the bytes, all of them if they are taken.\<close>

definition delivered :: "'z net_scheme \<Rightarrow> 'y net_scheme \<Rightarrow> int \<Rightarrow> byte list \<Rightarrow> bool" where
  "delivered w w' fd bs \<longleftrightarrow>
     (\<exists>k \<le> length bs. wire_of w' fd = wire_of w fd @ take k bs \<and> (takes_all w fd bs \<longrightarrow> k = length bs))"

lemma delivered_all:
  "delivered w w' fd bs \<Longrightarrow> takes_all w fd bs \<Longrightarrow> drop (length (wire_of w fd)) (wire_of w' fd) = bs"
  by (auto simp: delivered_def)

lemma write_fd_responsive:
  assumes "responsive w fd (take n blk)" "n \<le> length blk"
  obtains r s s' where "n_kern w fd = Some s" "m_iFd s' = m_iFd s"
    "write_fd w fd blk (int n) = Inr (r, w\<lparr>n_kern := (n_kern w)(fd \<mapsto> s')\<rparr>)"
    "delivered w (w\<lparr>n_kern := (n_kern w)(fd \<mapsto> s')\<rparr>) fd (take n blk)"
proof -
  from assms(1) obtain s full t x where s: "n_kern w fd = Some s"
      "write_loop (tx s) (take n blk) (wire s) = Inr (full, t, x)"
    by (auto simp: responsive_def)
  obtain k where k: "k \<le> length (take n blk)" "x = wire s @ take k (take n blk)"
      "full \<longleftrightarrow> k = length (take n blk) \<or> take n blk = []"
    using write_loop_prefix [OF s(2)] by blast
  let ?s' = "s\<lparr>tx := t, wire := x\<rparr>"
  have "mem_read blk 0 (int n) = Inr (take n blk)" using assms(2) by (simp add: mem_read_ok)
  then have "write_fd w fd blk (int n) =
      Inr (if full then int n else -1, w\<lparr>n_kern := (n_kern w)(fd \<mapsto> ?s')\<rparr>)"
    using s by (simp add: write_fd_def CNPUtil_Write_def)
  moreover have "k = length (take n blk)" if "takes_all w fd (take n blk)"
    using that s k by (auto simp: takes_all_def)
  then have "delivered w (w\<lparr>n_kern := (n_kern w)(fd \<mapsto> ?s')\<rparr>) fd (take n blk)"
    using s k unfolding delivered_def by (intro exI [of _ k]) (auto simp: wire_of_def)
  ultimately show thesis using that [OF s(1), of ?s'] by simp
qed

lemma write_targets_deliver:
  assumes "distinct fds" "\<And>fd. fd \<in> set fds \<Longrightarrow> responsive w fd (take n blk)" "n \<le> length blk"
  shows "\<exists>K. write_targets w fds blk (int n) = Inr (w\<lparr>n_kern := K\<rparr>) \<and>
    (\<forall>fd. fd \<notin> set fds \<longrightarrow> K fd = n_kern w fd) \<and>
    (\<forall>fd \<in> set fds. delivered w (w\<lparr>n_kern := K\<rparr>) fd (take n blk)) \<and>
    (kern_ok w \<longrightarrow> kern_ok (w\<lparr>n_kern := K\<rparr>)) \<and> dom K = dom (n_kern w)"
  using assms
proof (induction fds arbitrary: w)
  case Nil
  then show ?case by (intro exI [of _ "n_kern w"]) simp
next
  case (Cons fd fds)
  have r0: "responsive w fd (take n blk)" using Cons.prems(2) by simp
  obtain r s s' where s: "n_kern w fd = Some s" "m_iFd s' = m_iFd s"
    "write_fd w fd blk (int n) = Inr (r, w\<lparr>n_kern := (n_kern w)(fd \<mapsto> s')\<rparr>)"
    "delivered w (w\<lparr>n_kern := (n_kern w)(fd \<mapsto> s')\<rparr>) fd (take n blk)"
    by (rule write_fd_responsive [OF r0 Cons.prems(3)])
  let ?w1 = "w\<lparr>n_kern := (n_kern w)(fd \<mapsto> s')\<rparr>"
  have same: "n_kern ?w1 g = n_kern w g" if "g \<in> set fds" for g using that Cons.prems(1) by auto
  have resp: "responsive ?w1 g (take n blk)" if "g \<in> set fds" for g
    using that Cons.prems(2) [of g] same [OF that] by (simp add: responsive_def)
  have dist: "distinct fds" using Cons.prems(1) by simp
  obtain K where K: "write_targets ?w1 fds blk (int n) = Inr (?w1\<lparr>n_kern := K\<rparr>)"
      "\<forall>g. g \<notin> set fds \<longrightarrow> K g = n_kern ?w1 g"
      "\<forall>g \<in> set fds. delivered ?w1 (?w1\<lparr>n_kern := K\<rparr>) g (take n blk)"
      "kern_ok ?w1 \<longrightarrow> kern_ok (?w1\<lparr>n_kern := K\<rparr>)" "dom K = dom (n_kern ?w1)"
    using Cons.IH [OF dist resp Cons.prems(3)] by blast
  have fdK: "K fd = Some s'" using K(2) Cons.prems(1) by simp
  have "delivered w (w\<lparr>n_kern := K\<rparr>) g (take n blk)" if g: "g \<in> set (fd # fds)" for g
  proof (cases "g = fd")
    case True
    then show ?thesis using s(4) fdK by (simp add: delivered_def wire_of_def)
  next
    case False
    then have g': "g \<in> set fds" using g by simp
    then have "delivered ?w1 (?w1\<lparr>n_kern := K\<rparr>) g (take n blk)" using K(3) by blast
    then show ?thesis using same [OF g'] by (simp add: delivered_def wire_of_def takes_all_def)
  qed
  moreover have "write_targets w (fd # fds) blk (int n) = Inr (w\<lparr>n_kern := K\<rparr>)"
    using s(3) K(1) by simp
  moreover have "kern_ok ?w1" if "kern_ok w" using that s(1,2) by (simp add: kern_ok_def)
  then have "kern_ok w \<longrightarrow> kern_ok (w\<lparr>n_kern := K\<rparr>)" using K(4) by simp
  moreover have "dom K = dom (n_kern w)" using K(5) s(1) by auto
  ultimately show ?case using K(2) by (intro exI [of _ K]) auto
qed

text \<open>A \<open>Socket\<close> object that owns its descriptor writes as \<open>CNPUtil::Write\<close> does.\<close>

lemma write_at_is_write_fd:
  assumes "n_socks w p = Some fd" "0 < fd" "kern_ok w"
  shows "write_at w (Some p) blk n = write_fd w fd blk n"
proof (cases "n_kern w fd")
  case None
  then show ?thesis using assms by (simp add: write_at_def write_fd_def)
next
  case (Some s)
  then have "s\<lparr>m_iFd := fd\<rparr> = s" "0 < m_iFd s" using assms by (auto simp: kern_ok_def)
  then show ?thesis
    using assms Some
    by (cases "mem_read blk 0 n")
      (auto simp: write_at_def write_fd_def Socket_Write_def CNPUtil_Write_def bindR_def split: sum.splits)
qed

lemma write_managers_is_targets:
  assumes "\<forall>p \<in> set ps. \<exists>fd. n_socks w p = Some fd \<and> 0 < fd" "kern_ok w"
    and "distinct (map (\<lambda>p. the (n_socks w p)) ps)"
    and "\<And>p. p \<in> set ps \<Longrightarrow> responsive w (the (n_socks w p)) (take n blk)" "n \<le> length blk"
  shows "write_managers w (map Some ps) blk (int n) =
    write_targets w (map (\<lambda>p. the (n_socks w p)) ps) blk (int n)"
  using assms
proof (induction ps arbitrary: w)
  case (Cons p ps)
  then obtain fd where fd: "n_socks w p = Some fd" "0 < fd" by auto
  have r0: "responsive w fd (take n blk)" using Cons.prems(4) [of p] fd by simp
  obtain r s s' where s: "n_kern w fd = Some s" "m_iFd s' = m_iFd s"
    "write_fd w fd blk (int n) = Inr (r, w\<lparr>n_kern := (n_kern w)(fd \<mapsto> s')\<rparr>)"
    by (rule write_fd_responsive [OF r0 Cons.prems(5)])
  let ?w1 = "w\<lparr>n_kern := (n_kern w)(fd \<mapsto> s')\<rparr>"
  have "kern_ok ?w1" using Cons.prems(2) s(1,2) by (auto simp: kern_ok_def)
  moreover have "responsive ?w1 (the (n_socks w q)) (take n blk)" if q: "q \<in> set ps" for q
  proof -
    have "the (n_socks w q) \<noteq> fd" using Cons.prems(3) q fd(1) by force
    then show ?thesis using Cons.prems(4) [of q] q by (simp add: responsive_def)
  qed
  ultimately have "write_managers ?w1 (map Some ps) blk (int n) =
      write_targets ?w1 (map (\<lambda>p. the (n_socks w p)) ps) blk (int n)"
    using Cons.IH [of ?w1] Cons.prems by auto
  then show ?case using fd s(3) write_at_is_write_fd [OF fd Cons.prems(2)] by simp
qed simp

section \<open>Interface: a connection registry\<close>

text \<open>
  What the accept loop and the close paths of both servers promise: connections are opened one at a
  time up to a limit, closed by name, and counted exactly. \<open>'k\<close> is what the kernel hands to
  \<open>accept\<close>; \<open>ok s k\<close> says that it is a new descriptor.
\<close>

datatype 'k conn_op = ConnOpen 'k | ConnClose nat

fun conn_run :: "('s \<Rightarrow> 'k \<Rightarrow> 's res) \<Rightarrow> ('s \<Rightarrow> nat \<Rightarrow> 's res) \<Rightarrow> 's \<Rightarrow> 'k conn_op list \<Rightarrow> 's res" where
  "conn_run opn cls s [] = Inr s"
| "conn_run opn cls s (ConnOpen k # ops) = bindR (opn s k) (\<lambda>s'. conn_run opn cls s' ops)"
| "conn_run opn cls s (ConnClose a # ops) = bindR (cls s a) (\<lambda>s'. conn_run opn cls s' ops)"

fun conn_legal :: "('s \<Rightarrow> 'k \<Rightarrow> 's res) \<Rightarrow> ('s \<Rightarrow> nat \<Rightarrow> 's res) \<Rightarrow> ('s \<Rightarrow> 'k \<Rightarrow> bool) \<Rightarrow> ('s \<Rightarrow> nat list) \<Rightarrow>
    's \<Rightarrow> 'k conn_op list \<Rightarrow> bool" where
  "conn_legal opn cls ok conns s [] = True"
| "conn_legal opn cls ok conns s (ConnOpen k # ops) =
     (ok s k \<and> (case opn s k of Inl _ \<Rightarrow> True | Inr s' \<Rightarrow> conn_legal opn cls ok conns s' ops))"
| "conn_legal opn cls ok conns s (ConnClose a # ops) =
     (a \<in> set (conns s) \<and> (case cls s a of Inl _ \<Rightarrow> True | Inr s' \<Rightarrow> conn_legal opn cls ok conns s' ops))"

locale conn_registry =
  fixes inv :: "'s \<Rightarrow> bool"
    and conns :: "'s \<Rightarrow> nat list"
    and count :: "'s \<Rightarrow> int"
    and limit :: "'s \<Rightarrow> int"
    and ok :: "'s \<Rightarrow> 'k \<Rightarrow> bool"
    and opn :: "'s \<Rightarrow> 'k \<Rightarrow> 's res"
    and cls :: "'s \<Rightarrow> nat \<Rightarrow> 's res"
  assumes counted: "inv s \<Longrightarrow> count s = int (length (conns s))"
    and open_law: "inv s \<Longrightarrow> ok s k \<Longrightarrow>
      \<exists>s'. opn s k = Inr s' \<and> inv s' \<and> limit s' = limit s \<and>
        (conns s' = conns s \<or> count s < limit s \<and> (\<exists>a. a \<notin> set (conns s) \<and> conns s' = conns s @ [a]))"
    and close_law: "inv s \<Longrightarrow> a \<in> set (conns s) \<Longrightarrow>
      \<exists>s'. cls s a = Inr s' \<and> inv s' \<and> limit s' = limit s \<and> conns s' = removeAll a (conns s)"
begin

lemma run_bounded:
  assumes "inv s" "count s \<le> limit s" "conn_legal opn cls ok conns s ops"
  shows "\<exists>s'. conn_run opn cls s ops = Inr s' \<and> inv s' \<and> count s' = int (length (conns s')) \<and>
    limit s' = limit s \<and> count s' \<le> limit s'"
  using assms
proof (induction ops arbitrary: s)
  case Nil
  then show ?case by (simp add: counted)
next
  case (Cons x ops)
  show ?case
  proof (cases x)
    case (ConnOpen k)
    then obtain s' where s': "opn s k = Inr s'" "inv s'" "limit s' = limit s"
        "conns s' = conns s \<or> count s < limit s \<and> (\<exists>a. a \<notin> set (conns s) \<and> conns s' = conns s @ [a])"
      using open_law [of s k] Cons.prems by auto
    moreover have "count s' \<le> limit s'" using s' counted [of s] counted [of s'] Cons.prems by auto
    ultimately show ?thesis using Cons.IH [of s'] Cons.prems ConnOpen by auto
  next
    case (ConnClose a)
    then obtain s' where s': "cls s a = Inr s'" "inv s'" "limit s' = limit s" "conns s' = removeAll a (conns s)"
      using close_law [of s a] Cons.prems by auto
    moreover have "int (length (conns s')) \<le> int (length (conns s))" unfolding s'(4) by simp
    then have "count s' \<le> limit s'"
      using s' counted [OF s'(2)] counted [OF Cons.prems(1)] Cons.prems(2) by linarith
    ultimately show ?thesis using Cons.IH [of s'] Cons.prems ConnClose by auto
  qed
qed

end

section \<open>Changes of the kernel side only\<close>

definition kern_change :: "'z net_scheme \<Rightarrow> 'z net_scheme \<Rightarrow> bool" where
  "kern_change w w' \<longleftrightarrow> (\<exists>K. w' = w\<lparr>n_kern := K\<rparr> \<and> dom K = dom (n_kern w))"

lemma kern_change_refl: "kern_change w w"
  by (auto simp: kern_change_def intro!: exI [of _ "n_kern w"])

lemma kern_change_trans: "kern_change w w' \<Longrightarrow> kern_change w' w'' \<Longrightarrow> kern_change w w''"
  by (auto simp: kern_change_def)

lemma kern_change_upd: "n_kern w fd = Some s \<Longrightarrow> kern_change w (w\<lparr>n_kern := (n_kern w)(fd \<mapsto> s')\<rparr>)"
  unfolding kern_change_def by (rule exI [of _ "(n_kern w)(fd \<mapsto> s')"]) (simp add: insert_absorb domI)

lemma write_kern:
  "write_at w p blk n = Inr (r, w') \<Longrightarrow> kern_change w w'"
  "write_fd w fd blk n = Inr (r, w') \<Longrightarrow> kern_change w w'"
  by (auto simp: write_at_def write_fd_def bindR_Inr_iff intro: kern_change_refl kern_change_upd split: option.splits)

lemma write_managers_kern: "write_managers w ps blk n = Inr w' \<Longrightarrow> kern_change w w'"
  by (induction w ps blk n rule: write_managers.induct)
    (auto simp: bindR_Inr_iff intro: kern_change_refl dest: write_kern(1) kern_change_trans)

lemma write_targets_kern: "write_targets w fds blk n = Inr w' \<Longrightarrow> kern_change w w'"
  by (induction w fds blk n rule: write_targets.induct)
    (auto simp: bindR_Inr_iff intro: kern_change_refl dest: write_kern(2) kern_change_trans)

end
