(* ===== verification/Iomp.thy ===== *)
theory Iomp
  imports NetWorld
begin

text \<open>
  The multiplexers beside \<open>IOMP_EPoll\<close>: \<open>IOMP_Select\<close> (src/IOMP_Select.cpp), the only subclass of the
  abstract class \<open>IOMP\<close>, whose contract is the interface \<open>io_multiplexer\<close>; and \<open>IOMP_KQUEUE\<close>
  (src/IOMP_KQUEUE.cpp), the macOS build. An \<open>fd_set\<close> is an array of \<open>FD_SETSIZE\<close> bits, and the macros
  do not look at the bound.
\<close>

section \<open>IOMP_Select\<close>

definition FD_SETSIZE :: nat where "FD_SETSIZE = 1024"

type_synonym fd_set = "bool list"

definition FD_ZERO :: fd_set where "FD_ZERO = replicate FD_SETSIZE False"
definition FD_SET :: "int \<Rightarrow> fd_set \<Rightarrow> fd_set res" where "FD_SET fd s = mem_write s fd [True]"
definition FD_CLR :: "int \<Rightarrow> fd_set \<Rightarrow> fd_set res" where "FD_CLR fd s = mem_write s fd [False]"
definition FD_ISSET :: "int \<Rightarrow> fd_set \<Rightarrow> bool res" where
  "FD_ISSET fd s = bindR (mem_read s fd 1) (\<lambda>bs. Inr (hd bs))"

record IOMP_Select =
  m_iMaxFd :: int
  m_iSec :: int
  m_iMSec :: int
  m_stTimeout :: "(int \<times> int) option"
  m_Rfds :: fd_set
  m_Wfds :: fd_set
  m_Efds :: fd_set
  m_Allfds :: fd_set

definition IOMP_Select_new :: IOMP_Select where
  "IOMP_Select_new = \<lparr>m_iMaxFd = 1, m_iSec = 0, m_iMSec = 0, m_stTimeout = None,
     m_Rfds = FD_ZERO, m_Wfds = FD_ZERO, m_Efds = FD_ZERO, m_Allfds = FD_ZERO\<rparr>"

definition IOMP_Select_new_timeout :: "int \<Rightarrow> int \<Rightarrow> IOMP_Select" where
  "IOMP_Select_new_timeout sec usec =
     IOMP_Select_new\<lparr>m_iSec := sec, m_iMSec := usec, m_stTimeout := Some (sec, usec)\<rparr>"

definition SetTimeout :: "IOMP_Select \<Rightarrow> IOMP_Select" where
  "SetTimeout p =
     (case m_stTimeout p of None \<Rightarrow> p | Some _ \<Rightarrow> p\<lparr>m_stTimeout := Some (m_iSec p, m_iMSec p)\<rparr>)"

definition AddFd :: "IOMP_Select \<Rightarrow> int \<Rightarrow> IOMP_Select res" where
  "AddFd p fd = bindR (FD_SET fd (m_Rfds p)) (\<lambda>s.
     Inr (p\<lparr>m_Rfds := s, m_iMaxFd := max (m_iMaxFd p) (fd + 1)\<rparr>))"

definition AddWriteFd :: "IOMP_Select \<Rightarrow> int \<Rightarrow> IOMP_Select res" where
  "AddWriteFd p fd = bindR (FD_SET fd (m_Wfds p)) (\<lambda>s.
     Inr (p\<lparr>m_Wfds := s, m_iMaxFd := max (m_iMaxFd p) (fd + 1)\<rparr>))"

definition DelFd :: "IOMP_Select \<Rightarrow> int \<Rightarrow> IOMP_Select res" where
  "DelFd p fd = bindR (FD_CLR fd (m_Rfds p)) (\<lambda>s. Inr (p\<lparr>m_Rfds := s\<rparr>))"

definition DelWriteFd :: "IOMP_Select \<Rightarrow> int \<Rightarrow> IOMP_Select res" where
  "DelWriteFd p fd = bindR (FD_CLR fd (m_Wfds p)) (\<lambda>s. Inr (p\<lparr>m_Wfds := s\<rparr>))"

text \<open>\<open>select\<close> keeps the bits below \<open>nfds\<close> whose descriptor is ready and returns their number.\<close>

definition sys_select :: "int \<Rightarrow> fd_set \<Rightarrow> (int \<Rightarrow> bool) \<Rightarrow> int \<times> fd_set" where
  "sys_select nfds s ready =
     (let s' = map (\<lambda>i. s ! i \<and> int i < nfds \<and> ready (int i)) [0..<length s]
      in (int (length (filter id s')), s'))"

definition Polling :: "IOMP_Select \<Rightarrow> (int \<Rightarrow> bool) \<Rightarrow> int \<times> IOMP_Select" where
  "Polling p ready =
     (let p1 = SetTimeout p; (n, s) = sys_select (m_iMaxFd p1) (m_Rfds p1) ready
      in (n, p1\<lparr>m_Allfds := s\<rparr>))"

definition WritePolling :: "IOMP_Select \<Rightarrow> (int \<Rightarrow> bool) \<Rightarrow> int \<times> IOMP_Select" where
  "WritePolling p ready =
     (let p1 = SetTimeout p; (n, s) = sys_select (m_iMaxFd p1) (m_Wfds p1) ready
      in (n, p1\<lparr>m_Allfds := s\<rparr>))"

definition CheckEvent :: "IOMP_Select \<Rightarrow> int \<Rightarrow> bool res" where
  "CheckEvent p fd = FD_ISSET fd (m_Allfds p)"

section \<open>Interface: the abstract class IOMP\<close>

locale io_multiplexer =
  fixes inv :: "'s \<Rightarrow> bool"
    and watched :: "'s \<Rightarrow> int set"
    and legal :: "int \<Rightarrow> bool"
    and add :: "'s \<Rightarrow> int \<Rightarrow> 's res"
    and del :: "'s \<Rightarrow> int \<Rightarrow> 's res"
    and poll :: "'s \<Rightarrow> (int \<Rightarrow> bool) \<Rightarrow> int \<times> 's"
    and check :: "'s \<Rightarrow> int \<Rightarrow> bool res"
  assumes add_law: "inv s \<Longrightarrow> legal fd \<Longrightarrow>
      \<exists>s'. add s fd = Inr s' \<and> inv s' \<and> watched s' = insert fd (watched s)"
    and del_law: "inv s \<Longrightarrow> legal fd \<Longrightarrow>
      \<exists>s'. del s fd = Inr s' \<and> inv s' \<and> watched s' = watched s - {fd}"
    and poll_inv: "inv s \<Longrightarrow> inv (snd (poll s ready)) \<and> watched (snd (poll s ready)) = watched s"
    and poll_check: "inv s \<Longrightarrow> legal fd \<Longrightarrow>
      check (snd (poll s ready)) fd = Inr (fd \<in> watched s \<and> ready fd)"
    and poll_count: "inv s \<Longrightarrow> 0 < fst (poll s ready) \<longleftrightarrow> (\<exists>fd \<in> watched s. ready fd)"
begin

text \<open>The accept loop's use: after registering one descriptor, a positive count means it is ready.\<close>

lemma add_poll_single:
  assumes "inv s" "legal fd" "watched s = {}"
  shows "\<exists>s'. add s fd = Inr s' \<and> inv s' \<and>
    (0 < fst (poll s' ready) \<longleftrightarrow> ready fd) \<and> check (snd (poll s' ready)) fd = Inr (ready fd)"
proof -
  obtain s' where s': "add s fd = Inr s'" "inv s'" "watched s' = {fd}"
    using add_law [OF assms(1,2)] assms(3) by auto
  then show ?thesis using poll_count [of s'] poll_check [of s' fd] assms(2) by auto
qed

lemma add_del_gone:
  assumes "inv s" "legal fd"
  shows "\<exists>s1 s2. add s fd = Inr s1 \<and> del s1 fd = Inr s2 \<and> check (snd (poll s2 ready)) fd = Inr False"
proof -
  obtain s1 where s1: "add s fd = Inr s1" "inv s1" using add_law [OF assms] by blast
  obtain s2 where "del s1 fd = Inr s2" "inv s2" "watched s2 = watched s1 - {fd}"
    using del_law [OF s1(2) assms(2)] by blast
  then show ?thesis using s1 poll_check [of s2 fd ready] assms(2) by auto
qed

end

definition sel_inv :: "IOMP_Select \<Rightarrow> bool" where
  "sel_inv p \<longleftrightarrow> length (m_Rfds p) = FD_SETSIZE \<and> length (m_Allfds p) = FD_SETSIZE \<and>
     (\<forall>i < FD_SETSIZE. m_Rfds p ! i \<longrightarrow> int i < m_iMaxFd p)"

definition sel_watched :: "IOMP_Select \<Rightarrow> int set" where
  "sel_watched p = {fd. 0 \<le> fd \<and> fd < int FD_SETSIZE \<and> m_Rfds p ! nat fd}"

definition fd_legal :: "int \<Rightarrow> bool" where
  "fd_legal fd \<longleftrightarrow> 0 \<le> fd \<and> fd < int FD_SETSIZE"

declare sel_inv_def [wf_defs]

lemma FD_put: "fd_legal fd \<Longrightarrow> length s = FD_SETSIZE \<Longrightarrow>
    mem_write s fd [b] = Inr (s[nat fd := b])"
  by (simp add: mem_write_def fd_legal_def mem_put_def upd_conv_take_nth_drop nat_less_iff)

lemma FD_ISSET_legal: "fd_legal fd \<Longrightarrow> length s = FD_SETSIZE \<Longrightarrow> FD_ISSET fd s = Inr (s ! nat fd)"
  by (simp add: FD_ISSET_def mem_read_def fd_legal_def nat_less_iff hd_drop_conv_nth take_Suc)

lemma sys_select_nth: "i < length s \<Longrightarrow>
    snd (sys_select n s ready) ! i \<longleftrightarrow> s ! i \<and> int i < n \<and> ready (int i)"
  by (simp add: sys_select_def Let_def)

lemma sys_select_pos: "0 < fst (sys_select n s ready) \<longleftrightarrow>
    (\<exists>i < length s. s ! i \<and> int i < n \<and> ready (int i))"
  by (auto simp: sys_select_def Let_def filter_empty_conv)

interpretation select_poll: io_multiplexer sel_inv sel_watched fd_legal AddFd DelFd Polling CheckEvent
proof
  fix s :: IOMP_Select and fd assume s: "sel_inv s" "fd_legal fd"
  then show "\<exists>s'. AddFd s fd = Inr s' \<and> sel_inv s' \<and> sel_watched s' = insert fd (sel_watched s)"
    by (auto simp: AddFd_def FD_SET_def FD_put sel_inv_def sel_watched_def fd_legal_def nth_list_update
        less_max_iff_disj)
next
  fix s :: IOMP_Select and fd assume s: "sel_inv s" "fd_legal fd"
  then show "\<exists>s'. DelFd s fd = Inr s' \<and> sel_inv s' \<and> sel_watched s' = sel_watched s - {fd}"
    by (auto simp: DelFd_def FD_CLR_def FD_put sel_inv_def sel_watched_def fd_legal_def nth_list_update
        split: if_splits)
next
  fix s :: IOMP_Select and ready assume s: "sel_inv s"
  then show "sel_inv (snd (Polling s ready)) \<and> sel_watched (snd (Polling s ready)) = sel_watched s"
    by (auto simp: Polling_def SetTimeout_def sel_inv_def sel_watched_def sys_select_def Let_def
        split: option.splits)
next
  fix s :: IOMP_Select and fd ready assume s: "sel_inv s" "fd_legal fd"
  have fd: "0 \<le> fd" "fd < int FD_SETSIZE" and i: "nat fd < FD_SETSIZE" "int (nat fd) = fd"
    using s(2) by (auto simp: fd_legal_def)
  let ?sel = "snd (sys_select (m_iMaxFd s) (m_Rfds s) ready)"
  have "m_Allfds (snd (Polling s ready)) = ?sel"
    by (cases "sys_select (m_iMaxFd s) (m_Rfds s) ready"; cases "m_stTimeout s")
      (auto simp: Polling_def SetTimeout_def Let_def)
  moreover have "length ?sel = FD_SETSIZE"
    using s(1) by (simp add: sys_select_def Let_def sel_inv_def)
  moreover have "?sel ! nat fd \<longleftrightarrow> m_Rfds s ! nat fd \<and> fd < m_iMaxFd s \<and> ready fd"
    using sys_select_nth [of "nat fd" "m_Rfds s"] s(1) i by (simp add: sel_inv_def)
  moreover have "m_Rfds s ! nat fd \<longrightarrow> int (nat fd) < m_iMaxFd s"
    using s(1) i(1) unfolding sel_inv_def by blast
  ultimately show "CheckEvent (snd (Polling s ready)) fd = Inr (fd \<in> sel_watched s \<and> ready fd)"
    using s(2) i(2) by (auto simp: CheckEvent_def FD_ISSET_legal sel_watched_def fd)
next
  fix s :: IOMP_Select and ready assume s: "sel_inv s"
  have "fst (Polling s ready) = fst (sys_select (m_iMaxFd s) (m_Rfds s) ready)"
    by (cases "sys_select (m_iMaxFd s) (m_Rfds s) ready"; cases "m_stTimeout s")
      (auto simp: Polling_def SetTimeout_def Let_def)
  then have "0 < fst (Polling s ready) \<longleftrightarrow>
      (\<exists>i < FD_SETSIZE. m_Rfds s ! i \<and> int i < m_iMaxFd s \<and> ready (int i))"
    using s by (simp add: sys_select_pos sel_inv_def)
  also have "\<dots> \<longleftrightarrow> (\<exists>fd \<in> sel_watched s. ready fd)"
  proof
    assume "\<exists>i < FD_SETSIZE. m_Rfds s ! i \<and> int i < m_iMaxFd s \<and> ready (int i)"
    then obtain i where "i < FD_SETSIZE" "m_Rfds s ! i" "ready (int i)" by blast
    then show "\<exists>fd \<in> sel_watched s. ready fd"
      by (intro bexI [of _ "int i"]) (simp_all add: sel_watched_def)
  next
    assume "\<exists>fd \<in> sel_watched s. ready fd"
    then obtain fd where fd: "0 \<le> fd" "nat fd < FD_SETSIZE" "m_Rfds s ! nat fd" "ready fd"
      by (auto simp: sel_watched_def nat_less_iff)
    moreover have "int (nat fd) < m_iMaxFd s" using fd s unfolding sel_inv_def by blast
    ultimately show "\<exists>i < FD_SETSIZE. m_Rfds s ! i \<and> int i < m_iMaxFd s \<and> ready (int i)"
      by (intro exI [of _ "nat fd"]) simp
  qed
  finally show "0 < fst (Polling s ready) \<longleftrightarrow> (\<exists>fd \<in> sel_watched s. ready fd)" .
qed

lemma IOMP_Select_new_inv: "sel_inv (IOMP_Select_new_timeout sec usec)"
  and IOMP_Select_new_watched: "sel_watched (IOMP_Select_new_timeout sec usec) = {}"
  by (auto simp: sel_inv_def sel_watched_def IOMP_Select_new_timeout_def IOMP_Select_new_def FD_ZERO_def
      nat_less_iff)

section \<open>IOMP_KQUEUE\<close>

text \<open>The kernel's table, keyed by descriptor and filter. \<open>accepted\<close> is whether \<open>kevent\<close> takes the
  change; it returns 0 or -1, and the code tests for less than -1.\<close>

record IOMP_KQUEUE =
  kq_table :: "int \<times> int \<rightharpoonup> 16 word \<times> nat"
  kq_timeout :: "64 word"

definition kevent_change :: "bool \<Rightarrow> int" where
  "kevent_change accepted = (if accepted then 0 else -1)"

definition IOMP_KQUEUE_AddClient :: "bool \<Rightarrow> IOMP_KQUEUE \<Rightarrow> nat \<Rightarrow> int \<Rightarrow> int \<Rightarrow> 16 word \<Rightarrow>
    int \<times> IOMP_KQUEUE" where
  "IOMP_KQUEUE_AddClient accepted k cp fd filt flags =
     (let r = kevent_change accepted;
          k' = (if accepted then k\<lparr>kq_table := (kq_table k)((fd, filt) \<mapsto> (flags, cp))\<rparr> else k)
      in if r < -1 then (-1, k') else (0, k'))"

definition IOMP_KQUEUE_ModifyFd :: "IOMP_KQUEUE \<Rightarrow> int \<times> IOMP_KQUEUE" where
  "IOMP_KQUEUE_ModifyFd k = (0, k)"

definition IOMP_KQUEUE_DelFd :: "bool \<Rightarrow> IOMP_KQUEUE \<Rightarrow> int \<Rightarrow> int \<Rightarrow> int \<times> IOMP_KQUEUE" where
  "IOMP_KQUEUE_DelFd accepted k fd filt =
     (let r = kevent_change accepted;
          k' = (if accepted then k\<lparr>kq_table := (kq_table k)((fd, filt) := None)\<rparr> else k)
      in if r < -1 then (-1, k') else (0, k'))"

definition IOMP_KQUEUE_DelClient :: "bool \<Rightarrow> IOMP_KQUEUE \<Rightarrow> int \<Rightarrow> int \<Rightarrow> int \<times> IOMP_KQUEUE" where
  "IOMP_KQUEUE_DelClient accepted k fd filt = IOMP_KQUEUE_DelFd accepted k fd filt"

definition IOMP_KQUEUE_Polling :: "IOMP_KQUEUE \<Rightarrow> (int \<times> int) option" where
  \<comment> \<open>the timeout handed to \<open>kevent\<close>, seconds and nanoseconds; \<open>None\<close> is no timeout\<close>
  "IOMP_KQUEUE_Polling k = (if kq_timeout k = -1 then None else Some (0, uint (kq_timeout k)))"

section \<open>Properties\<close>

text \<open>The accept thread's use of \<open>IOMP_Select\<close> is right: after \<open>AddFd\<close> of one descriptor below
  \<open>FD_SETSIZE\<close>, \<open>Polling\<close> is positive and \<open>CheckEvent\<close> true exactly when that descriptor is ready.\<close>

theorem select_single_fd:
  assumes "0 \<le> fd" "fd < 1024"
  shows "\<exists>p. AddFd (IOMP_Select_new_timeout sec usec) fd = Inr p \<and>
     (0 < fst (Polling p ready) \<longleftrightarrow> ready fd) \<and> CheckEvent (snd (Polling p ready)) fd = Inr (ready fd)"
proof -
  have "fd_legal fd" using assms by (simp add: fd_legal_def FD_SETSIZE_def)
  from select_poll.add_poll_single [OF IOMP_Select_new_inv this IOMP_Select_new_watched]
  show ?thesis by blast
qed

theorem select_single_fd_witness:
  "\<exists>p. AddFd (IOMP_Select_new_timeout 0 1000) 7 = Inr p \<and> 0 < fst (Polling p (\<lambda>fd. fd = 7))"
  using select_single_fd [of 7 0 1000 "\<lambda>fd. fd = 7"] by auto

text \<open>A descriptor of 1024 or more is written outside the \<open>fd_set\<close>: \<open>AddFd\<close> has no bound check,
  while the servers are built for 20000 descriptors.\<close>

theorem select_AddFd_bound:
  assumes "sel_inv p"
  shows "AddFd p fd = Inl OutOfBounds \<longleftrightarrow> fd < 0 \<or> 1024 \<le> fd"
  using assms by (auto simp: AddFd_def FD_SET_def mem_write_def bindR_Inl_iff sel_inv_def FD_SETSIZE_def)

theorem select_AddFd_bound_witness:
  "AddFd (IOMP_Select_new_timeout 0 1000) 1024 = Inl OutOfBounds"
  using select_AddFd_bound [OF IOMP_Select_new_inv, of 0 1000 1024] by simp

text \<open>\<open>IOMP_KQUEUE::AddClient\<close> and \<open>DelFd\<close> never report an error: \<open>kevent\<close> fails with -1 and the
  code tests for less than -1, so a refused registration returns 0 and the client is never polled.\<close>

theorem kqueue_errors_ignored:
  "IOMP_KQUEUE_AddClient False k cp fd filt flags = (0, k) \<and>
   IOMP_KQUEUE_DelFd False k fd filt = (0, k)"
  by (simp add: IOMP_KQUEUE_AddClient_def IOMP_KQUEUE_DelFd_def kevent_change_def)

end
