(* ===== verification/ChatServerProc.thy ===== *)
theory ChatServerProc
  imports ClientObj NetWorld RingQueue
begin

text \<open>
  \<open>ChatServer\<close> (src/ChatServer.cpp): the child process that serves the users. Its state extends the
  heap of sockets and the kernel's descriptors (\<open>NetWorld\<close>) with the members of the class; client
  objects live in \<open>cs_clients\<close> under their pointer. Every handler is a function of the whole state;
  a dereference of NULL or of a deleted object is a fault of the handler.
\<close>

section \<open>State\<close>

record ChatServer = net +
  m_iConnCount :: int
  m_iMaxUser :: int
  m_uniqId :: "64 word"
  m_lstClient :: "nat list"
  m_lstChatManagerSocket :: "nat option list"
  m_pReceiveQueue :: "nat cqueue"
  m_pSendQueue :: "nat cqueue"
  m_pBroadcastQueue :: "BroadcastMessage cqueue"
  cs_clients :: "nat \<rightharpoonup> ChatUser"
  cs_next :: nat

definition TIME_ALIVE :: int where "TIME_ALIVE = 300 * 1000000"

definition ChatServer_new :: "(nat \<Rightarrow> BroadcastMessage) \<Rightarrow> net \<Rightarrow> ChatServer" where
  "ChatServer_new junk w = net.extend w
     \<lparr>m_iConnCount = 0, m_iMaxUser = 0, m_uniqId = 0, m_lstClient = [], m_lstChatManagerSocket = [],
      m_pReceiveQueue = CircularQueue_new (\<lambda>_. 0), m_pSendQueue = CircularQueue_new (\<lambda>_. 0),
      m_pBroadcastQueue = CircularQueue_new junk, cs_clients = Map.empty, cs_next = 0\<rparr>"

definition GetUniqId :: "ChatServer \<Rightarrow> 64 word" where "GetUniqId w = m_uniqId w"
definition GetCurrentUserCount :: "ChatServer \<Rightarrow> int" where "GetCurrentUserCount w = m_iConnCount w"
definition GetMaxUser :: "ChatServer \<Rightarrow> int" where "GetMaxUser w = m_iMaxUser w"
definition SetMaxUser :: "ChatServer \<Rightarrow> int \<Rightarrow> ChatServer" where
  "SetMaxUser w n = w\<lparr>m_iMaxUser := n\<rparr>"

definition cs_client :: "ChatServer \<Rightarrow> nat \<Rightarrow> ChatUser res" where
  "cs_client w a = (case cs_clients w a of None \<Rightarrow> Inl UseAfterFree | Some c \<Rightarrow> Inr c)"

lemma cs_client_simps [simp]:
  "cs_clients w a = None \<Longrightarrow> cs_client w a = Inl UseAfterFree"
  "cs_clients w a = Some c \<Longrightarrow> cs_client w a = Inr c"
  by (simp_all add: cs_client_def)

section \<open>Queues\<close>

text \<open>\<open>EnQueue\<close> and \<open>DeQueue\<close> as one thread sees them: a wait that nobody ends is \<open>Blocks\<close>.\<close>

definition queue_put :: "'a cqueue \<Rightarrow> 'a \<Rightarrow> 'a cqueue res" where
  "queue_put q x = (case CircularQueue_EnQueue q x of None \<Rightarrow> Inl Blocks | Some q' \<Rightarrow> Inr q')"
definition queue_get :: "'a cqueue \<Rightarrow> ('a \<times> 'a cqueue) res" where
  "queue_get q = (case CircularQueue_DeQueue q of None \<Rightarrow> Inl Blocks | Some r \<Rightarrow> Inr r)"

definition PutReceiveQueue :: "ChatServer \<Rightarrow> nat \<Rightarrow> ChatServer res" where
  "PutReceiveQueue w a = bindR (queue_put (m_pReceiveQueue w) a) (\<lambda>q. Inr (w\<lparr>m_pReceiveQueue := q\<rparr>))"
definition GetReceiveQueue :: "ChatServer \<Rightarrow> (nat \<times> ChatServer) res" where
  "GetReceiveQueue w = bindR (queue_get (m_pReceiveQueue w)) (\<lambda>(a, q). Inr (a, w\<lparr>m_pReceiveQueue := q\<rparr>))"
definition PutSendQueue :: "ChatServer \<Rightarrow> nat \<Rightarrow> ChatServer res" where
  "PutSendQueue w a = bindR (queue_put (m_pSendQueue w) a) (\<lambda>q. Inr (w\<lparr>m_pSendQueue := q\<rparr>))"
definition GetSendQueue :: "ChatServer \<Rightarrow> (nat \<times> ChatServer) res" where
  "GetSendQueue w = bindR (queue_get (m_pSendQueue w)) (\<lambda>(a, q). Inr (a, w\<lparr>m_pSendQueue := q\<rparr>))"
definition PutBroadcastQueue :: "ChatServer \<Rightarrow> BroadcastMessage \<Rightarrow> ChatServer res" where
  "PutBroadcastQueue w bm =
     bindR (queue_put (m_pBroadcastQueue w) bm) (\<lambda>q. Inr (w\<lparr>m_pBroadcastQueue := q\<rparr>))"
definition GetBroadcastQueue :: "ChatServer \<Rightarrow> (BroadcastMessage \<times> ChatServer) res" where
  "GetBroadcastQueue w =
     bindR (queue_get (m_pBroadcastQueue w)) (\<lambda>(bm, q). Inr (bm, w\<lparr>m_pBroadcastQueue := q\<rparr>))"

section \<open>Connections\<close>

definition delete_client :: "ChatServer \<Rightarrow> nat \<Rightarrow> ChatServer res" where
  \<comment> \<open>\<open>delete pClient\<close>: \<open>~Client\<close> deletes the socket, which closes the descriptor\<close>
  "delete_client w a =
     bindR (cs_client w a) (\<lambda>c.
     bindR (delete_socket w (Client_GetSocket c)) (\<lambda>w'.
       Inr (w'\<lparr>cs_clients := (cs_clients w')(a := None)\<rparr>)))"

definition CloseClient :: "ChatServer \<Rightarrow> nat \<Rightarrow> ChatServer res" where
  "CloseClient w a =
     bindR (cs_client w a) (\<lambda>c.
     bindR (IOMP_EPoll_DelClient w (Client_GetSocket c)) (\<lambda>(_, w1).
     bindR (delete_client (w1\<lparr>m_lstClient := removeAll a (m_lstClient w1)\<rparr>) a) (\<lambda>w2.
       Inr (w2\<lparr>m_iConnCount := m_iConnCount w2 - 1\<rparr>))))"

fun epoll_flags :: "build \<Rightarrow> 32 word" where
  "epoll_flags BuildLT = EPOLLIN"
| "epoll_flags BuildET = or EPOLLIN EPOLLET"
| "epoll_flags BuildOneshot = or (or EPOLLIN EPOLLET) EPOLLONESHOT"

definition AcceptClient :: "build \<Rightarrow> (nat \<Rightarrow> byte) \<Rightarrow> int \<Rightarrow> ChatServer \<Rightarrow> nat option \<Rightarrow> ENUM_CLIENT_TYPE \<Rightarrow>
    ChatServer res" where
  "AcceptClient bd junk now w sockp type =
     (let a = cs_next w;
          c = SetMainProcess (Client_SetType (ChatUser_new junk now sockp) type) ProcChatServer;
          w1 = w\<lparr>m_iConnCount := m_iConnCount w + 1, cs_next := Suc a,
                 cs_clients := (cs_clients w)(a \<mapsto> c), m_lstClient := m_lstClient w @ [a]\<rparr>
      in bindR (sock_fd w1 (Client_GetSocket c)) (\<lambda>_.
         bindR (IOMP_EPoll_AddClient w1 a (Client_GetSocket c) (epoll_flags bd)) (\<lambda>(r, w2).
           if r < 0 then CloseClient w2 a else Inr w2)))"

definition UpdateEPoll :: "ChatServer \<Rightarrow> nat \<Rightarrow> 32 word \<Rightarrow> ChatServer res" where
  "UpdateEPoll w a events =
     bindR (cs_client w a) (\<lambda>c.
     bindR (IOMP_EPoll_ModifyFd w a (Client_GetSocket c) events) (\<lambda>(_, w'). Inr w'))"
definition AddEPoll :: "ChatServer \<Rightarrow> nat \<Rightarrow> 32 word \<Rightarrow> ChatServer res" where
  "AddEPoll w a events =
     bindR (cs_client w a) (\<lambda>c.
     bindR (IOMP_EPoll_AddClient w a (Client_GetSocket c) events) (\<lambda>(_, w'). Inr w'))"

text \<open>\<open>HealthCheckUsers\<close>: the loop variable is the part of the list from \<open>iter\<close> on; \<open>iter++\<close> on
  \<open>end()\<close> is a fault.\<close>

fun health_scan :: "int \<Rightarrow> ChatServer \<Rightarrow> nat list \<Rightarrow> ChatServer res" where
  "health_scan now w [] = Inr w"
| "health_scan now w (a # as) =
     bindR (cs_client w a) (\<lambda>c.
       if now - GetAccessTime c > TIME_ALIVE then
         bindR (IOMP_EPoll_DelClient w (Client_GetSocket c)) (\<lambda>(_, w1).
         bindR (delete_client (w1\<lparr>m_lstClient := remove1 a (m_lstClient w1)\<rparr>) a) (\<lambda>w2.
         let w3 = w2\<lparr>m_iConnCount := m_iConnCount w2 - 1\<rparr> in
           case as of [] \<Rightarrow> Inl BadIterator | b # bs \<Rightarrow> health_scan now w3 bs))
       else health_scan now w as)"

definition HealthCheckUsers :: "int \<Rightarrow> ChatServer \<Rightarrow> ChatServer res" where
  "HealthCheckUsers now w = health_scan now w (m_lstClient w)"

section \<open>Managers\<close>

text \<open>What the environment decides about one connection attempt: the new descriptor and its kernel
  side, whether \<open>connect\<close> succeeds, and the bytes \<open>Recv\<close> stores (\<open>None\<close> for a negative result).\<close>

record mgr_env =
  me_fd :: int
  me_sock :: Socket
  me_connected :: bool
  me_reply :: "byte list option"

definition socket_new :: "ChatServer \<Rightarrow> int \<Rightarrow> Socket \<Rightarrow> nat \<times> ChatServer" where
  \<comment> \<open>\<open>new ClientSocket()\<close>\<close>
  "socket_new w fd s =
     (let p = cs_next w in (p, w\<lparr>cs_next := Suc p, n_socks := (n_socks w)(p \<mapsto> fd),
                              n_kern := (n_kern w)(fd \<mapsto> s\<lparr>m_iFd := fd\<rparr>)\<rparr>))"

definition hello_packet :: "64 word \<Rightarrow> T_PACKET" where
  "hello_packet uid =
     \<lparr>pkt_header = \<lparr>hdr_command = cmd_HELLO_DS_DSM, hdr_length = 8\<rparr>,
      pkt_data = mem_put (pkt_data T_PACKET_zero) 0
        (Tcmd_HELLO_DS_DSM_bytes \<lparr>hello_uniqId = uid\<rparr>)\<rparr>"

definition NegotiationWithManager :: "int \<Rightarrow> int \<Rightarrow> mgr_env \<Rightarrow> ChatServer \<Rightarrow>
    (nat option \<times> ChatServer) res" where
  \<comment> \<open>\<open>now\<close> is \<open>GetUnixTime()\<close>, \<open>pid\<close> is \<open>getpid()\<close>\<close>
  "NegotiationWithManager now pid e w =
     (let w1 = w\<lparr>m_uniqId := word_of_int (now + pid)\<rparr>;
          (p, w2) = socket_new w1 (me_fd e) (me_sock e);
          fail = (\<lambda>w'. bindR (delete_socket w' (Some p)) (\<lambda>w''. Inr (None, w'')))
      in if \<not> me_connected e then fail w2
         else bindR (write_at w2 (Some p) (T_PACKET_bytes (hello_packet (GetUniqId w2))) (4 + 8)) (\<lambda>(r, w3).
           if r < 0 then fail w3
           else case me_reply e of None \<Rightarrow> fail w3
             | Some bs \<Rightarrow>
                 let blk = mem_put (T_PACKET_bytes T_PACKET_zero) 0 (take (4 + 20) bs);
                     body = Tcmd_HELLO_DSM_DS_of (pkt_data (T_PACKET_of blk));
                     w4 = SetMaxUser w3 (sint (ack_iMaxUser body));
                     w5 = (case n_kern w4 (me_fd e) of None \<Rightarrow> w4
                           | Some s \<Rightarrow> w4\<lparr>n_kern := (n_kern w4)(me_fd e \<mapsto> s\<lparr>so_flags := O_NDELAY\<rparr>)\<rparr>)
                 in Inr (Some p, w5)))"

fun ConnectToMgr :: "(nat \<Rightarrow> int) \<Rightarrow> int \<Rightarrow> mgr_env list \<Rightarrow> ChatServer \<Rightarrow> ChatServer res" where
  \<comment> \<open>\<open>now i\<close> is the clock when \<open>i\<close> managers are left; one environment per configured address\<close>
  "ConnectToMgr now pid [] w = Inr w"
| "ConnectToMgr now pid (e # es) w =
     bindR (NegotiationWithManager (now (length es)) pid e w) (\<lambda>(p, w1).
       ConnectToMgr now pid es (w1\<lparr>m_lstChatManagerSocket := m_lstChatManagerSocket w1 @ [p]\<rparr>))"

fun register_managers :: "build \<Rightarrow> (nat \<Rightarrow> byte) \<Rightarrow> int \<Rightarrow> ChatServer \<Rightarrow> nat option list \<Rightarrow> ChatServer res" where
  "register_managers bd junk now w [] = Inr w"
| "register_managers bd junk now w (p # ps) =
     bindR (AcceptClient bd junk now w p CLIENT_CHAT_MANAGER) (\<lambda>w'. register_managers bd junk now w' ps)"

definition RegisterManager :: "build \<Rightarrow> (nat \<Rightarrow> byte) \<Rightarrow> int \<Rightarrow> ChatServer \<Rightarrow> ChatServer res" where
  "RegisterManager bd junk now w = register_managers bd junk now w (m_lstChatManagerSocket w)"

section \<open>Broadcast\<close>

definition relay_packet :: "64 word \<Rightarrow> BroadcastMessage \<Rightarrow> T_PACKET res" where
  \<comment> \<open>\<open>tSendPacket\<close> of \<open>MessageBroadcastToManagers\<close>\<close>
  "relay_packet uid bm =
     (let hdr = \<lparr>hdr_command = cmd_CHAT_BROADCAST, hdr_length = word_of_int (GetMessageSize bm + 8)\<rparr>;
          d1 = mem_put (pkt_data T_PACKET_zero) 0 (le_bytes 8 uid)
      in bindR (memcpy d1 8 (GetMessage bm) 0 (GetMessageSize bm)) (\<lambda>d2.
           Inr \<lparr>pkt_header = hdr, pkt_data = d2\<rparr>))"

definition MessageBroadcastToManagers :: "ChatServer \<Rightarrow> BroadcastMessage \<Rightarrow> ChatServer res" where
  "MessageBroadcastToManagers w bm =
     bindR (relay_packet (GetUniqId w) bm) (\<lambda>p.
       write_managers w (m_lstChatManagerSocket w) (T_PACKET_bytes p)
         (4 + uint (hdr_length (pkt_header p))))"

fun broadcast_targets :: "ChatServer \<Rightarrow> int \<Rightarrow> nat list \<Rightarrow> int list res" where
  "broadcast_targets w fd [] = Inr []"
| "broadcast_targets w fd (a # as) =
     bindR (cs_client w a) (\<lambda>c.
     bindR (if Client_GetType c = CLIENT_USER
            then bindR (sock_fd w (Client_GetSocket c)) (\<lambda>fd'. Inr (if fd' \<noteq> fd then [fd'] else []))
            else Inr []) (\<lambda>hd.
     bindR (broadcast_targets w fd as) (\<lambda>tl. Inr (hd @ tl))))"

definition GetBroadcastTargets :: "ChatServer \<Rightarrow> BroadcastMessage \<Rightarrow> int list res" where
  "GetBroadcastTargets w bm = broadcast_targets w (msg_GetSocketFd bm) (m_lstClient w)"

definition MessageBroadcast :: "ChatServer \<Rightarrow> BroadcastMessage \<Rightarrow> ChatServer res" where
  "MessageBroadcast w bm =
     bindR (if GetMessageType bm \<noteq> RELAYED_MESSAGE then MessageBroadcastToManagers w bm else Inr w) (\<lambda>w1.
     bindR (GetBroadcastTargets w1 bm) (\<lambda>lstSocket.
       write_targets w1 lstSocket (GetMessage bm) (GetMessageSize bm)))"

section \<open>Events and accepting\<close>

text \<open>One polled event of \<open>Run\<close> for a client that is not a server socket (none of those is ever
  registered with this process's epoll handle).\<close>

definition ChatServer_event :: "build \<Rightarrow> int \<Rightarrow> ChatServer \<Rightarrow> 32 word \<Rightarrow> nat \<Rightarrow> ChatServer res" where
  "ChatServer_event bd now w events a =
     bindR (cs_client w a) (\<lambda>c.
       if and events (or EPOLLERR EPOLLHUP) \<noteq> 0 then CloseClient w a
       else if and events EPOLLIN \<noteq> 0 then
         bindR (if bd \<noteq> BuildOneshot
                then bindR (IOMP_EPoll_DelClient w (Client_GetSocket c)) (\<lambda>(_, w'). Inr w')
                else Inr w) (\<lambda>w1.
           PutReceiveQueue (w1\<lparr>cs_clients := (cs_clients w1)(a \<mapsto> SetAccessTime c now)\<rparr>) a)
       else if bd = BuildLT \<and> and events EPOLLOUT \<noteq> 0 \<and> GetSendPacketCount c > 0 then
         bindR (IOMP_EPoll_DelClient w (Client_GetSocket c)) (\<lambda>(_, w1).
           PutSendQueue (w1\<lparr>cs_clients := (cs_clients w1)(a \<mapsto> SetAccessTime c now)\<rparr>) a)
       else Inr w)"

text \<open>One round of \<open>ThreadAcceptor::Run\<close> after a positive poll: \<open>kern\<close> is what \<open>accept\<close> gave.\<close>

definition accept_round :: "build \<Rightarrow> (nat \<Rightarrow> byte) \<Rightarrow> int \<Rightarrow> ChatServer \<Rightarrow> (int \<times> Socket) option \<Rightarrow>
    ChatServer res" where
  "accept_round bd junk now w kern =
     (case kern of None \<Rightarrow> Inr w
      | Some (fd, s) \<Rightarrow>
          let (p, w1) = socket_new w fd s in
          if GetCurrentUserCount w1 \<ge> GetMaxUser w1 then delete_socket w1 (Some p)
          else
            let w2 = (case n_kern w1 fd of None \<Rightarrow> w1
                      | Some s' \<Rightarrow> w1\<lparr>n_kern := (n_kern w1)(fd \<mapsto> s'\<lparr>so_flags := O_NDELAY\<rparr>)\<rparr>)
            in AcceptClient bd junk now w2 (Some p) CLIENT_USER)"

section \<open>Invariant\<close>

text \<open>Every listed client is alive and has a socket of its own with an open descriptor of its own; the
  counter is the length of the list; fresh pointers are fresh.\<close>

definition client_fd :: "ChatServer \<Rightarrow> nat \<Rightarrow> int option" where
  "client_fd w a =
     Option.bind (cs_clients w a) (\<lambda>c. Option.bind (m_cSocket c) (n_socks w))"

definition sock_live :: "'z net_scheme \<Rightarrow> nat \<Rightarrow> bool" where
  "sock_live w p \<longleftrightarrow> (case n_socks w p of None \<Rightarrow> False | Some fd \<Rightarrow> 0 < fd \<and> n_kern w fd \<noteq> None)"

definition cs_wf :: "ChatServer \<Rightarrow> bool" where
  "cs_wf w \<longleftrightarrow>
     distinct (m_lstClient w) \<and> set (m_lstClient w) = dom (cs_clients w) \<and>
     m_iConnCount w = int (length (m_lstClient w)) \<and>
     (\<forall>a c. cs_clients w a = Some c \<longrightarrow> (\<exists>p. m_cSocket c = Some p \<and> sock_live w p)) \<and>
     (\<forall>a b c d. cs_clients w a = Some c \<longrightarrow> cs_clients w b = Some d \<longrightarrow> m_cSocket c = m_cSocket d \<longrightarrow> a = b) \<and>
     (\<forall>p q fd. n_socks w p = Some fd \<longrightarrow> n_socks w q = Some fd \<longrightarrow> p = q) \<and>
     (\<forall>a \<in> dom (cs_clients w). a < cs_next w) \<and> (\<forall>p \<in> dom (n_socks w). p < cs_next w)"

declare cs_wf_def [wf_defs]

lemma cs_wfI:
  assumes "distinct (m_lstClient w)" "set (m_lstClient w) = dom (cs_clients w)"
    and "m_iConnCount w = int (length (m_lstClient w))"
    and "\<And>a c. cs_clients w a = Some c \<Longrightarrow> \<exists>p. m_cSocket c = Some p \<and> sock_live w p"
    and "\<And>a b c d. cs_clients w a = Some c \<Longrightarrow> cs_clients w b = Some d \<Longrightarrow> m_cSocket c = m_cSocket d \<Longrightarrow> a = b"
    and "\<And>p q fd. n_socks w p = Some fd \<Longrightarrow> n_socks w q = Some fd \<Longrightarrow> p = q"
    and "\<And>a c. cs_clients w a = Some c \<Longrightarrow> a < cs_next w" "\<And>p fd. n_socks w p = Some fd \<Longrightarrow> p < cs_next w"
  shows "cs_wf w"
  using assms unfolding cs_wf_def by blast

lemma cs_wf_below:
  "cs_wf w \<Longrightarrow> cs_clients w a = Some c \<Longrightarrow> a < cs_next w"
  "cs_wf w \<Longrightarrow> n_socks w p = Some fd \<Longrightarrow> p < cs_next w"
  unfolding cs_wf_def by blast+

lemma cs_wf_list:
  "cs_wf w \<Longrightarrow> distinct (m_lstClient w)" "cs_wf w \<Longrightarrow> set (m_lstClient w) = dom (cs_clients w)"
  "cs_wf w \<Longrightarrow> m_iConnCount w = int (length (m_lstClient w))"
  unfolding cs_wf_def by blast+

lemma cs_wf_live: "cs_wf w \<Longrightarrow> cs_clients w a = Some c \<Longrightarrow> \<exists>p. m_cSocket c = Some p \<and> sock_live w p"
  unfolding cs_wf_def by blast

lemma cs_wf_client:
  assumes "cs_wf w" "cs_clients w a = Some c"
  obtains p fd s where "m_cSocket c = Some p" "n_socks w p = Some fd" "0 < fd" "n_kern w fd = Some s"
proof -
  from assms obtain p where p: "m_cSocket c = Some p" "sock_live w p" unfolding cs_wf_def by blast
  from p(2) obtain fd s where "n_socks w p = Some fd" "0 < fd" "n_kern w fd = Some s"
    by (auto simp: sock_live_def split: option.splits)
  with p(1) that show thesis by blast
qed

lemma cs_wf_listed: "cs_wf w \<Longrightarrow> a \<in> set (m_lstClient w) \<longleftrightarrow> (\<exists>c. cs_clients w a = Some c)"
  by (auto simp: cs_wf_def)

lemma cs_wf_fd_inj: "cs_wf w \<Longrightarrow> n_socks w p = Some fd \<Longrightarrow> n_socks w q = Some fd \<Longrightarrow> p = q"
  unfolding cs_wf_def by blast

lemma cs_wf_sock_inj:
  "cs_wf w \<Longrightarrow> cs_clients w a = Some c \<Longrightarrow> cs_clients w b = Some d \<Longrightarrow> m_cSocket c = m_cSocket d \<Longrightarrow> a = b"
  unfolding cs_wf_def by blast

lemma cs_wf_next: "cs_wf w \<Longrightarrow> cs_clients w (cs_next w) = None" "cs_wf w \<Longrightarrow> n_socks w (cs_next w) = None"
  unfolding cs_wf_def by (metis domI less_irrefl not_None_eq)+

text \<open>The state after a client has been closed.\<close>

definition closed :: "ChatServer \<Rightarrow> nat \<Rightarrow> nat \<Rightarrow> int \<Rightarrow> ChatServer" where
  "closed w a p fd =
     w\<lparr>n_socks := (n_socks w)(p := None), n_kern := (n_kern w)(fd := None),
       n_epoll := (n_epoll w)(fd := None), m_lstClient := removeAll a (m_lstClient w),
       cs_clients := (cs_clients w)(a := None), m_iConnCount := m_iConnCount w - 1\<rparr>"

lemma closed_sel [simp]:
  "n_socks (closed w a p fd) = (n_socks w)(p := None)" "n_kern (closed w a p fd) = (n_kern w)(fd := None)"
  "m_lstClient (closed w a p fd) = removeAll a (m_lstClient w)"
  "cs_clients (closed w a p fd) = (cs_clients w)(a := None)"
  "m_iConnCount (closed w a p fd) = m_iConnCount w - 1" "cs_next (closed w a p fd) = cs_next w"
  "m_lstChatManagerSocket (closed w a p fd) = m_lstChatManagerSocket w" "m_iMaxUser (closed w a p fd) = m_iMaxUser w"
  "m_uniqId (closed w a p fd) = m_uniqId w"
  by (simp_all add: closed_def)

lemma CloseClient_eq:
  assumes "cs_clients w a = Some c" "m_cSocket c = Some p" "n_socks w p = Some fd"
  shows "CloseClient w a = Inr (closed w a p fd)"
proof (cases "n_epoll w fd")
  case None
  then have "(n_epoll w)(fd := None) = n_epoll w" by (simp add: fun_upd_idem)
  then show ?thesis
    using assms None
    by (simp add: CloseClient_def delete_client_def delete_socket_def IOMP_EPoll_DelClient_def
        IOMP_EPoll_DelFd_def Client_GetSocket_def closed_def)
next
  case (Some e)
  then show ?thesis
    using assms
    by (simp add: CloseClient_def delete_client_def delete_socket_def IOMP_EPoll_DelClient_def
        IOMP_EPoll_DelFd_def Client_GetSocket_def closed_def)
qed

lemma closed_length:
  assumes "cs_wf w" "cs_clients w a = Some c"
  shows "int (length (removeAll a (m_lstClient w))) = int (length (m_lstClient w)) - 1"
proof -
  have d: "distinct (m_lstClient w)" "a \<in> set (m_lstClient w)"
    using assms by (auto simp: cs_wf_listed) (simp add: cs_wf_def)
  then have "length (remove1 a (m_lstClient w)) = length (m_lstClient w) - 1" by (simp add: length_remove1)
  moreover have "0 < length (m_lstClient w)" using d(2) by (cases "m_lstClient w") auto
  moreover have "remove1 a (m_lstClient w) = removeAll a (m_lstClient w)"
    using d(1) by (rule distinct_remove1_removeAll)
  ultimately show ?thesis by (simp add: of_nat_diff Suc_leI)
qed

lemma closed_wf:
  assumes wf: "cs_wf w" and a: "cs_clients w a = Some c" "m_cSocket c = Some p" "n_socks w p = Some fd"
  shows "cs_wf (closed w a p fd)"
proof -
  let ?w = "closed w a p fd"
  have live: "\<exists>q. m_cSocket d = Some q \<and> sock_live ?w q" if d: "cs_clients ?w b = Some d" for b d
  proof -
    have b: "cs_clients w b = Some d" "b \<noteq> a" using d by (auto split: if_splits)
    obtain q fd' s where q: "m_cSocket d = Some q" "n_socks w q = Some fd'" "0 < fd'" "n_kern w fd' = Some s"
      by (rule cs_wf_client [OF wf b(1)])
    have "q \<noteq> p" using cs_wf_sock_inj [OF wf b(1) a(1)] q(1) a(2) b(2) by auto
    moreover from this have "fd' \<noteq> fd" using cs_wf_fd_inj [OF wf q(2)] a(3) by auto
    ultimately show ?thesis using q by (auto simp: sock_live_def)
  qed
  have "m_iConnCount ?w = int (length (m_lstClient ?w))"
    using closed_length [OF wf a(1)] wf by (simp add: cs_wf_def)
  moreover have "set (m_lstClient ?w) = dom (cs_clients ?w)" "distinct (m_lstClient ?w)"
    using wf by (auto simp: cs_wf_def distinct_removeAll)
  moreover have "\<forall>x \<in> dom (cs_clients ?w). x < cs_next ?w" "\<forall>x \<in> dom (n_socks ?w). x < cs_next ?w"
    using wf unfolding cs_wf_def by (auto split: if_splits)
  moreover have "x = y" if "cs_clients ?w x = Some d" "cs_clients ?w y = Some e" "m_cSocket d = m_cSocket e"
    for x y d e
    using that cs_wf_sock_inj [OF wf, of x d y e] by (auto split: if_splits)
  moreover have "x = y" if "n_socks ?w x = Some f" "n_socks ?w y = Some f" for x y f
    using that cs_wf_fd_inj [OF wf, of x f y] by (auto split: if_splits)
  ultimately show ?thesis using live unfolding cs_wf_def by blast
qed

lemma CloseClient_ok:
  assumes "cs_wf w" "a \<in> set (m_lstClient w)"
  obtains c p fd where "cs_clients w a = Some c" "m_cSocket c = Some p" "n_socks w p = Some fd"
    "CloseClient w a = Inr (closed w a p fd)" "cs_wf (closed w a p fd)"
proof -
  obtain c where c: "cs_clients w a = Some c" using assms cs_wf_listed by blast
  obtain p fd s where p: "m_cSocket c = Some p" "n_socks w p = Some fd"
    by (rule cs_wf_client [OF assms(1) c])
  show thesis using that c p CloseClient_eq [OF c p] closed_wf [OF assms(1) c p] by blast
qed

section \<open>Accepting keeps the invariant\<close>

definition new_user :: "(nat \<Rightarrow> byte) \<Rightarrow> int \<Rightarrow> nat option \<Rightarrow> ENUM_CLIENT_TYPE \<Rightarrow> ChatUser" where
  "new_user junk now sockp type =
     SetMainProcess (Client_SetType (ChatUser_new junk now sockp) type) ProcChatServer"

lemma new_user_sel [simp]:
  "m_cSocket (new_user junk now sockp type) = sockp"
  "m_eType (new_user junk now sockp type) = type"
  "m_pMainProcess (new_user junk now sockp type) = Some ProcChatServer"
  "m_cCBuff (new_user junk now sockp type) = CircularBuff_new junk"
  by (simp_all add: new_user_def SetMainProcess_def Client_SetType_def ChatUser_new_def Client.defs
      Client_new_socket_def)

definition listed :: "(nat \<Rightarrow> byte) \<Rightarrow> int \<Rightarrow> ChatServer \<Rightarrow> nat \<Rightarrow> ENUM_CLIENT_TYPE \<Rightarrow> ChatServer" where
  "listed junk now w p type =
     w\<lparr>m_iConnCount := m_iConnCount w + 1, cs_next := Suc (cs_next w),
       cs_clients := (cs_clients w)(cs_next w \<mapsto> new_user junk now (Some p) type),
       m_lstClient := m_lstClient w @ [cs_next w]\<rparr>"

lemma listed_sel [simp]:
  "n_socks (listed junk now w p type) = n_socks w" "n_kern (listed junk now w p type) = n_kern w"
  "n_epoll (listed junk now w p type) = n_epoll w"
  "m_lstClient (listed junk now w p type) = m_lstClient w @ [cs_next w]"
  "cs_clients (listed junk now w p type) = (cs_clients w)(cs_next w \<mapsto> new_user junk now (Some p) type)"
  "m_iConnCount (listed junk now w p type) = m_iConnCount w + 1"
  "cs_next (listed junk now w p type) = Suc (cs_next w)"
  "m_iMaxUser (listed junk now w p type) = m_iMaxUser w"
  "m_lstChatManagerSocket (listed junk now w p type) = m_lstChatManagerSocket w"
  by (simp_all add: listed_def)

lemma cs_wf_epoll [simp]: "cs_wf (w\<lparr>n_epoll := e\<rparr>) = cs_wf w"
  by (simp add: cs_wf_def sock_live_def cong: option.case_cong)

lemma listed_wf:
  assumes wf: "cs_wf w" and p: "sock_live w p"
    and own: "\<And>a c. cs_clients w a = Some c \<Longrightarrow> m_cSocket c \<noteq> Some p"
  shows "cs_wf (listed junk now w p type)"
proof -
  let ?w = "listed junk now w p type"
  have "sock_live ?w q = sock_live w q" for q
    by (simp add: sock_live_def cong: option.case_cong)
  then have live: "\<exists>q. m_cSocket d = Some q \<and> sock_live ?w q" if "cs_clients ?w b = Some d" for b d
    using that p cs_wf_live [OF wf, of b d] by (auto split: if_splits)
  have "set (m_lstClient ?w) = dom (cs_clients ?w)" "m_iConnCount ?w = int (length (m_lstClient ?w))"
    using wf by (auto simp: cs_wf_def)
  moreover have "distinct (m_lstClient ?w)"
    using wf cs_wf_next(1) [OF wf] cs_wf_listed [OF wf] by (auto simp: cs_wf_def)
  moreover have "\<forall>x \<in> dom (cs_clients ?w). x < cs_next ?w" "\<forall>x \<in> dom (n_socks ?w). x < cs_next ?w"
    using wf unfolding cs_wf_def by (auto split: if_splits simp: less_Suc_eq)
  moreover have "x = y" if "cs_clients ?w x = Some d" "cs_clients ?w y = Some e" "m_cSocket d = m_cSocket e"
    for x y d e
    using that cs_wf_sock_inj [OF wf, of x d y e] own [of x] own [of y] by (auto split: if_splits)
  moreover have "x = y" if "n_socks ?w x = Some f" "n_socks ?w y = Some f" for x y f
    using that cs_wf_fd_inj [OF wf, of x f y] by auto
  ultimately show ?thesis using live unfolding cs_wf_def by blast
qed

text \<open>Either the client is listed and registered, or, when the kernel refuses the registration, it is
  closed again and the list is what it was.\<close>

lemma AcceptClient_ok:
  assumes wf: "cs_wf w" and p: "sock_live w p"
    and own: "\<And>a c. cs_clients w a = Some c \<Longrightarrow> m_cSocket c \<noteq> Some p"
  shows "\<exists>w'. AcceptClient bd junk now w (Some p) type = Inr w' \<and> cs_wf w' \<and>
     m_iMaxUser w' = m_iMaxUser w \<and>
     (m_lstClient w' = m_lstClient w @ [cs_next w] \<or> m_lstClient w' = m_lstClient w)"
proof -
  let ?a = "cs_next w" and ?w1 = "listed junk now w p type"
  obtain fd s where fd: "n_socks w p = Some fd" "n_kern w fd = Some s" "0 < fd"
    using p by (auto simp: sock_live_def split: option.splits)
  have wf1: "cs_wf ?w1" by (rule listed_wf [OF wf p own])
  have c: "cs_clients ?w1 ?a = Some (new_user junk now (Some p) type)" by simp
  have A: "AcceptClient bd junk now w (Some p) type =
      bindR (IOMP_EPoll_AddClient ?w1 ?a (Some p) (epoll_flags bd)) (\<lambda>(r, w2).
        if r < 0 then CloseClient w2 ?a else Inr w2)"
    using fd(1) by (simp add: AcceptClient_def Let_def new_user_def [symmetric] listed_def [symmetric]
        Client_GetSocket_def)
  show ?thesis
  proof (cases "n_epoll w fd")
    case None
    then show ?thesis using A wf1 fd by (simp add: IOMP_EPoll_AddClient_def)
  next
    case (Some e)
    have cl: "CloseClient ?w1 ?a = Inr (closed ?w1 ?a p fd)"
      by (rule CloseClient_eq [OF c]) (simp_all add: fd)
    have "cs_wf (closed ?w1 ?a p fd)" by (rule closed_wf [OF wf1 c]) (simp_all add: fd)
    moreover have "?a \<notin> set (m_lstClient w)" using cs_wf_listed [OF wf] cs_wf_next(1) [OF wf] by simp
    then have "m_lstClient (closed ?w1 ?a p fd) = m_lstClient w" by simp
    moreover have "AcceptClient bd junk now w (Some p) type = Inr (closed ?w1 ?a p fd)"
      using A Some fd cl by (simp add: IOMP_EPoll_AddClient_def)
    ultimately show ?thesis by simp
  qed
qed

section \<open>The server as a connection registry\<close>

text \<open>A descriptor that the kernel has just given to \<open>accept\<close>.\<close>

definition fresh_fd :: "'z net_scheme \<Rightarrow> int \<Rightarrow> bool" where
  "fresh_fd w fd \<longleftrightarrow> 0 < fd \<and> n_kern w fd = None \<and> Some fd \<notin> range (n_socks w)"

definition accept_ok :: "ChatServer \<Rightarrow> (int \<times> Socket) option \<Rightarrow> bool" where
  "accept_ok w kern \<longleftrightarrow> (case kern of None \<Rightarrow> True | Some (fd, s) \<Rightarrow> fresh_fd w fd)"

lemma socket_new_wf:
  assumes wf: "cs_wf w" and fd: "fresh_fd w fd" and new: "socket_new w fd s = (p, w1)"
  shows "cs_wf w1" "sock_live w1 p" "p = cs_next w" "m_lstClient w1 = m_lstClient w"
    "m_iConnCount w1 = m_iConnCount w" "m_iMaxUser w1 = m_iMaxUser w" "cs_clients w1 = cs_clients w"
    "n_socks w1 p = Some fd" "n_kern w1 = (n_kern w)(fd \<mapsto> s\<lparr>m_iFd := fd\<rparr>)"
    "n_socks w1 = (n_socks w)(p \<mapsto> fd)"
proof -
  have w1: "w1 = w\<lparr>cs_next := Suc (cs_next w), n_socks := (n_socks w)(cs_next w \<mapsto> fd),
      n_kern := (n_kern w)(fd \<mapsto> s\<lparr>m_iFd := fd\<rparr>)\<rparr>" and p: "p = cs_next w"
    using new by (auto simp: socket_new_def Let_def)
  have live: "sock_live w1 q" if "sock_live w q" for q
    using that fd cs_wf_next(2) [OF wf] by (auto simp: sock_live_def w1 fresh_fd_def split: option.splits)
  have nf: "n_socks w q \<noteq> Some fd" for q using fd by (auto simp: fresh_fd_def) (metis rangeI)
  show "cs_wf w1"
  proof (rule cs_wfI)
    show "x = y" if "n_socks w1 x = Some f" "n_socks w1 y = Some f" for x y f
      using that cs_wf_fd_inj [OF wf, of x f y] nf by (auto simp: w1 split: if_splits)
    show "\<exists>q. m_cSocket c = Some q \<and> sock_live w1 q" if "cs_clients w1 a = Some c" for a c
      using that cs_wf_live [OF wf, of a c] live by (auto simp: w1)
  qed (use cs_wf_list [OF wf] cs_wf_below [OF wf] cs_wf_sock_inj [OF wf] in
      \<open>auto simp: w1 less_Suc_eq split: if_splits\<close>)
  show "sock_live w1 p" using fd by (simp add: sock_live_def w1 p fresh_fd_def)
qed (use new in \<open>auto simp: socket_new_def Let_def\<close>)

lemma kern_update_wf:
  assumes wf: "cs_wf w" and k: "n_kern w fd = Some s"
  shows "cs_wf (w\<lparr>n_kern := (n_kern w)(fd \<mapsto> s')\<rparr>)"
proof -
  have "sock_live (w\<lparr>n_kern := (n_kern w)(fd \<mapsto> s')\<rparr>) p" if "sock_live w p" for p
    using that by (auto simp: sock_live_def split: option.splits)
  then have live: "\<exists>p. m_cSocket c = Some p \<and> sock_live (w\<lparr>n_kern := (n_kern w)(fd \<mapsto> s')\<rparr>) p"
    if "cs_clients w a = Some c" for a c using cs_wf_live [OF wf that] by blast
  show ?thesis
    by (rule cs_wfI)
      (use live cs_wf_list [OF wf] cs_wf_below [OF wf] cs_wf_sock_inj [OF wf] cs_wf_fd_inj [OF wf] in simp_all)
qed

lemma drop_socket_wf:
  assumes wf: "cs_wf w" and p: "n_socks w p = Some fd"
    and own: "\<And>a c. cs_clients w a = Some c \<Longrightarrow> m_cSocket c \<noteq> Some p"
  shows "cs_wf (w\<lparr>n_socks := (n_socks w)(p := None), n_kern := (n_kern w)(fd := None),
      n_epoll := (n_epoll w)(fd := None)\<rparr>)" (is "cs_wf ?w")
proof -
  have live: "\<exists>q. m_cSocket c = Some q \<and> sock_live ?w q" if c: "cs_clients w a = Some c" for a c
  proof -
    obtain q fd' s where q: "m_cSocket c = Some q" "n_socks w q = Some fd'" "0 < fd'" "n_kern w fd' = Some s"
      by (rule cs_wf_client [OF wf c])
    have "q \<noteq> p" using own [OF c] q(1) by auto
    moreover from this have "fd' \<noteq> fd" using cs_wf_fd_inj [OF wf q(2)] p by auto
    ultimately show ?thesis using q by (auto simp: sock_live_def)
  qed
  show ?thesis
    by (rule cs_wfI)
      (use live cs_wf_list [OF wf] cs_wf_below [OF wf] cs_wf_sock_inj [OF wf] cs_wf_fd_inj [OF wf] in
        \<open>auto split: if_splits\<close>)
qed

lemma accept_round_ok:
  assumes wf: "cs_wf w" and k: "accept_ok w kern"
  shows "\<exists>w'. accept_round bd junk now w kern = Inr w' \<and> cs_wf w' \<and> m_iMaxUser w' = m_iMaxUser w \<and>
    (m_lstClient w' = m_lstClient w \<or>
     m_iConnCount w < m_iMaxUser w \<and>
       (\<exists>a. a \<notin> set (m_lstClient w) \<and> m_lstClient w' = m_lstClient w @ [a]))"
proof (cases kern)
  case None
  then show ?thesis using wf by (simp add: accept_round_def)
next
  case (Some e)
  obtain fd s where e: "e = (fd, s)" by (cases e)
  have fd: "fresh_fd w fd" using k by (simp add: accept_ok_def Some e)
  obtain p w1 where new: "socket_new w fd s = (p, w1)" by (cases "socket_new w fd s")
  note w1 = socket_new_wf [OF wf fd new]
  have own: "m_cSocket c \<noteq> Some p" if "cs_clients w a = Some c" for a c
    using cs_wf_live [OF wf that] cs_wf_next(2) [OF wf] w1(3) by (auto simp: sock_live_def)
  show ?thesis
  proof (cases "GetCurrentUserCount w1 \<ge> GetMaxUser w1")
    case True
    let ?w = "w1\<lparr>n_socks := (n_socks w1)(p := None), n_kern := (n_kern w1)(fd := None),
      n_epoll := (n_epoll w1)(fd := None)\<rparr>"
    have "accept_round bd junk now w kern = Inr ?w"
      using True by (simp add: accept_round_def Some e new delete_socket_def w1(8))
    moreover have "cs_wf ?w" by (rule drop_socket_wf [OF w1(1,8)]) (use own w1(7) in auto)
    ultimately show ?thesis using w1(4,6) by simp
  next
    case False
    let ?s = "s\<lparr>m_iFd := fd, so_flags := O_NDELAY\<rparr>"
    let ?w2 = "w1\<lparr>n_kern := (n_kern w1)(fd \<mapsto> ?s)\<rparr>"
    have k1: "n_kern w1 fd = Some (s\<lparr>m_iFd := fd\<rparr>)" using w1(9) by simp
    have acc: "accept_round bd junk now w kern = AcceptClient bd junk now ?w2 (Some p) CLIENT_USER"
      using False by (simp add: accept_round_def Some e new k1)
    have wf2: "cs_wf ?w2" by (rule kern_update_wf [OF w1(1) k1])
    have live2: "sock_live ?w2 p" using w1(8) fd by (simp add: sock_live_def fresh_fd_def)
    have "cs_next ?w2 \<notin> set (m_lstClient w)"
      using cs_wf_listed [OF wf2] cs_wf_next(1) [OF wf2] w1(4) by simp
    moreover obtain w' where "AcceptClient bd junk now ?w2 (Some p) CLIENT_USER = Inr w'" "cs_wf w'"
        "m_iMaxUser w' = m_iMaxUser ?w2"
        "m_lstClient w' = m_lstClient ?w2 @ [cs_next ?w2] \<or> m_lstClient w' = m_lstClient ?w2"
      using AcceptClient_ok [OF wf2 live2, of bd junk now CLIENT_USER] own w1(7) by auto
    ultimately show ?thesis
      using False w1(4,5,6) acc by (auto simp: GetCurrentUserCount_def GetMaxUser_def)
  qed
qed

interpretation server_conns: conn_registry cs_wf m_lstClient m_iConnCount m_iMaxUser accept_ok
    "accept_round bd junk now" CloseClient for bd junk now
proof
  fix w a assume "cs_wf w" "a \<in> set (m_lstClient w)"
  then obtain c p fd where "CloseClient w a = Inr (closed w a p fd)" "cs_wf (closed w a p fd)"
    by (rule CloseClient_ok)
  then show "\<exists>w'. CloseClient w a = Inr w' \<and> cs_wf w' \<and> m_iMaxUser w' = m_iMaxUser w \<and>
      m_lstClient w' = removeAll a (m_lstClient w)" by simp
qed (rule cs_wf_list(3) accept_round_ok, assumption, assumption?)+

end
