(* ===== verification/ServerBroadcast.thy ===== *)
theory ServerBroadcast
  imports ChatServerProc
begin

text \<open>
  What \<open>ChatServer\<close>'s operations achieve: who receives a broadcast and what, what the managers are
  sent and what arrives there, the connection bookkeeping, and the ways a broken manager connection
  ruins every later broadcast.
\<close>

section \<open>Recipients\<close>

definition user_fd :: "ChatServer \<Rightarrow> int \<Rightarrow> nat \<Rightarrow> int option" where
  \<comment> \<open>the descriptor of a listed user other than the sender on \<open>fd\<close>\<close>
  "user_fd w fd a =
     (case cs_clients w a of None \<Rightarrow> None
      | Some c \<Rightarrow> if m_eType c = CLIENT_USER then
          (case client_fd w a of None \<Rightarrow> None | Some f \<Rightarrow> if f = fd then None else Some f)
        else None)"

definition recipients :: "ChatServer \<Rightarrow> int \<Rightarrow> int list" where
  "recipients w fd = List.map_filter (user_fd w fd) (m_lstClient w)"

lemma client_fd_eq:
  "cs_clients w a = Some c \<Longrightarrow> m_cSocket c = Some p \<Longrightarrow> client_fd w a = n_socks w p"
  by (simp add: client_fd_def)

lemma broadcast_targets_eq:
  assumes wf: "cs_wf w" and sub: "set as \<subseteq> dom (cs_clients w)"
  shows "broadcast_targets w fd as = Inr (List.map_filter (user_fd w fd) as)"
  using sub
proof (induction as)
  case Nil
  then show ?case by (simp add: List.map_filter_def)
next
  case (Cons a as)
  then obtain c where c: "cs_clients w a = Some c" by auto
  obtain p f s where p: "m_cSocket c = Some p" "n_socks w p = Some f"
    by (rule cs_wf_client [OF wf c])
  show ?case
    using Cons c p
    by (auto simp: List.map_filter_def user_fd_def client_fd_eq [OF c p(1)] Client_GetType_def Client_GetSocket_def)
qed

lemma GetBroadcastTargets_eq:
  "cs_wf w \<Longrightarrow> GetBroadcastTargets w bm = Inr (recipients w (msg_socket bm))"
  by (simp add: GetBroadcastTargets_def recipients_def msg_access broadcast_targets_eq cs_wf_list(2))

lemma client_fd_inj:
  assumes wf: "cs_wf w" and a: "client_fd w a = Some f" and b: "client_fd w b = Some f"
  shows "a = b"
proof -
  obtain c p where c: "cs_clients w a = Some c" "m_cSocket c = Some p" "n_socks w p = Some f"
    using a by (auto simp: client_fd_def bind_eq_Some_conv)
  obtain d q where d: "cs_clients w b = Some d" "m_cSocket d = Some q" "n_socks w q = Some f"
    using b by (auto simp: client_fd_def bind_eq_Some_conv)
  have "p = q" using cs_wf_fd_inj [OF wf c(3) d(3)] .
  then show ?thesis using cs_wf_sock_inj [OF wf c(1) d(1)] c(2) d(2) by simp
qed

lemma distinct_map_filter:
  assumes "distinct xs" "\<And>x y z. x \<in> set xs \<Longrightarrow> y \<in> set xs \<Longrightarrow> f x = Some z \<Longrightarrow> f y = Some z \<Longrightarrow> x = y"
  shows "distinct (List.map_filter f xs)"
  using assms
proof (induction xs)
  case (Cons x xs)
  have IH: "distinct (List.map_filter f xs)" by (rule Cons.IH) (use Cons.prems in auto)
  have "z \<notin> set (List.map_filter f xs)" if "f x = Some z" for z
  proof
    assume "z \<in> set (List.map_filter f xs)"
    then obtain y where "y \<in> set xs" "f y = Some z" by (auto simp: List.map_filter_def)
    then show False using Cons.prems that by (metis distinct.simps(2) list.set_intros)
  qed
  then show ?case using IH by (cases "f x") (auto simp: List.map_filter_def)
qed (simp add: List.map_filter_def)

lemma user_fd_client: "user_fd w fd a = Some f \<Longrightarrow> client_fd w a = Some f"
  by (auto simp: user_fd_def split: option.splits if_splits)

lemma distinct_recipients: "cs_wf w \<Longrightarrow> distinct (recipients w fd)"
  unfolding recipients_def
  by (rule distinct_map_filter) (auto simp: cs_wf_list intro: client_fd_inj dest!: user_fd_client)

lemma client_fd_kern [simp]: "client_fd (w\<lparr>n_kern := K\<rparr>) a = client_fd w a"
  by (simp add: client_fd_def)

lemma user_fd_kern [simp]: "user_fd (w\<lparr>n_kern := K\<rparr>) fd = user_fd w fd"
  by (rule ext) (simp add: user_fd_def cong: option.case_cong if_cong)

lemma recipients_kern [simp]: "recipients (w\<lparr>n_kern := K\<rparr>) fd = recipients w fd"
  by (simp add: recipients_def)

lemma user_fd_other: "user_fd w fd a \<noteq> Some fd"
  by (simp add: user_fd_def split: option.splits)

lemma sender_not_recipient: "fd \<notin> set (recipients w fd)"
proof
  assume "fd \<in> set (recipients w fd)"
  then obtain a where "user_fd w fd a = Some fd"
    unfolding recipients_def List.map_filter_def by auto
  then show False using user_fd_other by blast
qed

lemma kern_dom_wf:
  assumes wf: "cs_wf w" and K: "dom K = dom (n_kern w)"
  shows "cs_wf (w\<lparr>n_kern := K\<rparr>)"
proof -
  have "K fd \<noteq> None \<longleftrightarrow> n_kern w fd \<noteq> None" for fd using K by (metis domIff)
  then have live: "\<exists>p. m_cSocket c = Some p \<and> sock_live (w\<lparr>n_kern := K\<rparr>) p" if "cs_clients w a = Some c" for a c
    using cs_wf_live [OF wf that] by (fastforce simp: sock_live_def split: option.splits)
  show ?thesis
    by (rule cs_wfI)
      (use live cs_wf_list [OF wf] cs_wf_below [OF wf] cs_wf_sock_inj [OF wf] cs_wf_fd_inj [OF wf] in simp_all)
qed

section \<open>The packet for the managers\<close>

lemma relay_packet_ok:
  assumes "length (msg_block bm) = 1024" "messageSize bm = int n" "n \<le> 1024"
  shows "relay_packet uid bm =
    Inr \<lparr>pkt_header = \<lparr>hdr_command = cmd_CHAT_BROADCAST, hdr_length = of_nat (n + 8)\<rparr>,
         pkt_data = le_bytes 8 uid @ take n (msg_block bm) @ replicate (4084 - n) 0\<rparr>"
proof -
  have d1: "mem_put (pkt_data T_PACKET_zero) 0 (le_bytes 8 uid) = le_bytes 8 uid @ replicate 4084 0"
    by (simp add: T_PACKET_zero_def mem_put_drop_0)
  have "memcpy (le_bytes 8 uid @ replicate 4084 0) 8 (msg_block bm) 0 (int n) =
      Inr (mem_put (le_bytes 8 uid @ replicate 4084 0) 8 (take n (msg_block bm)))"
    using memcpy_nat_from0 [of n "msg_block bm" 8 "le_bytes 8 uid @ replicate 4084 0"] assms by simp
  also have "mem_put (le_bytes 8 uid @ replicate 4084 0) 8 (take n (msg_block bm)) =
      le_bytes 8 uid @ take n (msg_block bm) @ replicate (4084 - n) 0"
    using assms by (simp add: mem_put_def)
  finally show ?thesis using assms(2) by (simp add: relay_packet_def Let_def d1 msg_access)
qed

definition relay_of :: "64 word \<Rightarrow> BroadcastMessage \<Rightarrow> T_PACKET" where
  "relay_of uid bm = (let n = nat (messageSize bm) in
     \<lparr>pkt_header = \<lparr>hdr_command = cmd_CHAT_BROADCAST, hdr_length = of_nat (n + 8)\<rparr>,
      pkt_data = le_bytes 8 uid @ take n (msg_block bm) @ replicate (4084 - n) 0\<rparr>)"

lemma relay_of_len: "messageSize bm = int n \<Longrightarrow> n \<le> 1024 \<Longrightarrow> pkt_len (relay_of uid bm) = n + 8"
  unfolding pkt_len_def relay_of_def Let_def
  by (simp add: unsigned_of_nat take_bit_nat_eq_self del: of_nat_add)

lemma relay_of_ok:
  assumes "length (msg_block bm) = 1024" "messageSize bm = int n" "n \<le> 1024"
  shows "relay_packet uid bm = Inr (relay_of uid bm)" "pkt_ok (relay_of uid bm)"
    "0 < n \<Longrightarrow> relayable (relay_of uid bm)"
proof -
  show "relay_packet uid bm = Inr (relay_of uid bm)"
    using relay_packet_ok [OF assms] assms(2) by (simp add: relay_of_def)
  show ok: "pkt_ok (relay_of uid bm)"
    using assms relay_of_len [OF assms(2,3), of uid]
    by (simp add: pkt_ok_def T_PACKET_wf_def) (simp add: relay_of_def)
  show "0 < n \<Longrightarrow> relayable (relay_of uid bm)"
    using assms relay_of_len [OF assms(2,3), of uid] ok by (simp add: relayable_def) (simp add: relay_of_def)
qed

lemma MessageBroadcastToManagers_eq:
  assumes "length (msg_block bm) = 1024" "messageSize bm = int n" "n \<le> 1024"
  shows "MessageBroadcastToManagers w bm =
    write_managers w (m_lstChatManagerSocket w) (T_PACKET_bytes (relay_of (m_uniqId w) bm)) (int (12 + n))"
  using relay_of_ok(1) [OF assms] relay_of_len [OF assms(2,3)]
  by (simp add: MessageBroadcastToManagers_def GetUniqId_def hdr_uint_len)

section \<open>Delivery\<close>

definition manager_fds :: "ChatServer \<Rightarrow> int set" where
  "manager_fds w = {fd. \<exists>p. Some p \<in> set (m_lstChatManagerSocket w) \<and> n_socks w p = Some fd}"

text \<open>Every manager connection is alive, listed once, and no user's.\<close>

definition managers_ok :: "ChatServer \<Rightarrow> bool" where
  "managers_ok w \<longleftrightarrow>
     distinct (m_lstChatManagerSocket w) \<and>
     (\<forall>p \<in> set (m_lstChatManagerSocket w). \<exists>q. p = Some q \<and> sock_live w q) \<and>
     (\<forall>fd. manager_fds w \<inter> set (recipients w fd) = {})"

lemma managers_ok_list:
  assumes "managers_ok w" "cs_wf w"
  obtains ps where "m_lstChatManagerSocket w = map Some ps"
    "\<forall>p \<in> set ps. \<exists>fd. n_socks w p = Some fd \<and> 0 < fd"
    "distinct (map (\<lambda>p. the (n_socks w p)) ps)"
    "set (map (\<lambda>p. the (n_socks w p)) ps) = manager_fds w"
proof -
  let ?ps = "map the (m_lstChatManagerSocket w)"
  have some: "p \<in> set (m_lstChatManagerSocket w) \<Longrightarrow> \<exists>q. p = Some q \<and> sock_live w q" for p
    using assms(1) by (simp add: managers_ok_def)
  then have eq: "m_lstChatManagerSocket w = map Some ?ps"
    by (subst map_map, intro map_idI [symmetric]) force
  have mem: "p \<in> set ?ps \<longleftrightarrow> Some p \<in> set (m_lstChatManagerSocket w)" for p
    by (subst (2) eq) auto
  have live: "\<exists>fd. n_socks w p = Some fd \<and> 0 < fd" if "p \<in> set ?ps" for p
    using some [of "Some p"] that mem by (auto simp: sock_live_def split: option.splits)
  have "distinct (map Some ?ps)" using assms(1) eq unfolding managers_ok_def by metis
  then have "distinct ?ps" by (simp only: distinct_map [of Some])
  moreover have "inj_on (\<lambda>p. the (n_socks w p)) (set ?ps)"
  proof (rule inj_onI)
    fix p q assume p: "p \<in> set ?ps" and q: "q \<in> set ?ps" and e: "the (n_socks w p) = the (n_socks w q)"
    obtain f g where "n_socks w p = Some f" "n_socks w q = Some g" using live [OF p] live [OF q] by blast
    then show "p = q" using e cs_wf_fd_inj [OF assms(2), of p f q] by simp
  qed
  ultimately have "distinct (map (\<lambda>p. the (n_socks w p)) ?ps)" by (simp only: distinct_map simp_thms)
  moreover have "set (map (\<lambda>p. the (n_socks w p)) ?ps) = manager_fds w"
  proof (intro set_eqI iffI)
    fix fd assume "fd \<in> set (map (\<lambda>p. the (n_socks w p)) ?ps)"
    then obtain p where p: "p \<in> set ?ps" "fd = the (n_socks w p)" by (auto simp del: set_map) auto
    then show "fd \<in> manager_fds w" using live [OF p(1)] mem by (auto simp: manager_fds_def simp del: set_map)
  next
    fix fd assume "fd \<in> manager_fds w"
    then obtain p where p: "p \<in> set ?ps" "n_socks w p = Some fd" unfolding mem manager_fds_def by blast
    have "(\<lambda>p. the (n_socks w p)) p \<in> set (map (\<lambda>p. the (n_socks w p)) ?ps)"
      unfolding set_map [of _ ?ps] using p(1) by (rule imageI)
    then show "fd \<in> set (map (\<lambda>p. the (n_socks w p)) ?ps)" using p(2) by simp
  qed
  ultimately show thesis using that [OF eq] live by blast
qed

lemma delivered_same:
  "n_kern w' fd = n_kern w fd \<Longrightarrow> delivered w' v fd bs = delivered w v fd bs"
  "n_kern v' fd = n_kern v fd \<Longrightarrow> delivered w v' fd bs = delivered w v fd bs"
  by (simp_all add: delivered_def wire_of_def takes_all_def)

lemma relay_delivers:
  assumes wf: "cs_wf w" "kern_ok w" "managers_ok w"
    and bm: "length (msg_block bm) = 1024" "messageSize bm = int n" "n \<le> 1024"
    and resp: "\<And>fd. fd \<in> manager_fds w \<Longrightarrow> responsive w fd (pkt_wire (relay_of (m_uniqId w) bm))"
  obtains K where "MessageBroadcastToManagers w bm = Inr (w\<lparr>n_kern := K\<rparr>)"
    "\<And>fd. fd \<notin> manager_fds w \<Longrightarrow> K fd = n_kern w fd"
    "\<And>fd. fd \<in> manager_fds w \<Longrightarrow> delivered w (w\<lparr>n_kern := K\<rparr>) fd (pkt_wire (relay_of (m_uniqId w) bm))"
    "kern_ok (w\<lparr>n_kern := K\<rparr>)" "dom K = dom (n_kern w)"
proof -
  let ?p = "relay_of (m_uniqId w) bm" and ?blk = "T_PACKET_bytes (relay_of (m_uniqId w) bm)"
  obtain ps where ps: "m_lstChatManagerSocket w = map Some ps"
    "\<forall>p \<in> set ps. \<exists>fd. n_socks w p = Some fd \<and> 0 < fd"
    "distinct (map (\<lambda>p. the (n_socks w p)) ps)"
    "set (map (\<lambda>p. the (n_socks w p)) ps) = manager_fds w"
    by (rule managers_ok_list [OF wf(3,1)])
  have wire: "take (12 + n) ?blk = pkt_wire ?p"
    using relay_of_len [OF bm(2,3)] by (simp add: pkt_wire_def add.commute)
  have lb: "12 + n \<le> length ?blk"
    using relay_of_ok(2) [OF bm] bm(3) by (simp add: pkt_ok_def)
  have r: "responsive w fd (take (12 + n) ?blk)" if "fd \<in> set (map (\<lambda>p. the (n_socks w p)) ps)" for fd
    using resp that unfolding wire ps(4) by blast
  have "MessageBroadcastToManagers w bm =
      write_targets w (map (\<lambda>p. the (n_socks w p)) ps) ?blk (int (12 + n))"
    unfolding MessageBroadcastToManagers_eq [OF bm] ps(1)
    by (rule write_managers_is_targets [OF ps(2) wf(2) ps(3) _ lb]) (use r in auto)
  with write_targets_deliver [OF ps(3) r lb] show thesis
    using that wf(2) unfolding wire ps(4) by metis
qed

lemma MessageBroadcast_deliver:
  assumes wf: "cs_wf w" "kern_ok w" "managers_ok w"
    and bm: "length (msg_block bm) = 1024" "messageSize bm = int n" "n \<le> 1024"
    and resp: "\<And>fd. fd \<in> manager_fds w \<Longrightarrow> responsive w fd (pkt_wire (relay_of (m_uniqId w) bm))"
      "\<And>fd. fd \<in> set (recipients w (msg_socket bm)) \<Longrightarrow> responsive w fd (take n (msg_block bm))"
  obtains K where "MessageBroadcast w bm = Inr (w\<lparr>n_kern := K\<rparr>)"
    "cs_wf (w\<lparr>n_kern := K\<rparr>)" "kern_ok (w\<lparr>n_kern := K\<rparr>)"
    "\<And>fd. fd \<in> set (recipients w (msg_socket bm)) \<Longrightarrow> delivered w (w\<lparr>n_kern := K\<rparr>) fd (take n (msg_block bm))"
    "\<And>fd. fd \<in> manager_fds w \<Longrightarrow> messageType bm \<noteq> RELAYED_MESSAGE \<Longrightarrow>
      delivered w (w\<lparr>n_kern := K\<rparr>) fd (pkt_wire (relay_of (m_uniqId w) bm))"
    "\<And>fd. fd \<notin> set (recipients w (msg_socket bm)) \<Longrightarrow> fd \<notin> manager_fds w \<or> messageType bm = RELAYED_MESSAGE \<Longrightarrow>
      K fd = n_kern w fd"
proof -
  let ?R = "recipients w (msg_socket bm)"
  have disj: "manager_fds w \<inter> set ?R = {}" using wf(3) by (simp add: managers_ok_def)
  obtain K1 where K1: "(if GetMessageType bm \<noteq> RELAYED_MESSAGE then MessageBroadcastToManagers w bm else Inr w)
        = Inr (w\<lparr>n_kern := K1\<rparr>)"
    "\<And>fd. fd \<notin> manager_fds w \<or> messageType bm = RELAYED_MESSAGE \<Longrightarrow> K1 fd = n_kern w fd"
    "\<And>fd. fd \<in> manager_fds w \<Longrightarrow> messageType bm \<noteq> RELAYED_MESSAGE \<Longrightarrow>
      delivered w (w\<lparr>n_kern := K1\<rparr>) fd (pkt_wire (relay_of (m_uniqId w) bm))"
    "kern_ok (w\<lparr>n_kern := K1\<rparr>)" "dom K1 = dom (n_kern w)"
  proof (cases "messageType bm = RELAYED_MESSAGE")
    case True
    then show thesis using that [of "n_kern w"] wf(2) by (simp add: msg_access)
  next
    case False
    obtain K where "MessageBroadcastToManagers w bm = Inr (w\<lparr>n_kern := K\<rparr>)"
      "\<And>fd. fd \<notin> manager_fds w \<Longrightarrow> K fd = n_kern w fd"
      "\<And>fd. fd \<in> manager_fds w \<Longrightarrow> delivered w (w\<lparr>n_kern := K\<rparr>) fd (pkt_wire (relay_of (m_uniqId w) bm))"
      "kern_ok (w\<lparr>n_kern := K\<rparr>)" "dom K = dom (n_kern w)"
      using relay_delivers [OF wf bm resp(1)] by blast
    then show thesis using that [of K] False by (simp add: msg_access)
  qed
  let ?w1 = "w\<lparr>n_kern := K1\<rparr>"
  have wf1: "cs_wf ?w1" by (rule kern_dom_wf [OF wf(1) K1(5)])
  have same: "K1 fd = n_kern w fd" if "fd \<in> set ?R" for fd using that disj K1(2) by blast
  have lb: "n \<le> length (msg_block bm)" using bm by simp
  have resp1: "responsive ?w1 fd (take n (msg_block bm))" if "fd \<in> set ?R" for fd
    using resp(2) [OF that] same [OF that] by (simp add: responsive_def)
  obtain K where K: "write_targets ?w1 ?R (msg_block bm) (int n) = Inr (?w1\<lparr>n_kern := K\<rparr>)"
    "\<forall>fd. fd \<notin> set ?R \<longrightarrow> K fd = n_kern ?w1 fd"
    "\<forall>fd \<in> set ?R. delivered ?w1 (?w1\<lparr>n_kern := K\<rparr>) fd (take n (msg_block bm))"
    "kern_ok ?w1 \<longrightarrow> kern_ok (?w1\<lparr>n_kern := K\<rparr>)" "dom K = dom (n_kern ?w1)"
    using write_targets_deliver [OF distinct_recipients [OF wf(1)] resp1 lb] by blast
  show thesis
  proof (rule that)
    show "MessageBroadcast w bm = Inr (w\<lparr>n_kern := K\<rparr>)"
      using K1(1) K(1) GetBroadcastTargets_eq [OF wf1, of bm] bm(2)
      by (simp add: MessageBroadcast_def) (simp add: msg_access)
    show "cs_wf (w\<lparr>n_kern := K\<rparr>)" by (rule kern_dom_wf [OF wf(1)]) (use K(5) K1(5) in simp)
    show "kern_ok (w\<lparr>n_kern := K\<rparr>)" using K(4) K1(4) by simp
    show "delivered w (w\<lparr>n_kern := K\<rparr>) fd (take n (msg_block bm))" if "fd \<in> set ?R" for fd
    proof -
      have "delivered ?w1 (?w1\<lparr>n_kern := K\<rparr>) fd (take n (msg_block bm))" using K(3) that by blast
      moreover have "n_kern ?w1 fd = n_kern w fd" using same [OF that] by simp
      ultimately show ?thesis by (simp add: delivered_same(1) [of ?w1 fd w])
    qed
    show "delivered w (w\<lparr>n_kern := K\<rparr>) fd (pkt_wire (relay_of (m_uniqId w) bm))"
      if "fd \<in> manager_fds w" "messageType bm \<noteq> RELAYED_MESSAGE" for fd
    proof -
      have "K fd = K1 fd" using K(2) that(1) disj by auto
      then show ?thesis using K1(3) [OF that] by (simp add: delivered_same(2) [of "w\<lparr>n_kern := K\<rparr>" fd ?w1])
    qed
    show "K fd = n_kern w fd" if "fd \<notin> set ?R" "fd \<notin> manager_fds w \<or> messageType bm = RELAYED_MESSAGE" for fd
      using K(2) K1(2) that by simp
  qed
qed

section \<open>A concrete server\<close>

text \<open>Two users on descriptors 4 and 5 and one manager on 6; every descriptor takes one large write.\<close>

definition demo_server :: ChatServer where
  "demo_server =
     (ChatServer_new (\<lambda>_. BroadcastMessage_new (\<lambda>_. 0))
       \<lparr>n_socks = [1 \<mapsto> 4, 2 \<mapsto> 5, 3 \<mapsto> 6],
        n_kern = [4 \<mapsto> Socket_new 4 [] [TxTake 4096], 5 \<mapsto> Socket_new 5 [] [TxTake 4096],
                  6 \<mapsto> Socket_new 6 [] [TxTake 4096]],
        n_epoll = Map.empty\<rparr>)
     \<lparr>m_iConnCount := 3, m_iMaxUser := 10, m_uniqId := 77, m_lstClient := [10, 11, 12],
      m_lstChatManagerSocket := [Some 3],
      cs_clients := [10 \<mapsto> new_user (\<lambda>_. 0) 0 (Some 1) CLIENT_USER, 11 \<mapsto> new_user (\<lambda>_. 0) 0 (Some 2) CLIENT_USER,
                     12 \<mapsto> new_user (\<lambda>_. 0) 0 (Some 3) CLIENT_CHAT_MANAGER],
      cs_next := 20\<rparr>"

definition demo_message :: BroadcastMessage where
  "demo_message = user_message (\<lambda>_. 0) 4 [104, 105]"

lemma demo_server_sel [simp]:
  "n_socks demo_server = [1 \<mapsto> 4, 2 \<mapsto> 5, 3 \<mapsto> 6]"
  "n_kern demo_server = [4 \<mapsto> Socket_new 4 [] [TxTake 4096], 5 \<mapsto> Socket_new 5 [] [TxTake 4096],
     6 \<mapsto> Socket_new 6 [] [TxTake 4096]]"
  "m_iConnCount demo_server = 3" "m_uniqId demo_server = 77" "m_lstClient demo_server = [10, 11, 12]"
  "m_iMaxUser demo_server = 10" "n_epoll demo_server = Map.empty"
  "m_lstChatManagerSocket demo_server = [Some 3]" "cs_next demo_server = 20"
  "cs_clients demo_server = [10 \<mapsto> new_user (\<lambda>_. 0) 0 (Some 1) CLIENT_USER,
     11 \<mapsto> new_user (\<lambda>_. 0) 0 (Some 2) CLIENT_USER, 12 \<mapsto> new_user (\<lambda>_. 0) 0 (Some 3) CLIENT_CHAT_MANAGER]"
  by (simp_all add: demo_server_def ChatServer_new_def net.defs)

lemma demo_server_wf: "cs_wf demo_server"
proof (rule cs_wfI)
  show "\<exists>p. m_cSocket c = Some p \<and> sock_live demo_server p" if "cs_clients demo_server a = Some c" for a c
    using that by (simp add: sock_live_def split: if_splits) (metis new_user_sel(1))+
  show "a = b" if "cs_clients demo_server a = Some c" "cs_clients demo_server b = Some d"
      "m_cSocket c = m_cSocket d" for a b c d
  proof -
    have "m_cSocket c = Some (a - 9)" "9 < a" if "cs_clients demo_server a = Some c" for a c
      using that by (auto split: if_splits)
    from this [OF that(1)] this [OF that(2)] that(3) show ?thesis by simp
  qed
  show "p = q" if "n_socks demo_server p = Some fd" "n_socks demo_server q = Some fd" for p q fd
  proof -
    have "fd = 3 + int p" if "n_socks demo_server p = Some fd" for p
      using that by (auto split: if_splits)
    from this [OF that(1)] this [OF that(2)] show ?thesis by simp
  qed
qed (auto split: if_splits)

lemma demo_server_ok: "kern_ok demo_server" "managers_ok demo_server"
    "recipients demo_server 4 = [5]" "manager_fds demo_server = {6}"
proof -
  show "kern_ok demo_server" by (auto simp: kern_ok_def Socket_new_def split: if_splits)
  have user: "user_fd demo_server fd = (\<lambda>a. if a = 10 \<and> fd \<noteq> 4 then Some 4 else if a = 11 \<and> fd \<noteq> 5 then Some 5 else None)" for fd
    by (rule ext) (auto simp: user_fd_def client_fd_def)
  then show "recipients demo_server 4 = [5]" by (simp add: recipients_def List.map_filter_def)
  show m: "manager_fds demo_server = {6}" by (auto simp: manager_fds_def)
  have "6 \<notin> set (recipients demo_server fd)" for fd
    by (auto simp: recipients_def List.map_filter_def user split: if_splits)
  then show "managers_ok demo_server" by (auto simp: managers_ok_def m sock_live_def)
qed

lemma demo_message_sel [simp]:
  "messageType demo_message = CLIENT_CHAT_MESSAGE" "msg_socket demo_message = 4"
  "messageSize demo_message = 2" "length (msg_block demo_message) = 1024"
  "take 2 (msg_block demo_message) = [104, 105]" "take (Suc (Suc 0)) (msg_block demo_message) = [104, 105]"
  by (simp_all add: demo_message_def user_message_def)

lemma responsive_one: "n_kern w fd = Some s \<Longrightarrow> tx s = [TxTake k] \<Longrightarrow> length bs \<le> k \<Longrightarrow> responsive w fd bs"
  by (cases bs) (auto simp: responsive_def)

lemma takes_all_one: "n_kern w fd = Some s \<Longrightarrow> tx s = [TxTake k] \<Longrightarrow> length bs \<le> k \<Longrightarrow> takes_all w fd bs"
  by (cases bs) (simp_all add: takes_all_def)

section \<open>Properties\<close>

text \<open>C3: On a server whose connections are in order (\<open>cs_wf\<close>, every manager connection alive), a
  broadcast of \<open>n\<close> bytes of text always completes; every listed user but the sender gets a prefix of
  exactly that text once, all of it when its descriptor takes all; every manager gets the packet
  \<open>relay_of\<close> (command, length, server id, text) unless the message was itself relayed; no other
  descriptor gets a byte, the sender's included, and the server's state is otherwise unchanged.\<close>

theorem MessageBroadcast_delivers:
  assumes wf: "cs_wf w" "kern_ok w" "managers_ok w"
    and bm: "length (msg_block bm) = 1024" "messageSize bm = int n" "n \<le> 1024"
    and resp: "\<And>fd. fd \<in> manager_fds w \<Longrightarrow> responsive w fd (pkt_wire (relay_of (m_uniqId w) bm))"
      "\<And>fd. fd \<in> set (recipients w (msg_socket bm)) \<Longrightarrow> responsive w fd (take n (msg_block bm))"
  shows "\<exists>K. MessageBroadcast w bm = Inr (w\<lparr>n_kern := K\<rparr>) \<and> cs_wf (w\<lparr>n_kern := K\<rparr>) \<and>
    msg_socket bm \<notin> set (recipients w (msg_socket bm)) \<and>
    (\<forall>fd. if fd \<in> set (recipients w (msg_socket bm)) then delivered w (w\<lparr>n_kern := K\<rparr>) fd (take n (msg_block bm))
          else if fd \<in> manager_fds w \<and> messageType bm \<noteq> RELAYED_MESSAGE
          then delivered w (w\<lparr>n_kern := K\<rparr>) fd (pkt_wire (relay_of (m_uniqId w) bm))
          else K fd = n_kern w fd)"
proof -
  show ?thesis
    by (rule MessageBroadcast_deliver [OF wf bm resp], assumption, assumption, rule exI)
      (auto simp: sender_not_recipient)
qed

theorem MessageBroadcast_delivers_witness:
  "\<exists>K. MessageBroadcast demo_server demo_message = Inr (demo_server\<lparr>n_kern := K\<rparr>) \<and>
     wire_of (demo_server\<lparr>n_kern := K\<rparr>) 5 = [104, 105] \<and> K 4 = n_kern demo_server 4"
proof -
  have r6: "responsive demo_server 6 (pkt_wire (relay_of 77 demo_message))"
    using relay_of_ok(2) [of demo_message 2 77] relay_of_len [of demo_message 2 77]
    by (intro responsive_one [of _ _ "Socket_new 6 [] [TxTake 4096]" 4096])
      (simp_all add: length_pkt_wire Socket_new_def)
  have t5: "takes_all demo_server 5 [104, 105]"
    by (rule takes_all_one [of _ _ "Socket_new 5 [] [TxTake 4096]" 4096]) (simp_all add: Socket_new_def)
  then have r5: "responsive demo_server 5 [104, 105]" by (auto simp: takes_all_def responsive_def)
  obtain K where K: "MessageBroadcast demo_server demo_message = Inr (demo_server\<lparr>n_kern := K\<rparr>)"
    "\<forall>fd. if fd \<in> set (recipients demo_server (msg_socket demo_message))
       then delivered demo_server (demo_server\<lparr>n_kern := K\<rparr>) fd (take 2 (msg_block demo_message))
       else if fd \<in> manager_fds demo_server \<and> messageType demo_message \<noteq> RELAYED_MESSAGE
       then delivered demo_server (demo_server\<lparr>n_kern := K\<rparr>) fd (pkt_wire (relay_of (m_uniqId demo_server) demo_message))
       else K fd = n_kern demo_server fd"
    using MessageBroadcast_delivers [OF demo_server_wf demo_server_ok(1,2), of demo_message 2] r5 r6
    by (simp add: demo_server_ok(3,4)) blast
  have "delivered demo_server (demo_server\<lparr>n_kern := K\<rparr>) 5 [104, 105]"
    using spec [OF K(2), of 5] by (simp add: demo_server_ok(3))
  then have "wire_of (demo_server\<lparr>n_kern := K\<rparr>) 5 = [104, 105]"
    using t5 by (auto simp: delivered_def wire_of_def Socket_new_def)
  moreover have "K 4 = n_kern demo_server 4" using spec [OF K(2), of 4] by (simp add: demo_server_ok(3,4))
  ultimately show ?thesis using K(1) by blast
qed

section \<open>What a relayed text becomes\<close>

lemma relay_of_fields:
  assumes "length (msg_block bm) = 1024" "messageSize bm = int n" "n \<le> 1024"
  shows "pkt_len (relay_of uid bm) = n + 8"
    "take (pkt_len (relay_of uid bm) - 9) (drop 8 (pkt_data (relay_of uid bm))) = take (n - 1) (msg_block bm)"
proof -
  show l: "pkt_len (relay_of uid bm) = n + 8" by (rule relay_of_len [OF assms(2,3)])
  have "drop 8 (pkt_data (relay_of uid bm)) = take n (msg_block bm) @ replicate (4084 - n) 0"
    using assms(2) by (simp add: relay_of_def Let_def)
  then show "take (pkt_len (relay_of uid bm) - 9) (drop 8 (pkt_data (relay_of uid bm))) = take (n - 1) (msg_block bm)"
    using assms unfolding l by (simp add: min_def)
qed

lemma relayed_message_of_relay:
  assumes "length (msg_block bm) = 1024" "messageSize bm = int n" "n \<le> 1024" "0 < n"
  shows "messageType (relayed_message junk fd (relay_of uid bm)) = RELAYED_MESSAGE"
    "messageSize (relayed_message junk fd (relay_of uid bm)) = int n"
    "length (msg_block (relayed_message junk fd (relay_of uid bm))) = 1024"
    "take n (msg_block (relayed_message junk fd (relay_of uid bm))) = take (n - 1) (msg_block bm) @ [0]"
proof -
  note fields = relay_of_fields [OF assms(1-3), of uid]
  have blk: "msg_block (relayed_message junk fd (relay_of uid bm)) =
      take (n - 1) (msg_block bm) @ 0 # drop n (junk_block junk)"
    unfolding relayed_message_def using fields by simp
  then show "length (msg_block (relayed_message junk fd (relay_of uid bm))) = 1024"
    "take n (msg_block (relayed_message junk fd (relay_of uid bm))) = take (n - 1) (msg_block bm) @ [0]"
    using assms by (auto simp: min_def)
qed (use relay_of_fields(1) [OF assms(1-3), of uid] in \<open>simp_all add: relayed_message_def\<close>)

text \<open>C21: The packet that \<open>MessageBroadcastToManagers\<close> builds from \<open>n\<close> bytes of text (1 to 1024), lying at
  the front of a manager connection's ring, is taken out whole by \<open>ChatUser::ExecuteCommand\<close> and becomes a
  message marked \<open>RELAYED_MESSAGE\<close> of the same size, whose text is the original except that the last
  byte has been overwritten with NUL; the bytes behind the packet stay in the ring.\<close>

theorem relay_roundtrip:
  assumes "length (msg_block bm) = 1024" "messageSize bm = int n" "0 < n" "n \<le> 1024"
    and "m_eType c = CLIENT_CHAT_MANAGER" "m_pMainProcess c = Some ProcChatServer"
    and "cb_half (m_cCBuff c)" "cb_contents (m_cCBuff c) = pkt_wire (relay_of uid bm) @ rest"
  shows "relay_packet uid bm = Inr (relay_of uid bm) \<and>
    (\<exists>c' bm'. ChatUser_ExecuteCommand junk fd c = Inr (0, c', Some bm') \<and>
       cb_contents (m_cCBuff c') = rest \<and> cb_half (m_cCBuff c') \<and>
       messageType bm' = RELAYED_MESSAGE \<and> messageSize bm' = int n \<and> length (msg_block bm') = 1024 \<and>
       take n (msg_block bm') = take (n - 1) (msg_block bm) @ [0])"
proof -
  have ok: "relayable (relay_of uid bm)" by (rule relay_of_ok(3) [OF assms(1,2,4,3)])
  obtain b' where "ChatUser_ExecuteCommand junk fd c =
      Inr (0, c\<lparr>m_cCBuff := b'\<rparr>, Some (relayed_message junk fd (relay_of uid bm)))"
      "cb_half b'" "cb_contents b' = rest"
    by (rule ExecuteCommand_relays [OF assms(5-8) ok])
  then show ?thesis
    using relay_of_ok(1) [OF assms(1,2,4)] relayed_message_of_relay [OF assms(1,2,4,3)] by auto
qed

theorem relay_roundtrip_witness:
  "\<exists>c c' bm'. ChatUser_ExecuteCommand (\<lambda>_. 0) 6 c = Inr (0, c', Some bm') \<and>
     m_eType c = CLIENT_CHAT_MANAGER \<and> take 2 (msg_block bm') = [104, 0]"
proof -
  have "length (pkt_wire (relay_of 77 demo_message)) < 512000"
    using relay_of_ok(2) [of demo_message 2 77] relay_of_len [of demo_message 2 77] by (simp add: length_pkt_wire)
  then obtain b where b: "cb_half b" "cb_contents b = pkt_wire (relay_of 77 demo_message)" using ring_holding by blast
  let ?c = "new_user (\<lambda>_. 0) 0 (Some 3) CLIENT_CHAT_MANAGER\<lparr>m_cCBuff := b\<rparr>"
  have t: "take 1 (msg_block demo_message) = [104]" by (simp add: demo_message_def user_message_def)
  have "m_eType ?c = CLIENT_CHAT_MANAGER" "m_pMainProcess ?c = Some ProcChatServer" by simp_all
  with relay_roundtrip [of demo_message 2 ?c 77 "[]" "\<lambda>_. 0" 6] b t show ?thesis by fastforce
qed

section \<open>Broken manager connections\<close>

lemma write_managers_stuck:
  "p \<in> set ps \<Longrightarrow> (\<And>w :: ChatServer. n_socks w = S \<Longrightarrow> \<exists>e. sock_fd w p = Inl e) \<Longrightarrow> n_socks (w :: ChatServer) = S \<Longrightarrow>
     write_managers w ps blk n \<noteq> Inr w'"
proof (induction ps arbitrary: w)
  case (Cons q ps)
  show ?case
  proof (cases "q = p")
    case True
    obtain e where "sock_fd w p = Inl e" using Cons.prems(2,3) by blast
    then show ?thesis using True by (simp add: write_at_def)
  next
    case False
    have "n_socks w1 = S" if "write_at w q blk n = Inr (r, w1)" for r w1
      using that Cons.prems(3) by (auto simp: write_at_def bindR_Inr_iff split: option.splits)
    then show ?thesis
      using Cons.IH Cons.prems(1,2) False by (auto simp: bindR_Inr_iff)
  qed
qed simp

lemma MessageBroadcast_stuck:
  assumes "p \<in> set (m_lstChatManagerSocket w)"
    "p = None \<or> (\<exists>a. p = Some a \<and> n_socks w a = None)" "messageType bm \<noteq> RELAYED_MESSAGE"
  shows "MessageBroadcast w bm \<noteq> Inr w'"
proof -
  have "\<exists>e. sock_fd v p = Inl e" if "n_socks v = n_socks w" for v :: ChatServer
    using assms(2) that by (auto simp: sock_fd_def)
  then have "MessageBroadcastToManagers w bm \<noteq> Inr w1" for w1
    using write_managers_stuck [OF assms(1), of "n_socks w" w]
    by (auto simp: MessageBroadcastToManagers_def bindR_Inr_iff)
  then show ?thesis using assms(3) by (auto simp: MessageBroadcast_def msg_access bindR_Inr_iff)
qed



text \<open>A connection that cannot be made is remembered as NULL.\<close>

lemma NegotiationWithManager_refused:
  assumes "\<not> me_connected e"
  shows "NegotiationWithManager now pid e w =
    Inr (None, w\<lparr>m_uniqId := word_of_int (now + pid), cs_next := Suc (cs_next w),
      n_socks := (n_socks w)(cs_next w := None), n_kern := (n_kern w)(me_fd e := None),
      n_epoll := (n_epoll w)(me_fd e := None)\<rparr>)"
  using assms by (simp add: NegotiationWithManager_def socket_new_def delete_socket_def Let_def)

lemma ConnectToMgr_keeps:
  "ConnectToMgr now pid es w = Inr w' \<Longrightarrow> set (m_lstChatManagerSocket w) \<subseteq> set (m_lstChatManagerSocket w')"
proof (induction es arbitrary: w)
  case (Cons e es)
  then obtain p w1 where w1: "NegotiationWithManager (now (length es)) pid e w = Inr (p, w1)"
      "ConnectToMgr now pid es (w1\<lparr>m_lstChatManagerSocket := m_lstChatManagerSocket w1 @ [p]\<rparr>) = Inr w'"
    by (auto simp: bindR_Inr_iff)
  have "m_lstChatManagerSocket w1 = m_lstChatManagerSocket w"
    using w1(1)
    by (auto simp: NegotiationWithManager_def socket_new_def Let_def bindR_Inr_iff delete_socket_def
        write_at_def SetMaxUser_def split: if_splits option.splits)
  then show ?case using Cons.IH [OF w1(2)] by auto
qed simp

lemma ConnectToMgr_refused:
  "e \<in> set es \<Longrightarrow> \<not> me_connected e \<Longrightarrow> ConnectToMgr now pid es w = Inr w' \<Longrightarrow>
     None \<in> set (m_lstChatManagerSocket w')"
proof (induction es arbitrary: w)
  case (Cons x es)
  then obtain p w1 where w1: "NegotiationWithManager (now (length es)) pid x w = Inr (p, w1)"
      "ConnectToMgr now pid es (w1\<lparr>m_lstChatManagerSocket := m_lstChatManagerSocket w1 @ [p]\<rparr>) = Inr w'"
    by (auto simp: bindR_Inr_iff)
  show ?case
  proof (cases "x = e")
    case True
    then have "p = None" using w1(1) NegotiationWithManager_refused Cons.prems(2) by auto
    then show ?thesis using ConnectToMgr_keeps [OF w1(2)] by auto
  next
    case False
    then show ?thesis using Cons.IH [OF _ Cons.prems(2) w1(2)] Cons.prems(1) by simp
  qed
qed simp

lemma AcceptClient_null: "AcceptClient bd junk t w None type = Inl NullDeref"
  by (simp add: AcceptClient_def Let_def Client_GetSocket_def SetMainProcess_def Client_SetType_def
      ChatUser_new_def Client.defs Client_new_socket_def)

lemma register_managers_stuck: "None \<in> set ps \<Longrightarrow> register_managers bd junk t w ps \<noteq> Inr w'"
proof (induction ps arbitrary: w)
  case (Cons p ps)
  then show ?case by (cases p) (auto simp: AcceptClient_null bindR_Inr_iff)
qed simp

text \<open>C34: When one of the configured managers refuses the connection, a \<open>ConnectToMgr\<close> that completes has
  recorded a NULL pointer; afterwards \<open>RegisterManager\<close> and every broadcast of a user's message run
  into that pointer and never complete.\<close>

theorem refused_manager_breaks_server:
  assumes "e \<in> set es" "\<not> me_connected e" "ConnectToMgr now pid es w = Inr w'"
    "messageType bm \<noteq> RELAYED_MESSAGE"
  shows "None \<in> set (m_lstChatManagerSocket w') \<and> (\<forall>w''. RegisterManager bd junk t w' \<noteq> Inr w'') \<and>
    (\<forall>w''. MessageBroadcast w' bm \<noteq> Inr w'')"
proof -
  have "None \<in> set (m_lstChatManagerSocket w')" by (rule ConnectToMgr_refused [OF assms(1-3)])
  then show ?thesis
    using MessageBroadcast_stuck [of None] assms(4) register_managers_stuck
    by (simp add: RegisterManager_def)
qed

definition demo_refusal :: mgr_env where
  "demo_refusal = \<lparr>me_fd = 8, me_sock = Socket_new 8 [] [], me_connected = False, me_reply = None\<rparr>"

theorem refused_manager_breaks_server_witness:
  "\<exists>w'. ConnectToMgr (\<lambda>_. 1) 1 [demo_refusal] demo_server = Inr w' \<and>
     (\<forall>w''. MessageBroadcast w' demo_message \<noteq> Inr w'')"
proof -
  obtain w' where w': "ConnectToMgr (\<lambda>_. 1) 1 [demo_refusal] demo_server = Inr w'"
    using NegotiationWithManager_refused [of demo_refusal] by (simp add: demo_refusal_def)
  then show ?thesis
    using refused_manager_breaks_server [of demo_refusal "[demo_refusal]" _ _ demo_server w' demo_message]
    by (simp add: demo_refusal_def del: ConnectToMgr.simps)
qed

section \<open>Health check\<close>

text \<open>What the scan of \<open>HealthCheckUsers\<close> keeps of a list: after a removal it goes on behind the next
  element, and a removal at the end of the list increments the end iterator.\<close>

fun sweep :: "('a \<Rightarrow> bool) \<Rightarrow> 'a list \<Rightarrow> 'a list option" where
  "sweep dead [] = Some []"
| "sweep dead [a] = (if dead a then None else Some [a])"
| "sweep dead (a # b # as) =
     map_option ((#) (if dead a then b else a)) (sweep dead (if dead a then as else b # as))"

definition idle :: "int \<Rightarrow> ChatServer \<Rightarrow> nat \<Rightarrow> bool" where
  "idle now w a = (case cs_clients w a of None \<Rightarrow> False | Some c \<Rightarrow> now - m_tAccessTime c > TIME_ALIVE)"

lemma successively_live:
  "\<not> dead b \<Longrightarrow> successively (\<lambda>x y. dead x \<longrightarrow> \<not> dead y) (b # as) =
     successively (\<lambda>x y. dead x \<longrightarrow> \<not> dead y) as"
  by (cases as) simp_all

lemma sweep_filter_iff:
  "sweep dead as = Some (filter (\<lambda>a. \<not> dead a) as) \<longleftrightarrow>
     successively (\<lambda>x y. dead x \<longrightarrow> \<not> dead y) as \<and> (as = [] \<or> \<not> dead (last as))"
proof (induction dead as rule: sweep.induct)
  case (3 dead a b as)
  show ?case
  proof (cases "dead a")
    case False
    then show ?thesis using 3 by (auto simp: successively_live)
  next
    case a: True
    show ?thesis
    proof (cases "dead b")
      case True
      have "b # l \<noteq> filter (\<lambda>a. \<not> dead a) as" for l
        using True by (metis list.set_intros(1) mem_Collect_eq set_filter)
      then show ?thesis using a True by auto
    next
      case False
      then show ?thesis using a 3 by (auto simp: successively_live)
    qed
  qed
qed simp_all

lemma sweep_subset: "sweep dead as = Some l \<Longrightarrow> set l \<subseteq> set as"
proof (induction dead as arbitrary: l rule: sweep.induct)
  case (3 dead a b as)
  then show ?case by (cases "dead a") auto
qed (auto split: if_splits)

lemma sweep_cong: "(\<And>a. a \<in> set as \<Longrightarrow> d a = e a) \<Longrightarrow> sweep d as = sweep e as"
proof (induction d as rule: sweep.induct)
  case (3 dead a b as)
  then show ?case by (cases "dead a") simp_all
qed simp_all

lemma health_step:
  assumes wf: "cs_wf w" and a: "a \<in> set (m_lstClient w)" "idle now w a"
  obtains p fd where "health_scan now w (a # as) =
      (case as of [] \<Rightarrow> Inl BadIterator | b # bs \<Rightarrow> health_scan now (closed w a p fd) bs)"
    "cs_wf (closed w a p fd)"
proof -
  obtain c p fd where c: "cs_clients w a = Some c" "m_cSocket c = Some p" "n_socks w p = Some fd"
      "CloseClient w a = Inr (closed w a p fd)" "cs_wf (closed w a p fd)"
    by (rule CloseClient_ok [OF wf a(1)])
  have "remove1 a (m_lstClient w) = removeAll a (m_lstClient w)"
    using cs_wf_list(1) [OF wf] by (rule distinct_remove1_removeAll)
  moreover obtain r w1 w2 where w1: "IOMP_EPoll_DelClient w (Client_GetSocket c) = Inr (r, w1)"
      "delete_client (w1\<lparr>m_lstClient := removeAll a (m_lstClient w1)\<rparr>) a = Inr w2"
      "closed w a p fd = w2\<lparr>m_iConnCount := m_iConnCount w2 - 1\<rparr>"
    using c(4) by (auto simp: CloseClient_def c(1) bindR_Inr_iff)
  moreover have "m_lstClient w1 = m_lstClient w"
    using w1(1) by (auto simp: IOMP_EPoll_DelClient_def IOMP_EPoll_DelFd_def bindR_Inr_iff split: if_splits)
  ultimately have "health_scan now w (a # as) =
      (case as of [] \<Rightarrow> Inl BadIterator | b # bs \<Rightarrow> health_scan now (closed w a p fd) bs)"
    using c(1) a(2) by (simp add: idle_def GetAccessTime_def split: list.split)
  then show thesis using that c(5) by blast
qed

lemma idle_closed: "a \<noteq> b \<Longrightarrow> idle now (closed w a p fd) b = idle now w b"
  by (simp add: idle_def)

lemma health_scan_sweep:
  assumes "cs_wf w" "m_lstClient w = pre @ as"
  shows "case sweep (idle now w) as of
     None \<Rightarrow> health_scan now w as = Inl BadIterator
   | Some l \<Rightarrow> \<exists>w'. health_scan now w as = Inr w' \<and> cs_wf w' \<and> m_lstClient w' = pre @ l \<and>
       cs_clients w' = cs_clients w |` set (pre @ l)"
  using assms
proof (induction as arbitrary: w pre rule: length_induct)
  case (1 as)
  have all: "cs_clients w |` set (pre @ as) = cs_clients w"
    using cs_wf_list(2) [OF "1.prems"(1)] "1.prems"(2) by (auto simp: restrict_map_def domIff)
  show ?case
  proof (cases as)
    case Nil
    then show ?thesis using "1.prems" all by simp
  next
    case (Cons a bs)
    have a: "a \<in> set (m_lstClient w)" using Cons "1.prems"(2) by simp
    obtain c where c: "cs_clients w a = Some c" using a cs_wf_listed [OF "1.prems"(1)] by blast
    show ?thesis
    proof (cases "idle now w a")
      case False
      then have step: "health_scan now w as = health_scan now w bs" "sweep (idle now w) as =
          map_option (Cons a) (sweep (idle now w) bs)"
        using Cons c by (simp_all add: idle_def GetAccessTime_def) (cases bs; simp add: idle_def)
      show ?thesis
        using "1.IH" [rule_format, of bs w "pre @ [a]"] "1.prems" Cons unfolding step
        by (auto split: option.splits)
    next
      case idle: True
      obtain p fd where step: "health_scan now w (a # bs) =
          (case bs of [] \<Rightarrow> Inl BadIterator | b # ds \<Rightarrow> health_scan now (closed w a p fd) ds)"
          "cs_wf (closed w a p fd)"
        by (rule health_step [OF "1.prems"(1) a idle])
      show ?thesis
      proof (cases bs)
        case Nil
        then show ?thesis using step Cons idle by simp
      next
        case bs: (Cons b ds)
        let ?w = "closed w a p fd"
        have d: "distinct (pre @ a # b # ds)" using cs_wf_list(1) [OF "1.prems"(1)] "1.prems"(2) Cons bs by simp
        then have lst: "m_lstClient ?w = (pre @ [b]) @ ds"
          using "1.prems"(2) Cons bs by (simp add: removeAll_id)
        have same: "sweep (idle now ?w) ds = sweep (idle now w) ds"
        proof (rule sweep_cong)
          fix x assume "x \<in> set ds"
          then have "a \<noteq> x" using d by auto
          then show "idle now ?w x = idle now w x" by (rule idle_closed)
        qed
        have "case sweep (idle now ?w) ds of None \<Rightarrow> health_scan now ?w ds = Inl BadIterator
          | Some l \<Rightarrow> \<exists>w'. health_scan now ?w ds = Inr w' \<and> cs_wf w' \<and> m_lstClient w' = (pre @ [b]) @ l \<and>
              cs_clients w' = cs_clients ?w |` set ((pre @ [b]) @ l)"
          using "1.IH" [rule_format, of ds ?w "pre @ [b]"] step(2) lst Cons bs by simp
        moreover have "cs_clients ?w |` set ((pre @ [b]) @ l) = cs_clients w |` set (pre @ b # l)"
          if "sweep (idle now w) ds = Some l" for l
          using d sweep_subset [OF that] by (auto simp: restrict_map_def fun_eq_iff)
        ultimately show ?thesis
          unfolding same using Cons bs idle step(1) by (auto split: option.splits)
      qed
    qed
  qed
qed

text \<open>C31: \<open>HealthCheckUsers\<close> closes the users its scan (\<open>sweep\<close>) meets idle for more than \<open>TIME_ALIVE\<close>, keeps
  the rest in order with the bookkeeping intact, or increments the end iterator; it does what it is
  for, closing exactly the idle users, if and only if no two neighbours in the list are idle and the
  last user is not.\<close>

theorem HealthCheckUsers_sweeps:
  assumes "cs_wf w"
  shows "(case sweep (idle now w) (m_lstClient w) of
       None \<Rightarrow> HealthCheckUsers now w = Inl BadIterator
     | Some l \<Rightarrow> \<exists>w'. HealthCheckUsers now w = Inr w' \<and> cs_wf w' \<and> m_lstClient w' = l \<and>
         cs_clients w' = cs_clients w |` set l) \<and>
    ((\<exists>w'. HealthCheckUsers now w = Inr w' \<and> m_lstClient w' = filter (\<lambda>a. \<not> idle now w a) (m_lstClient w)) \<longleftrightarrow>
     successively (\<lambda>a b. idle now w a \<longrightarrow> \<not> idle now w b) (m_lstClient w) \<and>
     (m_lstClient w = [] \<or> \<not> idle now w (last (m_lstClient w))))"
  using health_scan_sweep [OF assms, of "[]" "m_lstClient w" now]
  unfolding sweep_filter_iff [symmetric] HealthCheckUsers_def
  by (auto split: option.splits)

theorem HealthCheckUsers_sweeps_witness:
  "\<exists>w'. HealthCheckUsers 5 demo_server = Inr w' \<and> m_lstClient w' = [10, 11, 12]"
proof -
  have "idle 5 demo_server a = False" for a
    by (simp add: idle_def new_user_def SetMainProcess_def Client_SetType_def ChatUser_new_def Client.defs
        Client_new_socket_def TIME_ALIVE_def)
  then show ?thesis using HealthCheckUsers_sweeps [OF demo_server_wf, of 5] by auto
qed

text \<open>C24: From any well-formed state with at most \<open>m_iMaxUser\<close> connections, any sequence of accept rounds and
  \<open>CloseClient\<close> calls on listed clients runs without a fault, keeps the bookkeeping (every listed client alive with
  its own open descriptor, \<open>m_iConnCount\<close> the length of the list) and never exceeds \<open>m_iMaxUser\<close>.\<close>

theorem server_connections_bounded:
  assumes "cs_wf w" "m_iConnCount w \<le> m_iMaxUser w"
    "conn_legal (accept_round bd junk now) CloseClient accept_ok m_lstClient w ops"
  shows "\<exists>w'. conn_run (accept_round bd junk now) CloseClient w ops = Inr w' \<and> cs_wf w' \<and>
    m_iConnCount w' = int (length (m_lstClient w')) \<and> m_iMaxUser w' = m_iMaxUser w \<and>
    m_iConnCount w' \<le> m_iMaxUser w'"
  by (rule server_conns.run_bounded [OF assms])

theorem server_connections_bounded_witness:
  "\<exists>w'. conn_run (accept_round BuildET (\<lambda>_. 0) 0) CloseClient demo_server
     [ConnClose 11, ConnOpen (Some (9, Socket_new 9 [] []))] = Inr w' \<and> m_iConnCount w' \<le> 10"
proof -
  obtain w1 where "CloseClient demo_server 11 = Inr w1" "w1 = closed demo_server 11 2 5"
    using CloseClient_eq [of demo_server 11 _ 2 5] by simp
  then have "conn_legal (accept_round BuildET (\<lambda>_. 0) 0) CloseClient accept_ok m_lstClient demo_server
     [ConnClose 11, ConnOpen (Some (9, Socket_new 9 [] []))]"
    by (auto simp: accept_ok_def fresh_fd_def split: sum.splits if_splits)
  then show ?thesis using server_connections_bounded [OF demo_server_wf] by fastforce
qed

end
