(* ===== verification/StdMap.thy ===== *)
theory StdMap
  imports Prelude "HOL-Library.List_Lexorder" "HOL-Library.Char_ord"
begin

text \<open>
  \<open>std::map\<close> as the code uses it (\<open>find\<close>, \<open>insert\<close>, \<open>operator[]\<close> as the target of an assignment,
  iteration in key order): the list of its pairs in ascending key order. \<open>std::string\<close> compares by
  character code, as the lexicographic order on \<open>string\<close> does. Also C strings in character arrays.
\<close>

section \<open>std::map\<close>

type_synonym ('k, 'v) std_map = "('k \<times> 'v) list"

definition std_find :: "('k, 'v) std_map \<Rightarrow> 'k \<Rightarrow> 'v option" where
  "std_find m k = map_of m k"

fun std_insert :: "('k :: linorder) \<Rightarrow> 'v \<Rightarrow> ('k, 'v) std_map \<Rightarrow> ('k, 'v) std_map" where
  \<comment> \<open>\<open>insert\<close>: an existing key keeps its value\<close>
  "std_insert k v [] = [(k, v)]"
| "std_insert k v ((k', v') # m) =
     (if k < k' then (k, v) # (k', v') # m
      else if k = k' then (k', v') # m
      else (k', v') # std_insert k v m)"

fun std_assign :: "('k :: linorder) \<Rightarrow> 'v \<Rightarrow> ('k, 'v) std_map \<Rightarrow> ('k, 'v) std_map" where
  \<comment> \<open>\<open>m[k] = v\<close>\<close>
  "std_assign k v [] = [(k, v)]"
| "std_assign k v ((k', v') # m) =
     (if k < k' then (k, v) # (k', v') # m
      else if k = k' then (k', v) # m
      else (k', v') # std_assign k v m)"

definition std_sorted :: "('k :: linorder, 'v) std_map \<Rightarrow> bool" where
  "std_sorted m \<longleftrightarrow> sorted_wrt (<) (map fst m)"

lemma std_empty: "std_sorted []" "std_find [] k = None"
  by (simp_all add: std_sorted_def std_find_def)

lemma std_insert_keys: "fst ` set (std_insert k v m) = insert k (fst ` set m)"
  by (induction k v m rule: std_insert.induct) auto

lemma std_assign_keys: "fst ` set (std_assign k v m) = insert k (fst ` set m)"
  by (induction k v m rule: std_assign.induct) auto

lemma std_insert_sorted: "std_sorted m \<Longrightarrow> std_sorted (std_insert k v m)"
proof (induction m)
  case (Cons p m)
  obtain k' v' where p: "p = (k', v')" by (cases p)
  have "\<forall>x \<in> fst ` set (std_insert k v m). k' < x" if "k' < k"
    using Cons.prems that unfolding std_insert_keys by (auto simp: std_sorted_def p)
  then show ?case using Cons by (auto simp: std_sorted_def p)
qed (simp add: std_sorted_def)

lemma std_assign_sorted: "std_sorted m \<Longrightarrow> std_sorted (std_assign k v m)"
proof (induction m)
  case (Cons p m)
  obtain k' v' where p: "p = (k', v')" by (cases p)
  have "\<forall>x \<in> fst ` set (std_assign k v m). k' < x" if "k' < k"
    using Cons.prems that unfolding std_assign_keys by (auto simp: std_sorted_def p)
  then show ?case using Cons by (auto simp: std_sorted_def p)
qed (simp add: std_sorted_def)

lemma std_find_below: "std_sorted ((k', v') # m) \<Longrightarrow> k < k' \<Longrightarrow> std_find m k = None"
  by (auto simp: std_sorted_def std_find_def map_of_eq_None_iff)

lemma std_find_insert:
  "std_sorted m \<Longrightarrow> std_find (std_insert k v m) k' =
     (if k' = k then Some (case std_find m k of None \<Rightarrow> v | Some w \<Rightarrow> w) else std_find m k')"
proof (induction m)
  case (Cons p m)
  obtain a b where p: "p = (a, b)" by (cases p)
  have m: "std_sorted m" using Cons.prems by (simp add: std_sorted_def)
  show ?case
    using Cons.IH [OF m] std_find_below [of a b m k] Cons.prems
    by (auto simp: p std_find_def split: option.splits)
qed (simp add: std_find_def)

lemma std_find_assign:
  "std_sorted m \<Longrightarrow> std_find (std_assign k v m) k' = (if k' = k then Some v else std_find m k')"
proof (induction m)
  case (Cons p m)
  obtain a b where p: "p = (a, b)" by (cases p)
  have m: "std_sorted m" using Cons.prems by (simp add: std_sorted_def)
  show ?case using Cons.IH [OF m] by (auto simp: p std_find_def)
qed (simp add: std_find_def)

lemma std_sorted_distinct: "std_sorted m \<Longrightarrow> distinct (map fst m)"
  by (auto simp: std_sorted_def strict_sorted_iff)

text \<open>A map is determined by what \<open>find\<close> says.\<close>

lemma std_sorted_ext:
  assumes m: "std_sorted m" and n: "std_sorted n" and eq: "\<And>k. std_find m k = std_find n k"
  shows "m = n"
proof -
  have "map_of m = map_of n" using eq by (auto simp: std_find_def)
  then have same: "set m = set n"
    using map_of_inject_set [OF std_sorted_distinct [OF m] std_sorted_distinct [OF n]] by simp
  have "inj_on fst (set m)" using std_sorted_distinct [OF m] by (simp add: distinct_map)
  then have "inj_on fst (set m \<union> set n)" using same by simp
  moreover have "sorted (map fst m)" "sorted (map fst n)"
    using m n by (simp_all add: std_sorted_def strict_sorted_iff)
  ultimately show ?thesis
    using map_sorted_distinct_set_unique std_sorted_distinct m n same by blast
qed

section \<open>Interface: a dictionary\<close>

locale dictionary =
  fixes inv :: "'m \<Rightarrow> bool"
    and empty :: 'm
    and find :: "'m \<Rightarrow> 'k \<Rightarrow> 'v option"
    and insert :: "'k \<Rightarrow> 'v \<Rightarrow> 'm \<Rightarrow> 'm"
    and assign :: "'k \<Rightarrow> 'v \<Rightarrow> 'm \<Rightarrow> 'm"
  assumes inv_empty: "inv empty" and find_empty: "find empty k = None"
    and inv_insert: "inv m \<Longrightarrow> inv (insert k v m)" and inv_assign: "inv m \<Longrightarrow> inv (assign k v m)"
    and find_insert: "inv m \<Longrightarrow> find (insert k v m) k' =
      (if k' = k then Some (case find m k of None \<Rightarrow> v | Some w \<Rightarrow> w) else find m k')"
    and find_assign: "inv m \<Longrightarrow> find (assign k v m) k' = (if k' = k then Some v else find m k')"
begin

text \<open>After any sequence of assignments a key has the value assigned to it last.\<close>

lemma inv_assigns: "inv m \<Longrightarrow> inv (fold (\<lambda>(k, v). assign k v) kvs m)"
  by (induction kvs arbitrary: m) (auto intro: inv_assign)

lemma find_assigns:
  "inv m \<Longrightarrow> find (fold (\<lambda>(k, v). assign k v) kvs m) k = (find m ++ map_of (rev kvs)) k"
proof (induction kvs arbitrary: m)
  case (Cons p kvs)
  obtain a b where p: "p = (a, b)" by (cases p)
  have "find (fold (\<lambda>(k, v). assign k v) kvs (assign a b m)) k = (find (assign a b m) ++ map_of (rev kvs)) k"
    by (rule Cons.IH) (rule inv_assign [OF Cons.prems])
  then show ?case
    using find_assign [OF Cons.prems, of a b k]
    by (auto simp: p map_add_def map_of_append split: option.splits)
qed simp

text \<open>An inserted key keeps its first value.\<close>

lemma insert_first: "inv m \<Longrightarrow> find (insert k w (insert k v m)) k = find (insert k v m) k"
  by (simp add: find_insert inv_insert)

end

interpretation std: dictionary std_sorted "[]" std_find "std_insert :: ('k :: linorder) \<Rightarrow> 'v \<Rightarrow> _" std_assign
  by unfold_locales
    (simp_all add: std_empty std_insert_sorted std_assign_sorted std_find_insert std_find_assign)

section \<open>C strings\<close>

definition NUL :: char where "NUL = CHR 0x00"

text \<open>The string that a character array holds; running off the array is a fault.\<close>

definition c_str :: "string \<Rightarrow> string res" where
  "c_str buf = (if NUL \<in> set buf then Inr (takeWhile (\<lambda>c. c \<noteq> NUL) buf) else Inl Unterminated)"

text \<open>\<open>strncpy(dst, src, n)\<close> for a terminated \<open>src\<close> into an array of at least \<open>n\<close> characters: padded
  with NUL, and not terminated when \<open>src\<close> does not fit.\<close>

definition strncpy :: "string \<Rightarrow> string \<Rightarrow> nat \<Rightarrow> string res" where
  "strncpy dst src n =
     (if length dst < n then Inl OutOfBounds
      else Inr (mem_put dst 0 (take n src @ replicate (n - length src) NUL)))"

definition isspace :: "char \<Rightarrow> bool" where
  "isspace c \<longleftrightarrow> c = CHR '' '' \<or> (9 \<le> (of_char c :: nat) \<and> (of_char c :: nat) \<le> 13)"
definition isdigit :: "char \<Rightarrow> bool" where
  "isdigit c \<longleftrightarrow> 48 \<le> (of_char c :: nat) \<and> (of_char c :: nat) \<le> 57"
definition isalnum :: "char \<Rightarrow> bool" where
  "isalnum c \<longleftrightarrow> isdigit c \<or> 65 \<le> (of_char c :: nat) \<and> (of_char c :: nat) \<le> 90 \<or>
     97 \<le> (of_char c :: nat) \<and> (of_char c :: nat) \<le> 122"

text \<open>\<open>atoi\<close>: white space, a sign, the longest run of digits; the value is cut to 32 bits.\<close>

definition digits_value :: "string \<Rightarrow> int" where
  "digits_value ds = foldl (\<lambda>v c. 10 * v + (int (of_char c) - 48)) 0 ds"

definition atoi :: "string \<Rightarrow> int" where
  "atoi s =
     (let t = dropWhile isspace s;
          (neg, u) = (if t \<noteq> [] \<and> hd t = CHR ''-'' then (True, tl t)
                      else if t \<noteq> [] \<and> hd t = CHR ''+'' then (False, tl t) else (False, t));
          v = digits_value (takeWhile isdigit u)
      in sint (word_of_int (if neg then - v else v) :: 32 word))"

lemma c_str_ok: "NUL \<notin> set s \<Longrightarrow> c_str (s @ NUL # rest) = Inr s"
  by (simp add: c_str_def takeWhile_append)

lemma strncpy_fits:
  assumes "length dst = n" "length src < n" "NUL \<notin> set src"
  shows "strncpy dst src n = Inr (src @ replicate (n - length src) NUL)"
    "c_str (src @ replicate (n - length src) NUL) = Inr src"
proof -
  show "strncpy dst src n = Inr (src @ replicate (n - length src) NUL)"
    using assms by (simp add: strncpy_def mem_put_whole)
  obtain k where "n - length src = Suc k" using assms(2) by (cases "n - length src") auto
  then show "c_str (src @ replicate (n - length src) NUL) = Inr src"
    using c_str_ok [OF assms(3)] by simp
qed

lemma strncpy_unterminated:
  assumes "length dst = n" "n \<le> length src" "NUL \<notin> set src"
  shows "bindR (strncpy dst src n) c_str = Inl Unterminated"
  using assms by (auto simp: strncpy_def mem_put_whole c_str_def dest: in_set_takeD)

lemma digits_value_snoc: "digits_value (ds @ [c]) = 10 * digits_value ds + (int (of_char c) - 48)"
  by (simp add: digits_value_def)

end
