(* ===== verification/PropertiesFile.thy ===== *)
theory PropertiesFile
  imports StdMap
begin

text \<open>
  \<open>Properties\<close> (src/Properties.cpp): the configuration file of both processes. A file is its text, or
  \<open>None\<close> when it cannot be opened. Lines are read into a block of 1024 characters, key and value into
  blocks of 512 that \<open>strncpy\<close> need not terminate. Also \<open>CNPUtil::LTrim\<close> and \<open>RTrim\<close>.
\<close>

section \<open>Trimming\<close>

definition LTrim :: "string \<Rightarrow> string" where
  "LTrim s = dropWhile isspace s"

fun rtrim_mark :: "string \<Rightarrow> nat \<Rightarrow> nat \<Rightarrow> nat" where
  \<comment> \<open>the loop of \<open>RTrim\<close>: \<open>str\<close> as an index; the mark is where the NUL goes (\<open>tmp + 1\<close>)\<close>
  "rtrim_mark [] i mark = mark"
| "rtrim_mark (c # cs) i mark = rtrim_mark cs (Suc i) (if isspace c then mark else Suc i)"

definition RTrim :: "string \<Rightarrow> string" where
  "RTrim s = take (rtrim_mark s 0 0) s"

section \<open>Properties\<close>

definition MAX_LINE_SIZE :: nat where "MAX_LINE_SIZE = 1024"
definition MAX_KEY_SIZE :: nat where "MAX_KEY_SIZE = 512"
definition MAX_VALUE_SIZE :: nat where "MAX_VALUE_SIZE = 512"

record Properties =
  m_strFileName :: string
  m_mapProperties :: "(string, string) std_map"

definition Properties_new :: Properties where
  "Properties_new = \<lparr>m_strFileName = [], m_mapProperties = []\<rparr>"

definition SetProperty :: "Properties \<Rightarrow> string \<Rightarrow> string \<Rightarrow> Properties" where
  "SetProperty p k v = p\<lparr>m_mapProperties := std_insert k v (m_mapProperties p)\<rparr>"

definition GetProperty :: "Properties \<Rightarrow> string \<Rightarrow> string" where
  "GetProperty p k = (case std_find (m_mapProperties p) k of None \<Rightarrow> [] | Some v \<Rightarrow> v)"

text \<open>\<open>strchr(line, '=')\<close>: the part before and the part behind.\<close>

definition split_eq :: "string \<Rightarrow> (string \<times> string) option" where
  "split_eq l =
     (case dropWhile (\<lambda>c. c \<noteq> CHR ''='') l of [] \<Rightarrow> None
      | _ # v \<Rightarrow> Some (takeWhile (\<lambda>c. c \<noteq> CHR ''='') l, v))"

text \<open>Key and value as C strings; the arrays are uninitialised (\<open>junk\<close>).\<close>

definition read_pair :: "string \<Rightarrow> string \<Rightarrow> string \<Rightarrow> (string \<times> string) option res" where
  "read_pair junk k v =
     bindR (strncpy junk k MAX_KEY_SIZE) (\<lambda>pchName.
     bindR (strncpy junk v MAX_VALUE_SIZE) (\<lambda>pchValue.
     bindR (c_str pchName) (\<lambda>name.
       if name = [] then Inr None
       else bindR (c_str pchValue) (\<lambda>value.
         if value = [] then Inr None else Inr (Some (name, value))))))"

definition AddMap :: "string \<Rightarrow> Properties \<Rightarrow> string \<Rightarrow> Properties res" where
  "AddMap junk p l =
     (case split_eq l of None \<Rightarrow> Inr p
      | Some (k, v) \<Rightarrow> bindR (read_pair junk k v) (\<lambda>r. case r of None \<Rightarrow> Inr p
          | Some (name, value) \<Rightarrow>
              Inr (p\<lparr>m_mapProperties := std_assign (RTrim (LTrim name)) (RTrim (LTrim value)) (m_mapProperties p)\<rparr>)))"

definition AddMap_to :: "string \<Rightarrow> (string, string) std_map \<Rightarrow> string \<Rightarrow> (string, string) std_map res" where
  \<comment> \<open>\<open>AddMap(char *, myMap &)\<close>: without trimming\<close>
  "AddMap_to junk m l =
     (case split_eq l of None \<Rightarrow> Inr m
      | Some (k, v) \<Rightarrow> bindR (read_pair junk k v) (\<lambda>r. case r of None \<Rightarrow> Inr m
          | Some (name, value) \<Rightarrow> Inr (std_assign name value m)))"

text \<open>\<open>ClsWSpace\<close>: blanks and tabs are squeezed out in place.\<close>

fun ClsWSpace :: "string \<Rightarrow> string" where
  "ClsWSpace [] = []"
| "ClsWSpace (c # cs) = (if c = CHR '' '' \<or> c = CHR 0x09 then ClsWSpace cs else c # ClsWSpace cs)"

text \<open>\<open>getline(pchLine, 1024)\<close> until it fails: at the end of the file, or at a line that does not fit.\<close>

definition NL :: char where "NL = CHR 0x0A"

function getlines :: "string \<Rightarrow> string list" where
  "getlines s =
     (if s = [] then []
      else let l = takeWhile (\<lambda>c. c \<noteq> NL) s; rest = dropWhile (\<lambda>c. c \<noteq> NL) s in
        if length l \<ge> MAX_LINE_SIZE then []
        else takeWhile (\<lambda>c. c \<noteq> NUL) l # getlines (drop 1 rest))"
  by pat_completeness auto
termination
proof (relation "measure length", goal_cases)
  case (2 s l rest)
  have "length (dropWhile (\<lambda>c. c \<noteq> NL) s) \<le> length s" by (rule length_dropWhile_le)
  moreover have "length s = length (takeWhile (\<lambda>c. c \<noteq> NL) s) + length (dropWhile (\<lambda>c. c \<noteq> NL) s)"
    by (metis length_append takeWhile_dropWhile_id)
  ultimately show ?case using 2 by (cases "dropWhile (\<lambda>c. c \<noteq> NL) s") auto
qed simp

declare getlines.simps [simp del]

fun load_lines :: "string \<Rightarrow> Properties \<Rightarrow> string list \<Rightarrow> Properties res" where
  "load_lines junk p [] = Inr p"
| "load_lines junk p (l # ls) =
     (if l = [] \<or> hd l = NL \<or> hd l = CHR ''#'' \<or> hd l = NUL then load_lines junk p ls
      else bindR (AddMap junk p l) (\<lambda>p'. load_lines junk p' ls))"

definition Load :: "string \<Rightarrow> Properties \<Rightarrow> string \<Rightarrow> string option \<Rightarrow> (int \<times> Properties) res" where
  "Load junk p name file =
     (let p1 = p\<lparr>m_strFileName := name\<rparr> in
      case file of None \<Rightarrow> Inr (-1, p1)
      | Some s \<Rightarrow> bindR (load_lines junk p1 (getlines s)) (\<lambda>p2. Inr (0, p2)))"

text \<open>\<open>Flush\<close>: every line is cut to 1023 characters by \<open>snprintf\<close>; the file is opened for reading and
  writing without being truncated, so what it held beyond the new text stays.\<close>

definition flush_line :: "string \<times> string \<Rightarrow> string" where
  "flush_line kv = take (MAX_LINE_SIZE - 1) (fst kv @ ''='' @ snd kv @ [NL])"

definition Flush :: "Properties \<Rightarrow> string option \<Rightarrow> string option" where
  "Flush p file =
     (case file of None \<Rightarrow> None
      | Some s \<Rightarrow> let out = concat (map flush_line (m_mapProperties p)) in Some (out @ drop (length out) s))"

section \<open>Lemmas\<close>

lemma rtrim_mark_append:
  "rtrim_mark (a @ b) i mark = rtrim_mark b (i + length a) (rtrim_mark a i mark)"
  by (induction a arbitrary: i mark) auto

lemma RTrim_simps: "RTrim [] = []" "RTrim (s @ [c]) = (if isspace c then RTrim s else s @ [c])"
proof -
  show "RTrim [] = []" by (simp add: RTrim_def)
  have "rtrim_mark s i m \<le> max m (i + length s)" for i m
  proof (induction s arbitrary: i m)
    case (Cons a s)
    show ?case using Cons [of "Suc i" "if isspace a then m else Suc i"] by (simp add: max_def split: if_splits)
  qed simp
  from this [of 0 0] show "RTrim (s @ [c]) = (if isspace c then RTrim s else s @ [c])"
    by (simp add: RTrim_def rtrim_mark_append)
qed

text \<open>\<open>RTrim\<close> is the mirror image of \<open>LTrim\<close>.\<close>

lemma RTrim_rev: "RTrim s = rev (dropWhile isspace (rev s))"
  by (induction s rule: rev_induct) (simp_all add: RTrim_simps)

text \<open>Text that \<open>AddMap\<close> reads back as it is.\<close>

definition clean :: "string \<Rightarrow> bool" where
  "clean s \<longleftrightarrow> s \<noteq> [] \<and> length s < 512 \<and> \<not> isspace (hd s) \<and> \<not> isspace (last s) \<and> NUL \<notin> set s \<and> NL \<notin> set s"

definition clean_key :: "string \<Rightarrow> bool" where
  "clean_key s \<longleftrightarrow> clean s \<and> CHR ''='' \<notin> set s \<and> hd s \<noteq> CHR ''#''"

lemma clean_trim: "clean s \<Longrightarrow> RTrim (LTrim s) = s"
proof -
  assume s: "clean s"
  then have "LTrim s = s" by (cases s) (simp_all add: LTrim_def clean_def)
  moreover have "RTrim s = s" using s by (cases s rule: rev_cases) (simp_all add: RTrim_simps clean_def)
  ultimately show ?thesis by simp
qed

lemma split_eq_key: "CHR ''='' \<notin> set k \<Longrightarrow> split_eq (k @ CHR ''='' # v) = Some (k, v)"
proof -
  assume "CHR ''='' \<notin> set k"
  then have "\<forall>c \<in> set k. c \<noteq> CHR ''=''" by auto
  then show ?thesis
    by (simp add: split_eq_def dropWhile_append2 takeWhile_append2)
qed

lemma read_pair_clean:
  assumes "length junk = 512" "length k < 512" "length v < 512" "NUL \<notin> set k" "NUL \<notin> set v" "k \<noteq> []" "v \<noteq> []"
  shows "read_pair junk k v = Inr (Some (k, v))"
  using strncpy_fits [of junk 512 k] strncpy_fits [of junk 512 v] assms
  by (simp add: read_pair_def MAX_KEY_SIZE_def MAX_VALUE_SIZE_def)

lemma AddMap_clean:
  assumes "length junk = 512" "clean_key k" "clean v"
  shows "AddMap junk p (k @ CHR ''='' # v) = Inr (p\<lparr>m_mapProperties := std_assign k v (m_mapProperties p)\<rparr>)"
proof -
  have "read_pair junk k v = Inr (Some (k, v))"
    by (rule read_pair_clean) (use assms in \<open>auto simp: clean_key_def clean_def\<close>)
  then show ?thesis
    using assms split_eq_key [of k v] by (simp add: AddMap_def clean_key_def clean_trim)
qed

lemma getlines_line:
  assumes "NL \<notin> set l" "NUL \<notin> set l" "length l < 1024"
  shows "getlines (l @ NL # s) = l # getlines s"
proof -
  have n: "\<forall>c \<in> set l. c \<noteq> NL" "\<forall>c \<in> set l. c \<noteq> NUL" using assms by auto
  then have "takeWhile (\<lambda>c. c \<noteq> NL) (l @ NL # s) = l" "dropWhile (\<lambda>c. c \<noteq> NL) (l @ NL # s) = NL # s"
    "takeWhile (\<lambda>c. c \<noteq> NUL) l = l"
    by (simp_all add: dropWhile_append2 takeWhile_append2 takeWhile_eq_all_conv)
  then show ?thesis
    using assms(3) by (subst getlines.simps) (simp add: Let_def MAX_LINE_SIZE_def)
qed

lemma flush_line_clean:
  assumes "clean_key k" "clean v" "length k + length v < 1022"
  shows "flush_line (k, v) = (k @ CHR ''='' # v) @ [NL]"
    "NL \<notin> set (k @ CHR ''='' # v)" "NUL \<notin> set (k @ CHR ''='' # v)" "length (k @ CHR ''='' # v) < 1024"
  using assms by (auto simp: flush_line_def MAX_LINE_SIZE_def clean_key_def clean_def NL_def NUL_def)

definition clean_map :: "(string, string) std_map \<Rightarrow> bool" where
  "clean_map m \<longleftrightarrow> std_sorted m \<and> (\<forall>(k, v) \<in> set m. clean_key k \<and> clean v \<and> length k + length v < 1022)"

lemma load_flushed:
  assumes "length junk = 512" "\<forall>(k, v) \<in> set m. clean_key k \<and> clean v \<and> length k + length v < 1022"
  shows "load_lines junk p (getlines (concat (map flush_line m) @ s)) =
    load_lines junk (p\<lparr>m_mapProperties := fold (\<lambda>(k, v). std_assign k v) m (m_mapProperties p)\<rparr>) (getlines s)"
  using assms(2)
proof (induction m arbitrary: p)
  case Nil
  then show ?case by simp
next
  case (Cons kv m)
  obtain k v where kv: "kv = (k, v)" by (cases kv)
  then have c: "clean_key k" "clean v" "length k + length v < 1022" using Cons.prems by auto
  obtain c0 k0 where k: "k = c0 # k0" using c(1) by (cases k) (auto simp: clean_key_def clean_def)
  have h: "c0 \<noteq> NL" "c0 \<noteq> CHR ''#''" "c0 \<noteq> NUL" using c(1) unfolding k clean_key_def clean_def by auto
  have "getlines (concat (map flush_line (kv # m)) @ s) = (k @ CHR ''='' # v) # getlines (concat (map flush_line m) @ s)"
    using getlines_line [OF flush_line_clean(2-4) [OF c]] flush_line_clean(1) [OF c] by (simp add: kv)
  then have "load_lines junk p (getlines (concat (map flush_line (kv # m)) @ s)) =
      load_lines junk (p\<lparr>m_mapProperties := std_assign k v (m_mapProperties p)\<rparr>) (getlines (concat (map flush_line m) @ s))"
    using AddMap_clean [OF assms(1) c(1,2)] h by (simp add: k)
  then show ?case using Cons by (simp add: kv)
qed

lemma map_of_rev_distinct: "distinct (map fst m) \<Longrightarrow> map_of (rev m) = map_of m"
  by (rule map_of_inject_set [THEN iffD2]) (simp_all add: rev_map [symmetric])

section \<open>Properties of the component\<close>

text \<open>C35: What \<open>Flush\<close> writes, \<open>Load\<close> into a fresh object reads back as the same map, for keys and values that
  survive a line (not empty, no surrounding white space, below 512 characters each, 1021 together),
  when the file was empty; a file that was longer keeps its old text from there on (\<open>Flush\<close> does not
  truncate), and \<open>Load\<close> reads those leftover lines into the map as well.\<close>

theorem Properties_roundtrip:
  assumes "length junk = 512" "clean_map (m_mapProperties p)"
  shows "Flush p (Some []) = Some (concat (map flush_line (m_mapProperties p))) \<and>
    Load junk Properties_new name (Flush p (Some [])) = Inr (0, p\<lparr>m_strFileName := name\<rparr>) \<and>
    Load junk Properties_new name (Flush p (Some s)) =
      bindR (load_lines junk (p\<lparr>m_strFileName := name\<rparr>) (getlines (drop (length (concat (map flush_line (m_mapProperties p)))) s)))
        (\<lambda>q'. Inr (0, q'))"
proof -
  let ?m = "m_mapProperties p"
  have sorted: "std_sorted ?m" using assms(2) by (simp add: clean_map_def)
  have inv: "std_sorted (fold (\<lambda>(k, v). std_assign k v) ?m [])"
    by (rule std.inv_assigns) (simp add: std.inv_empty)
  have "std_find (fold (\<lambda>(k, v). std_assign k v) ?m []) k = std_find ?m k" for k
    using std.find_assigns [OF std.inv_empty, of ?m k] std_sorted_distinct [OF sorted]
    by (simp add: std_find_def map_add_def map_of_rev_distinct split: option.splits)
  then have same: "fold (\<lambda>(k, v). std_assign k v) ?m [] = ?m" by (rule std_sorted_ext [OF inv sorted])
  have "load_lines junk (Properties_new\<lparr>m_strFileName := name\<rparr>) (getlines (concat (map flush_line ?m) @ t)) =
      load_lines junk (p\<lparr>m_strFileName := name\<rparr>) (getlines t)" for t
    using load_flushed [OF assms(1), of ?m "Properties_new\<lparr>m_strFileName := name\<rparr>" t] assms(2) same
    by (cases p) (simp add: clean_map_def Properties_new_def)
  from this [of "[]"] this show ?thesis
    by (simp add: Flush_def Load_def Let_def getlines.simps [of "[]"])
qed

theorem Properties_roundtrip_witness:
  "Load (replicate 512 CHR ''x'') Properties_new ''f''
     (Flush \<lparr>m_strFileName = [], m_mapProperties = [(''a'', ''1''), (''b'', ''2'')]\<rparr> (Some [])) =
   Inr (0, \<lparr>m_strFileName = ''f'', m_mapProperties = [(''a'', ''1''), (''b'', ''2'')]\<rparr>)"
proof -
  let ?p = "\<lparr>m_strFileName = [], m_mapProperties = [(''a'', ''1''), (''b'', ''2'')]\<rparr>"
  have "clean_map (m_mapProperties ?p)"
    by (simp add: clean_map_def std_sorted_def clean_key_def clean_def isspace_def NUL_def NL_def)
  from Properties_roundtrip [OF length_replicate this, THEN conjunct2, THEN conjunct1, of "CHR ''x''" "''f''"]
  show ?thesis by (simp only: Properties.update_convs)
qed

text \<open>A line without NUL faults in \<open>AddMap\<close> exactly when its key has 512 characters or more, or its key is
  not empty and its value has: \<open>strncpy\<close> then leaves the array without a terminator and \<open>strlen\<close> runs
  off it.\<close>

theorem AddMap_fault_iff:
  assumes "length junk = 512" "NUL \<notin> set l"
  shows "AddMap junk p l = Inl e \<longleftrightarrow> e = Unterminated \<and>
    (\<exists>k v. split_eq l = Some (k, v) \<and> (512 \<le> length k \<or> k \<noteq> [] \<and> 512 \<le> length v))"
proof (cases "split_eq l")
  case None
  then show ?thesis by (simp add: AddMap_def)
next
  case (Some kv)
  obtain k v where kv: "kv = (k, v)" by (cases kv)
  have sub: "set k \<subseteq> set l" "set v \<subseteq> set l"
    using Some set_dropWhileD [of _ "\<lambda>c. c \<noteq> CHR ''=''" l]
    by (auto simp: split_eq_def kv split: list.splits dest: set_takeWhileD)
  have buf: "bindR (strncpy junk s 512) c_str = (if length s < 512 then Inr s else Inl Unterminated)"
    if "set s \<subseteq> set l" for s
  proof -
    have "NUL \<notin> set s" using that assms(2) by blast
    then show ?thesis
      using strncpy_fits [OF assms(1), of s] strncpy_unterminated [OF assms(1), of s] by simp
  qed
  obtain bk bv where b: "strncpy junk k 512 = Inr bk" "strncpy junk v 512 = Inr bv"
    using assms(1) by (simp add: strncpy_def)
  have "read_pair junk k v = (if 512 \<le> length k then Inl Unterminated else if k = [] then Inr None
      else if 512 \<le> length v then Inl Unterminated else if v = [] then Inr None else Inr (Some (k, v)))"
    using buf [OF sub(1)] buf [OF sub(2)] by (simp add: read_pair_def MAX_KEY_SIZE_def MAX_VALUE_SIZE_def b)
  then show ?thesis using Some by (auto simp: AddMap_def kv)
qed

theorem AddMap_fault_iff_witness:
  "AddMap (replicate 512 CHR ''x'') Properties_new (replicate 512 CHR ''k'' @ ''=v'') = Inl Unterminated"
proof -
  let ?j = "replicate 512 CHR ''x''" and ?k = "replicate 512 CHR ''k''" and ?l = "replicate 512 CHR ''k'' @ ''=v''"
  have "split_eq ?l = Some (?k, ''v'')" by (rule split_eq_key) simp
  then have ex: "\<exists>k v. split_eq ?l = Some (k, v) \<and> (512 \<le> length k \<or> k \<noteq> [] \<and> 512 \<le> length v)"
    using length_replicate [of 512 "CHR ''k''"] by (metis order_refl)
  have j: "length ?j = 512" by (rule length_replicate)
  have n: "NUL \<notin> set ?l" by (simp add: NUL_def)
  show ?thesis using AddMap_fault_iff [OF j n, of Properties_new Unterminated] ex by blast
qed

end
