(* ===== verification/ServerInfo.thy ===== *)
theory ServerInfo
  imports PropertiesFile
begin

text \<open>
  The settings of the two processes, read from their \<open>Properties\<close>: \<open>ServerInfoDN\<close>
  (src/ServerInfoDN.cpp, for \<open>ChatServer\<close>) and \<open>ServerInfoDNMgr\<close> (src/ServerInfoDNMgr.cpp, for
  \<open>ChatManager\<close>). Members that a constructor does not set keep what the memory held (\<open>junk\<close>).
\<close>

section \<open>Keys\<close>

datatype ENUM_SERVERSOCKET_TYPE = SERVER_PORT | SERVER_PORT_MGR | SERVER_PORT_PC
datatype ENUM_THREAD_TYPE = THREAD_WORKER | THREAD_SENDER | THREAD_RECEIVER | THREAD_BROADCASTER

fun socket_type_code :: "ENUM_SERVERSOCKET_TYPE \<Rightarrow> nat" where
  "socket_type_code SERVER_PORT = 0"
| "socket_type_code SERVER_PORT_MGR = 1"
| "socket_type_code SERVER_PORT_PC = 2"

fun thread_type_code :: "ENUM_THREAD_TYPE \<Rightarrow> nat" where
  "thread_type_code THREAD_WORKER = 0"
| "thread_type_code THREAD_SENDER = 1"
| "thread_type_code THREAD_RECEIVER = 2"
| "thread_type_code THREAD_BROADCASTER = 3"

lemma socket_type_code_inj: "socket_type_code a = socket_type_code b \<longleftrightarrow> a = b"
  by (cases a; cases b) simp_all
lemma thread_type_code_inj: "thread_type_code a = thread_type_code b \<longleftrightarrow> a = b"
  by (cases a; cases b) simp_all

instantiation ENUM_SERVERSOCKET_TYPE :: linorder
begin

definition less_eq_ENUM_SERVERSOCKET_TYPE :: "ENUM_SERVERSOCKET_TYPE \<Rightarrow> ENUM_SERVERSOCKET_TYPE \<Rightarrow> bool" where
  "less_eq_ENUM_SERVERSOCKET_TYPE a b \<longleftrightarrow> socket_type_code a \<le> socket_type_code b"
definition less_ENUM_SERVERSOCKET_TYPE :: "ENUM_SERVERSOCKET_TYPE \<Rightarrow> ENUM_SERVERSOCKET_TYPE \<Rightarrow> bool" where
  "less_ENUM_SERVERSOCKET_TYPE a b \<longleftrightarrow> socket_type_code a < socket_type_code b"

instance
  by standard (auto simp: less_eq_ENUM_SERVERSOCKET_TYPE_def less_ENUM_SERVERSOCKET_TYPE_def
      socket_type_code_inj [symmetric])

end

instantiation ENUM_THREAD_TYPE :: linorder
begin

definition less_eq_ENUM_THREAD_TYPE :: "ENUM_THREAD_TYPE \<Rightarrow> ENUM_THREAD_TYPE \<Rightarrow> bool" where
  "less_eq_ENUM_THREAD_TYPE a b \<longleftrightarrow> thread_type_code a \<le> thread_type_code b"
definition less_ENUM_THREAD_TYPE :: "ENUM_THREAD_TYPE \<Rightarrow> ENUM_THREAD_TYPE \<Rightarrow> bool" where
  "less_ENUM_THREAD_TYPE a b \<longleftrightarrow> thread_type_code a < thread_type_code b"

instance
  by standard (auto simp: less_eq_ENUM_THREAD_TYPE_def less_ENUM_THREAD_TYPE_def
      thread_type_code_inj [symmetric])

end

section \<open>Reading one setting\<close>

definition MAX_IP_LEN :: nat where "MAX_IP_LEN = 20"
definition LOG_FILE_LEN :: nat where "LOG_FILE_LEN = 256"
definition MAX_URL :: nat where "MAX_URL = 256"
definition MAX_VOLUME :: nat where "MAX_VOLUME = 32"
definition MAX_DIRNAME :: nat where "MAX_DIRNAME = 32"

definition copy_setting :: "Properties \<Rightarrow> string \<Rightarrow> string \<Rightarrow> nat \<Rightarrow> string res" where
  \<comment> \<open>\<open>if(GetProperty(key) != "") strncpy(buf, ..., n)\<close>: the array afterwards\<close>
  "copy_setting p key buf n =
     (if GetProperty p key \<noteq> [] then strncpy buf (GetProperty p key) n else Inr buf)"

definition int_setting :: "Properties \<Rightarrow> string \<Rightarrow> int \<Rightarrow> int" where
  "int_setting p key old = (if GetProperty p key \<noteq> [] then atoi (GetProperty p key) else old)"

definition map_setting :: "Properties \<Rightarrow> string \<Rightarrow> ('k :: linorder) \<Rightarrow> ('k, int) std_map \<Rightarrow> ('k, int) std_map" where
  "map_setting p key k m =
     (if GetProperty p key \<noteq> [] then std_insert k (atoi (GetProperty p key)) m else m)"

section \<open>ServerInfoDNMgr\<close>

record ServerInfoDNMgr =
  mgr_mapServerPort :: "(ENUM_SERVERSOCKET_TYPE, int) std_map"
  mgr_mapThreadCount :: "(ENUM_THREAD_TYPE, int) std_map"
  mgr_iMaxUser :: int
  mgr_iDSMaxUser :: int
  mgr_iDNPort :: int
  mgr_iDNCnt :: int
  mgr_pchIPAddr :: string
  mgr_pchLogFile :: string
  mgr_pchMRTGURL :: string

definition ServerInfoDNMgr_new :: "ServerInfoDNMgr \<Rightarrow> ServerInfoDNMgr" where
  "ServerInfoDNMgr_new junk =
     \<lparr>mgr_mapServerPort = [], mgr_mapThreadCount = [], mgr_iMaxUser = 0, mgr_iDSMaxUser = 0,
      mgr_iDNPort = 0, mgr_iDNCnt = 1, mgr_pchIPAddr = replicate MAX_IP_LEN NUL,
      mgr_pchLogFile = mgr_pchLogFile junk, mgr_pchMRTGURL = replicate MAX_URL NUL\<rparr>"

definition ServerInfoDNMgr_of :: "ServerInfoDNMgr \<Rightarrow> Properties \<Rightarrow> ServerInfoDNMgr res" where
  "ServerInfoDNMgr_of junk p =
     bindR (copy_setting p ''SERVER_IP'' (replicate MAX_IP_LEN NUL) MAX_IP_LEN) (\<lambda>ip.
     bindR (copy_setting p ''SERVER_LOGFILE'' (replicate LOG_FILE_LEN NUL) LOG_FILE_LEN) (\<lambda>logf.
     bindR (copy_setting p ''MRTG_URL'' (mgr_pchMRTGURL junk) MAX_URL) (\<lambda>mrtg.
       Inr \<lparr>mgr_mapServerPort = map_setting p ''SERVER_PORT_DNMGR'' SERVER_PORT [],
            mgr_mapThreadCount = map_setting p ''THREAD_WORKER'' THREAD_WORKER [],
            mgr_iMaxUser = int_setting p ''DM_MAX_USER'' (mgr_iMaxUser junk),
            mgr_iDSMaxUser = int_setting p ''DS_MAX_USER'' (mgr_iDSMaxUser junk),
            mgr_iDNPort = int_setting p ''SERVER_PORT_DN'' (mgr_iDNPort junk),
            mgr_iDNCnt = int_setting p ''DN_CNT'' (mgr_iDNCnt junk),
            mgr_pchIPAddr = ip, mgr_pchLogFile = logf, mgr_pchMRTGURL = mrtg\<rparr>)))"

definition mgr_GetMaxUser :: "ServerInfoDNMgr \<Rightarrow> int" where "mgr_GetMaxUser i = mgr_iMaxUser i"
definition mgr_GetDSMaxUser :: "ServerInfoDNMgr \<Rightarrow> int" where "mgr_GetDSMaxUser i = mgr_iDSMaxUser i"
definition mgr_GetDNPort :: "ServerInfoDNMgr \<Rightarrow> int" where "mgr_GetDNPort i = mgr_iDNPort i"
definition mgr_GetDNCnt :: "ServerInfoDNMgr \<Rightarrow> int" where "mgr_GetDNCnt i = mgr_iDNCnt i"
definition mgr_GetIPAddr :: "ServerInfoDNMgr \<Rightarrow> string res" where "mgr_GetIPAddr i = c_str (mgr_pchIPAddr i)"
definition mgr_GetLogFileName :: "ServerInfoDNMgr \<Rightarrow> string res" where
  "mgr_GetLogFileName i = c_str (mgr_pchLogFile i)"
definition mgr_GetPortMap :: "ServerInfoDNMgr \<Rightarrow> (ENUM_SERVERSOCKET_TYPE, int) std_map" where
  "mgr_GetPortMap i = mgr_mapServerPort i"
definition mgr_GetPort :: "ServerInfoDNMgr \<Rightarrow> ENUM_SERVERSOCKET_TYPE \<Rightarrow> int" where
  "mgr_GetPort i t = (case std_find (mgr_mapServerPort i) t of None \<Rightarrow> -1 | Some n \<Rightarrow> n)"
definition mgr_GetThreadCount :: "ServerInfoDNMgr \<Rightarrow> ENUM_THREAD_TYPE \<Rightarrow> int" where
  "mgr_GetThreadCount i t = (case std_find (mgr_mapThreadCount i) t of None \<Rightarrow> -1 | Some n \<Rightarrow> n)"

section \<open>ServerInfoDN\<close>

record ServerInfoDN =
  dn_mapServerPort :: "(ENUM_SERVERSOCKET_TYPE, int) std_map"
  dn_mapThreadCount :: "(ENUM_THREAD_TYPE, int) std_map"
  dn_iMaxUser :: int
  dn_pchIPAddr :: string
  dn_pchLogFile :: string
  dn_pchMRTGURL :: string
  dn_pchVolName :: string
  dn_pchDirName :: string
  dn_pchManagerIpAddresses :: string
  iBandwidth :: "32 word list"

definition ServerInfoDN_new :: "ServerInfoDN \<Rightarrow> ServerInfoDN" where
  "ServerInfoDN_new junk =
     junk\<lparr>dn_mapServerPort := [], dn_mapThreadCount := [], dn_iMaxUser := 0,
          dn_pchIPAddr := replicate MAX_IP_LEN NUL, dn_pchMRTGURL := replicate MAX_URL NUL,
          dn_pchVolName := replicate MAX_VOLUME NUL, dn_pchDirName := replicate MAX_DIRNAME NUL,
          dn_pchManagerIpAddresses := replicate MAX_URL NUL\<rparr>"

text \<open>\<open>DefineBandwidth\<close>: the suffix is cut off into an array of ten characters.\<close>

definition atoi_without_suffix :: "string \<Rightarrow> int res" where
  "atoi_without_suffix s =
     bindR (strncpy (replicate 10 NUL) s (length s - 1)) (\<lambda>pchBand.
     bindR (c_str pchBand) (\<lambda>n. Inr (atoi n)))"

definition DefineBandwidth :: "string \<Rightarrow> 32 word res" where
  "DefineBandwidth s =
     (if s = [] then Inl OutOfBounds
      else if last s = CHR ''M'' \<or> last s = CHR ''m'' then
        bindR (atoi_without_suffix s) (\<lambda>n. Inr (word_of_int (n * 1024 * 1024)))
      else if last s = CHR ''K'' \<or> last s = CHR ''k'' then
        bindR (atoi_without_suffix s) (\<lambda>n. Inr (word_of_int (n * 1024)))
      else Inr (word_of_int (atoi s * 1024)))"

definition GetBandwidth :: "ServerInfoDN \<Rightarrow> byte \<Rightarrow> 32 word" where
  "GetBandwidth i ch =
     iBandwidth i ! (if 48 \<le> ch \<and> ch \<le> 57 then unat (ch - 48) else 0)"

text \<open>The constructor keeps a pointer into the string that \<open>GetProperty\<close> returned, which is gone
  before \<open>DefineBandwidth\<close> reads it.\<close>

definition bandwidth_keys :: "string list" where
  "bandwidth_keys = [''BAND_MAX'', ''BAND1'', ''BAND2'', ''BAND3'', ''BAND4'', ''BAND5'', ''BAND6'',
     ''BAND7'', ''BAND8'', ''BAND9'']"

fun bandwidth_settings :: "Properties \<Rightarrow> string list \<Rightarrow> unit res" where
  "bandwidth_settings p [] = Inr ()"
| "bandwidth_settings p (k # ks) =
     (if GetProperty p k \<noteq> [] then Inl UseAfterFree else bandwidth_settings p ks)"

definition ServerInfoDN_of :: "ServerInfoDN \<Rightarrow> Properties \<Rightarrow> ServerInfoDN res" where
  "ServerInfoDN_of junk p =
     bindR (copy_setting p ''SERVER_IP'' (replicate MAX_IP_LEN NUL) MAX_IP_LEN) (\<lambda>ip.
     bindR (copy_setting p ''DNMGR_SERVER_IPs'' (dn_pchManagerIpAddresses junk) MAX_URL) (\<lambda>mgrs.
     bindR (copy_setting p ''SERVER_LOGFILE'' (replicate LOG_FILE_LEN NUL) LOG_FILE_LEN) (\<lambda>logf.
     bindR (copy_setting p ''MRTG_URL'' (dn_pchMRTGURL junk) MAX_URL) (\<lambda>mrtg.
     bindR (copy_setting p ''VOLNAME'' (dn_pchVolName junk) MAX_VOLUME) (\<lambda>vol.
     bindR (copy_setting p ''DIRECTORY_NAME'' (dn_pchDirName junk) MAX_DIRNAME) (\<lambda>dir.
     bindR (bandwidth_settings p bandwidth_keys) (\<lambda>_.
       Inr \<lparr>dn_mapServerPort = map_setting p ''SERVER_PORT'' SERVER_PORT
                (map_setting p ''SERVER_PORT_DNMGR'' SERVER_PORT_MGR []),
            dn_mapThreadCount = map_setting p ''THREAD_BROADCASTER'' THREAD_BROADCASTER
                (map_setting p ''THREAD_RECEIVER'' THREAD_RECEIVER
                (map_setting p ''THREAD_SENDER'' THREAD_SENDER [])),
            dn_iMaxUser = dn_iMaxUser junk, dn_pchIPAddr = ip, dn_pchLogFile = logf,
            dn_pchMRTGURL = mrtg, dn_pchVolName = vol, dn_pchDirName = dir,
            dn_pchManagerIpAddresses = mgrs, iBandwidth = replicate 10 0\<rparr>)))))))"

definition dn_GetMaxUser :: "ServerInfoDN \<Rightarrow> int" where "dn_GetMaxUser i = dn_iMaxUser i"
definition dn_SetMaxUser :: "ServerInfoDN \<Rightarrow> int \<Rightarrow> ServerInfoDN" where
  "dn_SetMaxUser i n = i\<lparr>dn_iMaxUser := n\<rparr>"
definition dn_GetIPAddr :: "ServerInfoDN \<Rightarrow> string res" where "dn_GetIPAddr i = c_str (dn_pchIPAddr i)"
definition dn_GetLogFileName :: "ServerInfoDN \<Rightarrow> string res" where "dn_GetLogFileName i = c_str (dn_pchLogFile i)"
definition dn_GetManagerIpAddresses :: "ServerInfoDN \<Rightarrow> string res" where
  "dn_GetManagerIpAddresses i = c_str (dn_pchManagerIpAddresses i)"
definition dn_GetPortMap :: "ServerInfoDN \<Rightarrow> (ENUM_SERVERSOCKET_TYPE, int) std_map" where
  "dn_GetPortMap i = dn_mapServerPort i"
definition dn_GetPort :: "ServerInfoDN \<Rightarrow> ENUM_SERVERSOCKET_TYPE \<Rightarrow> int" where
  "dn_GetPort i t = (case std_find (dn_mapServerPort i) t of None \<Rightarrow> -1 | Some n \<Rightarrow> n)"
definition dn_GetThreadCount :: "ServerInfoDN \<Rightarrow> ENUM_THREAD_TYPE \<Rightarrow> int" where
  "dn_GetThreadCount i t = (case std_find (dn_mapThreadCount i) t of None \<Rightarrow> -1 | Some n \<Rightarrow> n)"

section \<open>Lemmas\<close>

lemma map_setting_sorted: "std_sorted m \<Longrightarrow> std_sorted (map_setting p key k m)"
  by (simp add: map_setting_def std.inv_insert)

lemma find_map_setting:
  "std_sorted m \<Longrightarrow> std_find (map_setting p key k m) k' =
     (if k' = k \<and> GetProperty p key \<noteq> [] then
        Some (case std_find m k of None \<Rightarrow> atoi (GetProperty p key) | Some w \<Rightarrow> w)
      else std_find m k')"
  by (simp add: map_setting_def std.find_insert)

lemma bandwidth_settings_ok:
  "bandwidth_settings p ks = (if \<forall>k \<in> set ks. GetProperty p k = [] then Inr () else Inl UseAfterFree)"
  by (induction ks) auto

lemma copy_setting_ok: "length buf = n \<Longrightarrow> \<exists>b. copy_setting p key buf n = Inr b \<and> length b = n"
  by (simp add: copy_setting_def strncpy_def)

lemma copy_setting_reads:
  assumes "length buf = n" "GetProperty p key \<noteq> []" "NUL \<notin> set (GetProperty p key)"
  shows "bindR (copy_setting p key buf n) c_str =
    (if length (GetProperty p key) < n then Inr (GetProperty p key) else Inl Unterminated)"
  using assms strncpy_fits [OF assms(1), of "GetProperty p key"]
    strncpy_unterminated [OF assms(1), of "GetProperty p key"]
  by (simp add: copy_setting_def)

section \<open>Decimal numbers\<close>

lemma digits_value_bounds:
  "\<forall>c \<in> set ds. isdigit c \<Longrightarrow> 0 \<le> digits_value ds \<and> digits_value ds < 10 ^ length ds"
proof (induction ds rule: rev_induct)
  case Nil
  then show ?case by (simp add: digits_value_def)
next
  case (snoc c ds)
  have "48 \<le> int (of_char c)" "int (of_char c) \<le> 57" using snoc.prems by (auto simp: isdigit_def)
  then show ?case using snoc by (simp add: digits_value_snoc)
qed

lemma isdigit_facts: "isdigit c \<Longrightarrow> \<not> isspace c \<and> c \<noteq> CHR ''-'' \<and> c \<noteq> CHR ''+'' \<and> c \<noteq> NUL \<and>
    c \<noteq> CHR ''M'' \<and> c \<noteq> CHR ''m'' \<and> c \<noteq> CHR ''K'' \<and> c \<noteq> CHR ''k''"
  by (auto simp: isdigit_def isspace_def NUL_def)

lemma atoi_digits:
  assumes "\<forall>c \<in> set ds. isdigit c" "length ds \<le> 9"
  shows "atoi ds = digits_value ds"
proof -
  have "(10 :: int) ^ length ds \<le> 10 ^ 9" using assms(2) by (rule power_increasing) simp
  then have v: "0 \<le> digits_value ds" "digits_value ds < 2 ^ 31"
    using digits_value_bounds [OF assms(1)] by (auto intro: order_less_le_trans)
  have "dropWhile isspace ds = ds" using assms(1) isdigit_facts by (cases ds) auto
  moreover have "takeWhile isdigit ds = ds" using assms(1) by (simp add: takeWhile_eq_all_conv)
  moreover have "ds \<noteq> [] \<Longrightarrow> hd ds \<noteq> CHR ''-'' \<and> hd ds \<noteq> CHR ''+''"
    using assms(1) isdigit_facts by (cases ds) auto
  moreover have "sint (word_of_int (digits_value ds) :: 32 word) = digits_value ds"
    using v by (simp add: sint_sbintrunc' signed_take_bit_int_eq_self)
  ultimately show ?thesis by (cases "ds = []") (simp_all add: atoi_def Let_def takeWhile_eq_all_conv [THEN iffD2])
qed

lemma atoi_without_suffix_eq:
  assumes "NUL \<notin> set ds"
  shows "atoi_without_suffix (ds @ [c]) =
    (if length ds < 10 then Inr (atoi ds) else if length ds = 10 then Inl Unterminated else Inl OutOfBounds)"
proof -
  have t: "take (length ds) (ds @ [c]) = ds" by simp
  show ?thesis
  proof (cases "length ds < 10")
    case True
    then obtain k where k: "10 - length ds = Suc k" by (cases "10 - length ds") auto
    have "mem_put (replicate 10 NUL) 0 ds = ds @ NUL # replicate k NUL"
      using True k by (simp add: mem_put_drop_0)
    then have "c_str (mem_put (replicate 10 NUL) 0 ds) = Inr ds" using c_str_ok [OF assms] by simp
    then show ?thesis using True by (simp add: atoi_without_suffix_def strncpy_def t)
  next
    case False
    show ?thesis
    proof (cases "length ds = 10")
      case True
      then have "mem_put (replicate 10 NUL) 0 ds = ds" by (simp add: mem_put_whole)
      then show ?thesis using True assms by (simp add: atoi_without_suffix_def strncpy_def t c_str_def)
    next
      case f: False
      then show ?thesis using False by (simp add: atoi_without_suffix_def strncpy_def)
    qed
  qed
qed

section \<open>Properties\<close>

text \<open>A bandwidth of up to nine digits is read in units of 1024 without a suffix and with \<open>K\<close> alike (a
  comment calls the former bytes), in units of 1048576 with \<open>M\<close>, in 32-bit arithmetic; with a suffix, ten digits leave the local array
  without a terminator and more overrun it.\<close>

theorem DefineBandwidth_units:
  assumes "\<forall>c \<in> set ds. isdigit c" "ds \<noteq> []"
  shows "(length ds \<le> 9 \<longrightarrow>
      DefineBandwidth ds = Inr (word_of_int (digits_value ds * 1024)) \<and>
      DefineBandwidth (ds @ ''K'') = DefineBandwidth ds \<and>
      DefineBandwidth (ds @ ''M'') = Inr (word_of_int (digits_value ds * 1048576))) \<and>
    (length ds = 10 \<longrightarrow> DefineBandwidth (ds @ ''K'') = Inl Unterminated \<and> DefineBandwidth (ds @ ''M'') = Inl Unterminated) \<and>
    (10 < length ds \<longrightarrow> DefineBandwidth (ds @ ''K'') = Inl OutOfBounds \<and> DefineBandwidth (ds @ ''M'') = Inl OutOfBounds)"
proof -
  have n: "NUL \<notin> set ds" using assms(1) isdigit_facts by blast
  have l: "isdigit (last ds)" using assms by simp
  have plain: "DefineBandwidth ds = Inr (word_of_int (atoi ds * 1024))"
    using isdigit_facts [OF l] assms(2) by (simp add: DefineBandwidth_def)
  show ?thesis
    using plain atoi_without_suffix_eq [OF n] atoi_digits [OF assms(1)]
    by (simp add: DefineBandwidth_def [of "_ @ _"])
qed

theorem DefineBandwidth_units_witness:
  "DefineBandwidth ''12K'' = Inr (12 * 1024) \<and> DefineBandwidth ''12'' = Inr (12 * 1024) \<and>
   DefineBandwidth ''1234567890M'' = Inl Unterminated"
  using DefineBandwidth_units [of "''12''"] DefineBandwidth_units [of "''1234567890''"]
  by (simp add: isdigit_def digits_value_def)

text \<open>Objects as they lie in memory: every array has its declared length.\<close>

definition dn_sized :: "ServerInfoDN \<Rightarrow> bool" where
  "dn_sized i \<longleftrightarrow> length (dn_pchIPAddr i) = MAX_IP_LEN \<and> length (dn_pchLogFile i) = LOG_FILE_LEN \<and>
     length (dn_pchMRTGURL i) = MAX_URL \<and> length (dn_pchVolName i) = MAX_VOLUME \<and>
     length (dn_pchDirName i) = MAX_DIRNAME \<and> length (dn_pchManagerIpAddresses i) = MAX_URL"

definition mgr_sized :: "ServerInfoDNMgr \<Rightarrow> bool" where
  "mgr_sized i \<longleftrightarrow> length (mgr_pchIPAddr i) = MAX_IP_LEN \<and> length (mgr_pchLogFile i) = LOG_FILE_LEN \<and>
     length (mgr_pchMRTGURL i) = MAX_URL"

lemma ServerInfoDN_of_cases:
  assumes "dn_sized junk"
  shows "if \<exists>k \<in> set bandwidth_keys. GetProperty p k \<noteq> [] then ServerInfoDN_of junk p = Inl UseAfterFree
    else \<exists>i. ServerInfoDN_of junk p = Inr i \<and> dn_sized i \<and>
      dn_mapServerPort i = map_setting p ''SERVER_PORT'' SERVER_PORT (map_setting p ''SERVER_PORT_DNMGR'' SERVER_PORT_MGR []) \<and>
      copy_setting p ''DNMGR_SERVER_IPs'' (dn_pchManagerIpAddresses junk) MAX_URL = Inr (dn_pchManagerIpAddresses i)"
proof -
  obtain ip where ip: "copy_setting p ''SERVER_IP'' (replicate MAX_IP_LEN NUL) MAX_IP_LEN = Inr ip" "length ip = MAX_IP_LEN"
    using copy_setting_ok [OF length_replicate] by blast
  obtain mgrs where mgrs: "copy_setting p ''DNMGR_SERVER_IPs'' (dn_pchManagerIpAddresses junk) MAX_URL = Inr mgrs" "length mgrs = MAX_URL"
    using copy_setting_ok assms unfolding dn_sized_def by metis
  obtain logf where logf: "copy_setting p ''SERVER_LOGFILE'' (replicate LOG_FILE_LEN NUL) LOG_FILE_LEN = Inr logf" "length logf = LOG_FILE_LEN"
    using copy_setting_ok [OF length_replicate] by blast
  obtain mrtg where mrtg: "copy_setting p ''MRTG_URL'' (dn_pchMRTGURL junk) MAX_URL = Inr mrtg" "length mrtg = MAX_URL"
    using copy_setting_ok assms unfolding dn_sized_def by metis
  obtain vol where vol: "copy_setting p ''VOLNAME'' (dn_pchVolName junk) MAX_VOLUME = Inr vol" "length vol = MAX_VOLUME"
    using copy_setting_ok assms unfolding dn_sized_def by metis
  obtain dir where dir: "copy_setting p ''DIRECTORY_NAME'' (dn_pchDirName junk) MAX_DIRNAME = Inr dir" "length dir = MAX_DIRNAME"
    using copy_setting_ok assms unfolding dn_sized_def by metis
  show ?thesis
    unfolding ServerInfoDN_of_def ip(1) mgrs(1) logf(1) mrtg(1) vol(1) dir(1) bindR_simps bandwidth_settings_ok
    using ip(2) mgrs(2) logf(2) mrtg(2) vol(2) dir(2) by (auto simp: dn_sized_def)
qed

text \<open>The constructor of \<open>ServerInfoDN\<close> reads a freed string as soon as one of the ten bandwidth settings is
  given; without them it succeeds, the ports are those of the file (\<open>-1\<close> when missing), and the
  manager addresses read back exactly when they fit in 255 characters, otherwise the array is not
  terminated.\<close>

theorem ServerInfoDN_settings:
  assumes "dn_sized junk" "NUL \<notin> set (GetProperty p ''DNMGR_SERVER_IPs'')" "GetProperty p ''DNMGR_SERVER_IPs'' \<noteq> []"
  shows "if \<exists>k \<in> set bandwidth_keys. GetProperty p k \<noteq> [] then ServerInfoDN_of junk p = Inl UseAfterFree
    else \<exists>i. ServerInfoDN_of junk p = Inr i \<and>
      dn_GetPort i SERVER_PORT = int_setting p ''SERVER_PORT'' (-1) \<and>
      dn_GetPort i SERVER_PORT_MGR = int_setting p ''SERVER_PORT_DNMGR'' (-1) \<and>
      dn_GetManagerIpAddresses i =
        (if length (GetProperty p ''DNMGR_SERVER_IPs'') < 256 then Inr (GetProperty p ''DNMGR_SERVER_IPs'')
         else Inl Unterminated)"
proof (cases "\<exists>k \<in> set bandwidth_keys. GetProperty p k \<noteq> []")
  case True
  then show ?thesis using ServerInfoDN_of_cases [OF assms(1), of p] by simp
next
  case False
  then obtain i where i: "ServerInfoDN_of junk p = Inr i" "dn_sized i"
    "dn_mapServerPort i = map_setting p ''SERVER_PORT'' SERVER_PORT (map_setting p ''SERVER_PORT_DNMGR'' SERVER_PORT_MGR [])"
    "copy_setting p ''DNMGR_SERVER_IPs'' (dn_pchManagerIpAddresses junk) MAX_URL = Inr (dn_pchManagerIpAddresses i)"
    using ServerInfoDN_of_cases [OF assms(1), of p] by auto
  have "dn_GetPort i t = (case t of SERVER_PORT \<Rightarrow> int_setting p ''SERVER_PORT'' (-1)
      | SERVER_PORT_MGR \<Rightarrow> int_setting p ''SERVER_PORT_DNMGR'' (-1) | SERVER_PORT_PC \<Rightarrow> -1)" for t
    by (simp add: dn_GetPort_def i(3) find_map_setting map_setting_sorted std.inv_empty std.find_empty
        int_setting_def split: ENUM_SERVERSOCKET_TYPE.split)
  moreover have "dn_GetManagerIpAddresses i =
      (if length (GetProperty p ''DNMGR_SERVER_IPs'') < 256 then Inr (GetProperty p ''DNMGR_SERVER_IPs'')
       else Inl Unterminated)"
    using copy_setting_reads [of "dn_pchManagerIpAddresses junk" MAX_URL p "''DNMGR_SERVER_IPs''"] assms i(4)
    by (simp add: dn_GetManagerIpAddresses_def dn_sized_def MAX_URL_def)
  ultimately show ?thesis using False i(1) by (simp only: if_False) (auto)
qed

text \<open>An object and a file for the witnesses.\<close>

definition demo_info :: ServerInfoDN where
  "demo_info = ServerInfoDN_new \<lparr>dn_mapServerPort = [], dn_mapThreadCount = [], dn_iMaxUser = 0, dn_pchIPAddr = [],
     dn_pchLogFile = replicate LOG_FILE_LEN NUL, dn_pchMRTGURL = [], dn_pchVolName = [], dn_pchDirName = [],
     dn_pchManagerIpAddresses = [], iBandwidth = []\<rparr>"

definition demo_settings :: Properties where
  "demo_settings = \<lparr>m_strFileName = ''f'', m_mapProperties =
     [(''DNMGR_SERVER_IPs'', ''127.0.0.1''), (''SERVER_PORT_DNMGR'', ''50000'')]\<rparr>"

lemma demo_info_sized: "dn_sized demo_info"
  by (simp add: dn_sized_def demo_info_def ServerInfoDN_new_def)

theorem ServerInfoDN_settings_witness:
  "\<exists>i. ServerInfoDN_of demo_info demo_settings = Inr i \<and> dn_GetPort i SERVER_PORT_MGR = 50000 \<and>
     dn_GetManagerIpAddresses i = Inr ''127.0.0.1''"
  using ServerInfoDN_settings [OF demo_info_sized, of demo_settings]
  by (simp add: demo_settings_def GetProperty_def std_find_def bandwidth_keys_def int_setting_def NUL_def
      atoi_def isspace_def isdigit_def digits_value_def) blast

text \<open>The manager listens on the port that the servers connect to whenever their two files give the same
  \<open>SERVER_PORT_DNMGR\<close>: the manager keeps that setting under \<open>SERVER_PORT\<close> and a server under
  \<open>SERVER_PORT_MGR\<close>.\<close>

theorem manager_port_agrees:
  assumes "ServerInfoDN_of junk p = Inr i" "ServerInfoDNMgr_of junk' q = Inr j"
    "GetProperty p ''SERVER_PORT_DNMGR'' = GetProperty q ''SERVER_PORT_DNMGR''"
  shows "dn_GetPort i SERVER_PORT_MGR = mgr_GetPort j SERVER_PORT \<and>
    mgr_GetPort j SERVER_PORT = int_setting q ''SERVER_PORT_DNMGR'' (-1)"
proof -
  have "dn_mapServerPort i = map_setting p ''SERVER_PORT'' SERVER_PORT (map_setting p ''SERVER_PORT_DNMGR'' SERVER_PORT_MGR [])"
    using assms(1) by (auto simp: ServerInfoDN_of_def bindR_Inr_iff)
  moreover have "mgr_mapServerPort j = map_setting q ''SERVER_PORT_DNMGR'' SERVER_PORT []"
    using assms(2) by (auto simp: ServerInfoDNMgr_of_def bindR_Inr_iff)
  ultimately show ?thesis
    using assms(3) by (simp add: dn_GetPort_def mgr_GetPort_def find_map_setting map_setting_sorted
        std.inv_empty std.find_empty int_setting_def)
qed

definition demo_mgr_info :: ServerInfoDNMgr where
  "demo_mgr_info = ServerInfoDNMgr_new \<lparr>mgr_mapServerPort = [], mgr_mapThreadCount = [], mgr_iMaxUser = 0,
     mgr_iDSMaxUser = 0, mgr_iDNPort = 0, mgr_iDNCnt = 0, mgr_pchIPAddr = [], mgr_pchLogFile = [], mgr_pchMRTGURL = []\<rparr>"

lemma demo_mgr_info_of: "\<exists>j. ServerInfoDNMgr_of demo_mgr_info demo_settings = Inr j"
  by (simp add: ServerInfoDNMgr_of_def copy_setting_def demo_settings_def GetProperty_def std_find_def)

lemma demo_info_of: "\<exists>i. ServerInfoDN_of demo_info demo_settings = Inr i"
  using ServerInfoDN_of_cases [OF demo_info_sized, of demo_settings]
  by (auto simp: demo_settings_def GetProperty_def std_find_def bandwidth_keys_def split: if_splits)

theorem manager_port_agrees_witness:
  "\<exists>i j. ServerInfoDN_of demo_info demo_settings = Inr i \<and> ServerInfoDNMgr_of demo_mgr_info demo_settings = Inr j \<and>
     dn_GetPort i SERVER_PORT_MGR = mgr_GetPort j SERVER_PORT"
  using demo_info_of demo_mgr_info_of manager_port_agrees by blast

end
