(* ===== verification/ChatManagerProc.thy ===== *)
theory ChatManagerProc
  imports ServerInfo ChatServerProc
begin

text \<open>
  \<open>ChatManager\<close> and its clients, the \<open>ClientChatServer\<close>s (src/ChatManager.cpp,
  src/ClientChatServer.cpp): the parent process, to which every \<open>ChatServer\<close> connects and which passes
  their messages on to each other. Its state extends the heap of sockets and the kernel's descriptors
  as the server's does, and its bookkeeping is the same one: \<open>cm_view\<close> shows it as a server's.
\<close>

section \<open>ClientChatServer\<close>

record ClientChatServer = Client +
  cc_uniqId :: "64 word"

definition ClientChatServer_new :: "(nat \<Rightarrow> byte) \<Rightarrow> 64 word \<Rightarrow> int \<Rightarrow> nat option \<Rightarrow> ClientChatServer" where
  \<comment> \<open>\<open>m_uniqId\<close> is not initialised\<close>
  "ClientChatServer_new junk uid now sock =
     Client.extend (Client_new_socket junk now sock CLIENT_USER) \<lparr>cc_uniqId = uid\<rparr>"

text \<open>Both accessors go through \<open>int\<close>.\<close>

definition cc_SetUniqId :: "ClientChatServer \<Rightarrow> 32 word \<Rightarrow> ClientChatServer" where
  "cc_SetUniqId c n = c\<lparr>cc_uniqId := scast n\<rparr>"
definition cc_GetUniqId :: "ClientChatServer \<Rightarrow> 32 word" where
  "cc_GetUniqId c = ucast (cc_uniqId c)"

section \<open>State\<close>

record ChatManager = net +
  cm_iConnCount :: int
  m_pServerInfo :: ServerInfoDNMgr
  m_pWorkQueue :: "nat cqueue"
  m_lstChatServer :: "nat list"
  cm_clients :: "nat \<rightharpoonup> ClientChatServer"
  cm_next :: nat

definition ChatManager_of :: "ServerInfoDNMgr \<Rightarrow> Properties \<Rightarrow> net \<Rightarrow> ChatManager res" where
  "ChatManager_of junk p w =
     bindR (ServerInfoDNMgr_of junk p) (\<lambda>i. Inr (net.extend w
       \<lparr>cm_iConnCount = 0, m_pServerInfo = i, m_pWorkQueue = CircularQueue_new (\<lambda>_. 0),
        m_lstChatServer = [], cm_clients = Map.empty, cm_next = 0\<rparr>))"

definition cm_GetCurrentUserCount :: "ChatManager \<Rightarrow> int" where "cm_GetCurrentUserCount m = cm_iConnCount m"
definition cm_GetMaxUser :: "ChatManager \<Rightarrow> int" where
  "cm_GetMaxUser m = mgr_GetMaxUser (m_pServerInfo m) + mgr_GetDNCnt (m_pServerInfo m)"
definition cm_GetIPAddr :: "ChatManager \<Rightarrow> string res" where "cm_GetIPAddr m = mgr_GetIPAddr (m_pServerInfo m)"
definition cm_GetDNServerPort :: "ChatManager \<Rightarrow> int" where "cm_GetDNServerPort m = mgr_GetDNPort (m_pServerInfo m)"
definition cm_GetLogFileName :: "ChatManager \<Rightarrow> string res" where
  "cm_GetLogFileName m = mgr_GetLogFileName (m_pServerInfo m)"
definition SetDS :: "ChatManager \<Rightarrow> int \<times> int" where
  \<comment> \<open>the result and \<open>*_piMaxUser\<close>\<close>
  "SetDS m = (0, mgr_GetDSMaxUser (m_pServerInfo m))"

definition PutWorkQueue :: "ChatManager \<Rightarrow> nat \<Rightarrow> ChatManager res" where
  "PutWorkQueue m a = bindR (queue_put (m_pWorkQueue m) a) (\<lambda>q. Inr (m\<lparr>m_pWorkQueue := q\<rparr>))"
definition GetWorkQueue :: "ChatManager \<Rightarrow> (nat \<times> ChatManager) res" where
  "GetWorkQueue m = bindR (queue_get (m_pWorkQueue m)) (\<lambda>(a, q). Inr (a, m\<lparr>m_pWorkQueue := q\<rparr>))"

definition cm_client :: "ChatManager \<Rightarrow> nat \<Rightarrow> ClientChatServer res" where
  "cm_client m a = (case cm_clients m a of None \<Rightarrow> Inl UseAfterFree | Some c \<Rightarrow> Inr c)"

lemma cm_client_simps [simp]:
  "cm_clients m a = None \<Longrightarrow> cm_client m a = Inl UseAfterFree"
  "cm_clients m a = Some c \<Longrightarrow> cm_client m a = Inr c"
  by (simp_all add: cm_client_def)

definition cm_delete_client :: "ChatManager \<Rightarrow> nat \<Rightarrow> ChatManager res" where
  "cm_delete_client m a =
     bindR (cm_client m a) (\<lambda>c.
     bindR (delete_socket m (Client_GetSocket c)) (\<lambda>m'.
       Inr (m'\<lparr>cm_clients := (cm_clients m')(a := None)\<rparr>)))"

definition cm_CloseClient :: "ChatManager \<Rightarrow> nat \<Rightarrow> ChatManager res" where
  "cm_CloseClient m a =
     bindR (cm_client m a) (\<lambda>c.
     bindR (sock_fd m (Client_GetSocket c)) (\<lambda>_.
     bindR (IOMP_EPoll_DelClient m (Client_GetSocket c)) (\<lambda>(_, m1).
     let m2 = m1\<lparr>m_lstChatServer := removeAll a (m_lstChatServer m1),
                 cm_clients := (cm_clients m1)(a \<mapsto> SetState c STATE_CLOSED)\<rparr> in
     bindR (cm_delete_client m2 a) (\<lambda>m3. Inr (m3\<lparr>cm_iConnCount := cm_iConnCount m3 - 1\<rparr>)))))"

definition cm_UpdateEPoll :: "ChatManager \<Rightarrow> nat \<Rightarrow> 32 word \<Rightarrow> ChatManager res" where
  "cm_UpdateEPoll m a events =
     bindR (cm_client m a) (\<lambda>c.
     bindR (IOMP_EPoll_ModifyFd m a (Client_GetSocket c) events) (\<lambda>(_, m'). Inr m'))"
definition cm_AddEPoll :: "ChatManager \<Rightarrow> nat \<Rightarrow> 32 word \<Rightarrow> ChatManager res" where
  "cm_AddEPoll m a events =
     bindR (cm_client m a) (\<lambda>c.
     bindR (IOMP_EPoll_AddClient m a (Client_GetSocket c) events) (\<lambda>(_, m'). Inr m'))"

text \<open>\<open>HealthCheckUsers\<close>: only connections that have not introduced themselves are of type
  \<open>CLIENT_USER\<close>; the loop advances after an erase as the server's does.\<close>

fun cm_health_scan :: "int \<Rightarrow> ChatManager \<Rightarrow> nat list \<Rightarrow> ChatManager res" where
  "cm_health_scan now m [] = Inr m"
| "cm_health_scan now m (a # as) =
     bindR (cm_client m a) (\<lambda>c.
       if Client_GetType c = CLIENT_USER \<and> (now - GetAccessTime c > TIME_ALIVE \<or> IsClosed c) then
         bindR (sock_fd m (Client_GetSocket c)) (\<lambda>_.
         let m1 = m\<lparr>m_lstChatServer := remove1 a (m_lstChatServer m)\<rparr> in
         bindR (IOMP_EPoll_DelClient m1 (Client_GetSocket c)) (\<lambda>(_, m2).
         bindR (cm_delete_client m2 a) (\<lambda>m3.
         let m4 = m3\<lparr>cm_iConnCount := cm_iConnCount m3 - 1\<rparr> in
           case as of [] \<Rightarrow> Inl BadIterator | b # bs \<Rightarrow> cm_health_scan now m4 bs)))
       else cm_health_scan now m as)"

definition cm_HealthCheckUsers :: "int \<Rightarrow> ChatManager \<Rightarrow> ChatManager res" where
  "cm_HealthCheckUsers now m = cm_health_scan now m (m_lstChatServer m)"

section \<open>Messages\<close>

text \<open>The comparison of the client's \<open>int\<close> with the packet's \<open>uint64_t\<close> extends the sign.\<close>

fun cm_broadcast :: "ChatManager \<Rightarrow> nat list \<Rightarrow> T_PACKET \<Rightarrow> ChatManager res" where
  "cm_broadcast m [] p = Inr m"
| "cm_broadcast m (a # as) p =
     bindR (cm_client m a) (\<lambda>c.
       if scast (cc_GetUniqId c) \<noteq> cb_uniqId (Tcmd_CHAT_BROADCAST_of (pkt_data p)) then
         bindR (write_at m (Client_GetSocket c) (T_PACKET_bytes p)
                  (int PDUHEADERSIZE + uint (hdr_length (pkt_header p)))) (\<lambda>(_, m').
           cm_broadcast m' as p)
       else cm_broadcast m as p)"

definition cm_MessageBroadcast :: "ChatManager \<Rightarrow> T_PACKET \<Rightarrow> ChatManager res" where
  "cm_MessageBroadcast m p = cm_broadcast m (m_lstChatServer m) p"

definition hello_ack :: "64 word \<Rightarrow> int \<Rightarrow> T_PACKET" where
  "hello_ack uid iMaxUser =
     \<lparr>pkt_header = \<lparr>hdr_command = cmd_HELLO_DSM_DS, hdr_length = 20\<rparr>,
      pkt_data = mem_put (pkt_data T_PACKET_zero) 0 (Tcmd_HELLO_DSM_DS_bytes
        \<lparr>ack_uniqId = uid, ack_iMaxUser = word_of_int iMaxUser, ack_dHelloTime = replicate 8 0\<rparr>)\<rparr>"

definition WorkChatServerHello :: "ChatManager \<Rightarrow> nat \<Rightarrow> T_PACKET \<Rightarrow> ChatManager res" where
  "WorkChatServerHello m a p =
     bindR (cm_client m a) (\<lambda>c.
     let uid = hello_uniqId (Tcmd_HELLO_DS_DSM_of (pkt_data p));
         c1 = Client_SetType c CLIENT_CHAT_SERVER;
         (r, iMaxUser) = (if m_pMainProcess c = Some ProcChatManager then SetDS m else (0, 0));
         m1 = m\<lparr>cm_clients := (cm_clients m)(a \<mapsto> c1)\<rparr>
     in if r < 0 then Inr m1
        else
          let m2 = m1\<lparr>cm_clients := (cm_clients m1)(a \<mapsto> c1\<lparr>cc_uniqId := uid\<rparr>)\<rparr> in
          bindR (write_at m2 (Client_GetSocket c1) (T_PACKET_bytes (hello_ack uid iMaxUser))
                   (int PDUHEADERSIZE + 20)) (\<lambda>(_, m'). Inr m'))"

definition WorkDSMPing :: "ChatManager \<Rightarrow> nat \<Rightarrow> ChatManager res" where
  "WorkDSMPing m a =
     bindR (cm_client m a) (\<lambda>c.
     let p = \<lparr>pkt_header = \<lparr>hdr_command = cmd_HEARTBEAT_DSM_DC, hdr_length = 0\<rparr>,
              pkt_data = pkt_data T_PACKET_zero\<rparr>
     in bindR (write_at m (Client_GetSocket c) (T_PACKET_bytes p) (int PDUHEADERSIZE + 0)) (\<lambda>(_, m'). Inr m'))"

definition cc_MessageBroadcast :: "ChatManager \<Rightarrow> nat \<Rightarrow> T_PACKET \<Rightarrow> ChatManager res" where
  "cc_MessageBroadcast m a p =
     bindR (cm_client m a) (\<lambda>c.
       if m_pMainProcess c = Some ProcChatManager then cm_MessageBroadcast m p else Inr m)"

definition cc_ExecuteCommand :: "ChatManager \<Rightarrow> nat \<Rightarrow> (int \<times> ChatManager) res" where
  "cc_ExecuteCommand m a =
     bindR (cm_client m a) (\<lambda>c.
     bindR (read_packet c) (\<lambda>(r, _, p, c').
     let m1 = m\<lparr>cm_clients := (cm_clients m)(a \<mapsto> c')\<rparr>; cmd = hdr_command (pkt_header p) in
       if r < 0 then Inr (-1, m1)
       else if cmd = cmd_CHAT_BROADCAST then bindR (cc_MessageBroadcast m1 a p) (\<lambda>m2. Inr (0, m2))
       else if cmd = cmd_HELLO_DS_DSM then bindR (WorkChatServerHello m1 a p) (\<lambda>m2. Inr (0, m2))
       else if cmd = cmd_HEARTBEAT_DC_DSM then bindR (WorkDSMPing m1 a) (\<lambda>m2. Inr (0, m2))
       else Inr (0, m1)))"

section \<open>Events of \<open>Run\<close>\<close>

definition cm_socket_new :: "ChatManager \<Rightarrow> int \<Rightarrow> Socket \<Rightarrow> nat \<times> ChatManager" where
  "cm_socket_new m fd s =
     (let p = cm_next m in (p, m\<lparr>cm_next := Suc p, n_socks := (n_socks m)(p \<mapsto> fd),
                               n_kern := (n_kern m)(fd \<mapsto> s\<lparr>m_iFd := fd\<rparr>)\<rparr>))"

text \<open>The manager's own flags are always edge-triggered.\<close>

definition cm_flags :: "build \<Rightarrow> 32 word" where
  "cm_flags bd = (if bd = BuildOneshot then or (or EPOLLIN EPOLLET) EPOLLONESHOT else or EPOLLIN EPOLLET)"

text \<open>An event on a server socket of type \<open>type\<close>: \<open>kern\<close> is what \<open>accept\<close> gave, \<open>uid\<close> what the memory of the
  new object held.\<close>

definition cm_accept :: "build \<Rightarrow> (nat \<Rightarrow> byte) \<Rightarrow> 64 word \<Rightarrow> int \<Rightarrow> ENUM_SERVERSOCKET_TYPE \<Rightarrow> ChatManager \<Rightarrow>
    (int \<times> Socket) option \<Rightarrow> ChatManager res" where
  "cm_accept bd junk uid now type m kern =
     (case kern of None \<Rightarrow> Inr m
      | Some (fd, s) \<Rightarrow>
          let (p, m1) = cm_socket_new m fd s;
              m2 = (case n_kern m1 fd of None \<Rightarrow> m1
                    | Some s' \<Rightarrow> m1\<lparr>n_kern := (n_kern m1)(fd \<mapsto> s'\<lparr>so_flags := O_NDELAY\<rparr>)\<rparr>)
          in if cm_iConnCount m2 \<ge> cm_GetMaxUser m2 then delete_socket m2 (Some p)
             else if type = SERVER_PORT then
               let a = cm_next m2; c = ClientChatServer_new junk uid now (Some p);
                   m3 = m2\<lparr>cm_next := Suc a, cm_clients := (cm_clients m2)(a \<mapsto> c)\<rparr> in
               bindR (IOMP_EPoll_AddClient m3 a (Some p) (cm_flags bd)) (\<lambda>(r, m4).
                 if r < 0 then cm_delete_client m4 a
                 else Inr (m4\<lparr>cm_clients := (cm_clients m4)(a \<mapsto> SetMainProcess (SetState c STATE_WAIT) ProcChatManager),
                              m_lstChatServer := m_lstChatServer m4 @ [a], cm_iConnCount := cm_iConnCount m4 + 1\<rparr>))
             else delete_socket m2 (Some p))"

definition cm_event :: "build \<Rightarrow> int \<Rightarrow> ChatManager \<Rightarrow> 32 word \<Rightarrow> nat \<Rightarrow> ChatManager res" where
  \<comment> \<open>an event on a chat server's connection\<close>
  "cm_event bd now m events a =
     bindR (cm_client m a) (\<lambda>c.
       if and events (or EPOLLERR EPOLLHUP) \<noteq> 0 then cm_CloseClient m a
       else if and events EPOLLIN \<noteq> 0 then
         bindR (if bd \<noteq> BuildOneshot
                then bindR (IOMP_EPoll_DelClient m (Client_GetSocket c)) (\<lambda>(_, m'). Inr m')
                else Inr m) (\<lambda>m1.
           PutWorkQueue (m1\<lparr>cm_clients := (cm_clients m1)(a \<mapsto> SetAccessTime c now)\<rparr>) a)
       else Inr m)"

section \<open>The manager's bookkeeping is a server's\<close>

text \<open>What \<open>cs_wf\<close> looks at, taken from a manager: of a client only its socket matters.\<close>

definition view_user :: "'z Client_scheme \<Rightarrow> ChatUser" where
  "view_user c = new_user (\<lambda>_. 0) 0 (m_cSocket c) CLIENT_USER"

definition cm_view :: "ChatManager \<Rightarrow> ChatServer" where
  "cm_view m = net.extend (net.truncate m)
     \<lparr>m_iConnCount = cm_iConnCount m, m_iMaxUser = cm_GetMaxUser m, m_uniqId = 0,
      m_lstClient = m_lstChatServer m, m_lstChatManagerSocket = [],
      m_pReceiveQueue = CircularQueue_new (\<lambda>_. 0), m_pSendQueue = CircularQueue_new (\<lambda>_. 0),
      m_pBroadcastQueue = CircularQueue_new (\<lambda>_. BroadcastMessage_new (\<lambda>_. 0)),
      cs_clients = (\<lambda>a. map_option view_user (cm_clients m a)), cs_next = cm_next m\<rparr>"

definition cm_wf :: "ChatManager \<Rightarrow> bool" where
  "cm_wf m \<longleftrightarrow> cs_wf (cm_view m)"

lemma cm_view_sel [simp]:
  "n_socks (cm_view m) = n_socks m" "n_kern (cm_view m) = n_kern m" "n_epoll (cm_view m) = n_epoll m"
  "m_iConnCount (cm_view m) = cm_iConnCount m" "m_iMaxUser (cm_view m) = cm_GetMaxUser m"
  "m_lstClient (cm_view m) = m_lstChatServer m" "cs_next (cm_view m) = cm_next m"
  "cs_clients (cm_view m) a = map_option view_user (cm_clients m a)"
  by (simp_all add: cm_view_def net.defs)

lemma view_user_sel [simp]: "m_cSocket (view_user c) = m_cSocket c"
  by (simp add: view_user_def)

text \<open>\<open>cs_wf\<close> depends only on the members that \<open>cm_view\<close> shows.\<close>

lemma cs_wf_cong:
  assumes "n_socks v = n_socks w" "n_kern v = n_kern w" "m_iConnCount v = m_iConnCount w"
    "m_lstClient v = m_lstClient w" "cs_next v = cs_next w"
    "\<And>a. map_option m_cSocket (cs_clients v a) = map_option m_cSocket (cs_clients w a)" "cs_wf w"
  shows "cs_wf v"
proof -
  have live: "sock_live v p = sock_live w p" for p
    using assms(1,2) by (simp add: sock_live_def cong: option.case_cong)
  have old_c: "\<exists>d. cs_clients w a = Some d \<and> m_cSocket d = m_cSocket c" if "cs_clients v a = Some c" for a c
    using assms(6) [of a] that by (cases "cs_clients w a") auto
  have "cs_clients v a = None \<longleftrightarrow> cs_clients w a = None" for a
    using assms(6) [of a] by (metis map_option_is_None)
  then have "dom (cs_clients v) = dom (cs_clients w)" by (simp add: dom_def)
  then have "set (m_lstClient v) = dom (cs_clients v)" using assms(4) cs_wf_list(2) [OF assms(7)] by simp
  moreover have "\<exists>p. m_cSocket c = Some p \<and> sock_live v p" if "cs_clients v a = Some c" for a c
    using old_c [OF that] cs_wf_live [OF assms(7)] live by metis
  moreover have "a = b" if "cs_clients v a = Some c" "cs_clients v b = Some d" "m_cSocket c = m_cSocket d" for a b c d
    using old_c [OF that(1)] old_c [OF that(2)] that(3) cs_wf_sock_inj [OF assms(7)] by metis
  moreover have "a < cs_next v" if "cs_clients v a = Some c" for a c
    using old_c [OF that] cs_wf_below(1) [OF assms(7)] assms(5) by metis
  ultimately show ?thesis
    using cs_wf_list [OF assms(7)] cs_wf_fd_inj [OF assms(7)] cs_wf_below(2) [OF assms(7)] assms(1-5)
    by (intro cs_wfI) simp_all
qed

lemma cm_wf_via: "cs_wf w \<Longrightarrow> n_socks m = n_socks w \<Longrightarrow> n_kern m = n_kern w \<Longrightarrow>
    cm_iConnCount m = m_iConnCount w \<Longrightarrow> m_lstChatServer m = m_lstClient w \<Longrightarrow> cm_next m = cs_next w \<Longrightarrow>
    (\<And>a. map_option m_cSocket (cm_clients m a) = map_option m_cSocket (cs_clients w a)) \<Longrightarrow> cm_wf m"
  unfolding cm_wf_def by (rule cs_wf_cong [of _ w]) (simp_all add: option.map_comp o_def)

lemma cm_wf_client:
  assumes "cm_wf m" "cm_clients m a = Some c"
  obtains p fd s where "m_cSocket c = Some p" "n_socks m p = Some fd" "0 < fd" "n_kern m fd = Some s"
  using cs_wf_client [of "cm_view m" a "view_user c"] assms by (auto simp: cm_wf_def)

lemma cm_wf_listed: "cm_wf m \<Longrightarrow> a \<in> set (m_lstChatServer m) \<longleftrightarrow> (\<exists>c. cm_clients m a = Some c)"
  using cs_wf_listed [of "cm_view m" a] by (auto simp: cm_wf_def)

definition cm_closed :: "ChatManager \<Rightarrow> nat \<Rightarrow> nat \<Rightarrow> int \<Rightarrow> ChatManager" where
  "cm_closed m a p fd =
     m\<lparr>n_socks := (n_socks m)(p := None), n_kern := (n_kern m)(fd := None),
       n_epoll := (n_epoll m)(fd := None), m_lstChatServer := removeAll a (m_lstChatServer m),
       cm_clients := (cm_clients m)(a := None), cm_iConnCount := cm_iConnCount m - 1\<rparr>"

lemma cm_CloseClient_eq:
  assumes "cm_clients m a = Some c" "m_cSocket c = Some p" "n_socks m p = Some fd"
  shows "cm_CloseClient m a = Inr (cm_closed m a p fd)"
proof -
  have e: "(n_epoll m)(fd := None) = n_epoll m" if "n_epoll m fd = None" using that by (simp add: fun_upd_idem)
  show ?thesis
    using assms e
    by (cases "n_epoll m fd")
      (simp_all add: cm_CloseClient_def cm_delete_client_def delete_socket_def IOMP_EPoll_DelClient_def
        IOMP_EPoll_DelFd_def Client_GetSocket_def SetState_def cm_closed_def Let_def)
qed

lemma cm_closed_wf:
  assumes wf: "cm_wf m" and a: "cm_clients m a = Some c" "m_cSocket c = Some p" "n_socks m p = Some fd"
  shows "cm_wf (cm_closed m a p fd)"
proof (rule cm_wf_via)
  show "cs_wf (closed (cm_view m) a p fd)"
    using wf a by (intro closed_wf [of _ _ "view_user c"]) (simp_all add: cm_wf_def)
qed (simp_all add: cm_closed_def option.map_comp o_def)

lemma cm_CloseClient_ok:
  assumes "cm_wf m" "a \<in> set (m_lstChatServer m)"
  obtains c p fd where "cm_clients m a = Some c" "m_cSocket c = Some p" "n_socks m p = Some fd"
    "cm_CloseClient m a = Inr (cm_closed m a p fd)" "cm_wf (cm_closed m a p fd)"
proof -
  obtain c where c: "cm_clients m a = Some c" using assms cm_wf_listed by blast
  obtain p fd s where p: "m_cSocket c = Some p" "n_socks m p = Some fd"
    by (rule cm_wf_client [OF assms(1) c])
  show thesis using that c p cm_CloseClient_eq [OF c p] cm_closed_wf [OF assms(1) c p] by blast
qed

lemma cs_wf_next_Suc: "cs_wf w \<Longrightarrow> cs_wf (w\<lparr>cs_next := Suc (cs_next w)\<rparr>)"
proof -
  assume wf: "cs_wf w"
  have live: "sock_live (w\<lparr>cs_next := n\<rparr>) p = sock_live w p" for p n
    by (simp add: sock_live_def cong: option.case_cong)
  show ?thesis
    by (rule cs_wfI) (use live cs_wf_list [OF wf] cs_wf_live [OF wf] cs_wf_sock_inj [OF wf] cs_wf_fd_inj [OF wf]
        cs_wf_below [OF wf] in \<open>simp_all add: less_SucI\<close>)
qed

definition cm_accept_ok :: "ChatManager \<Rightarrow> (int \<times> Socket) option \<Rightarrow> bool" where
  "cm_accept_ok m kern \<longleftrightarrow> accept_ok (cm_view m) kern"

lemma cm_accept_new:
  assumes wf: "cm_wf m" and k: "cm_accept_ok m (Some (fd, s))"
  defines "m2 \<equiv> m\<lparr>cm_next := Suc (cm_next m), n_socks := (n_socks m)(cm_next m \<mapsto> fd),
      n_kern := (n_kern m)(fd \<mapsto> s\<lparr>m_iFd := fd, so_flags := O_NDELAY\<rparr>)\<rparr>"
  shows "cm_wf m2" "0 < fd" "\<And>a c. cm_clients m a = Some c \<Longrightarrow> m_cSocket c \<noteq> Some (cm_next m)"
proof -
  let ?v = "cm_view m"
  have wfv: "cs_wf ?v" and fresh: "fresh_fd ?v fd" using wf k by (simp_all add: cm_wf_def cm_accept_ok_def accept_ok_def)
  obtain p w1 where new: "socket_new ?v fd s = (p, w1)" by (cases "socket_new ?v fd s")
  note w1 = socket_new_wf [OF wfv fresh new]
  have n1: "cs_next w1 = Suc (cm_next m)" using new by (auto simp: socket_new_def Let_def)
  have "cs_wf (w1\<lparr>n_kern := (n_kern w1)(fd \<mapsto> s\<lparr>m_iFd := fd, so_flags := O_NDELAY\<rparr>)\<rparr>)"
    by (rule kern_update_wf [OF w1(1)]) (simp add: w1(9))
  then show "cm_wf m2"
    by (rule cm_wf_via) (use w1 n1 in \<open>simp_all add: m2_def option.map_comp o_def\<close>)
  show "0 < fd" using fresh by (simp add: fresh_fd_def)
  show "m_cSocket c \<noteq> Some (cm_next m)" if "cm_clients m a = Some c" for a c
    using cs_wf_live [OF wfv, of a "view_user c"] cs_wf_next(2) [OF wfv] that by (auto simp: sock_live_def)
qed

lemma cm_wf_drop:
  assumes wf: "cm_wf m" and p: "n_socks m p = Some fd"
    and own: "\<And>a c. cm_clients m a = Some c \<Longrightarrow> m_cSocket c \<noteq> Some p"
  shows "cm_wf (m\<lparr>n_socks := (n_socks m)(p := None), n_kern := (n_kern m)(fd := None),
      n_epoll := (n_epoll m)(fd := None)\<rparr>)"
proof (rule cm_wf_via)
  show "cs_wf ((cm_view m)\<lparr>n_socks := (n_socks (cm_view m))(p := None), n_kern := (n_kern (cm_view m))(fd := None),
      n_epoll := (n_epoll (cm_view m))(fd := None)\<rparr>)"
    by (rule drop_socket_wf) (use wf p own in \<open>auto simp: cm_wf_def\<close>)
qed (simp_all add: option.map_comp o_def)

text \<open>A new connection is refused and closed again, or it is listed.\<close>

lemma cm_accept_round:
  assumes wf: "cm_wf m" and k: "cm_accept_ok m kern"
  shows "\<exists>m'. cm_accept bd junk uid now type m kern = Inr m' \<and> cm_wf m' \<and> cm_GetMaxUser m' = cm_GetMaxUser m \<and>
    (m_lstChatServer m' = m_lstChatServer m \<or>
     cm_iConnCount m < cm_GetMaxUser m \<and>
       (\<exists>a. a \<notin> set (m_lstChatServer m) \<and> m_lstChatServer m' = m_lstChatServer m @ [a]))"
proof (cases kern)
  case None
  then show ?thesis using wf by (simp add: cm_accept_def)
next
  case (Some e)
  obtain fd s where e: "e = (fd, s)" by (cases e)
  let ?p = "cm_next m" and ?a = "Suc (cm_next m)"
  let ?m2 = "m\<lparr>cm_next := ?a, n_socks := (n_socks m)(?p \<mapsto> fd),
      n_kern := (n_kern m)(fd \<mapsto> s\<lparr>m_iFd := fd, so_flags := O_NDELAY\<rparr>)\<rparr>"
  have kk: "cm_accept_ok m (Some (fd, s))" using k Some e by simp
  note m2 = cm_accept_new [OF wf kk]
  let ?drop = "?m2\<lparr>n_socks := (n_socks ?m2)(?p := None), n_kern := (n_kern ?m2)(fd := None),
      n_epoll := (n_epoll ?m2)(fd := None)\<rparr>"
  have wfd: "cm_wf ?drop" by (rule cm_wf_drop [OF m2(1)]) (use m2(3) in auto)
  have max [simp]: "cm_GetMaxUser ?m2 = cm_GetMaxUser m" "cm_GetMaxUser ?drop = cm_GetMaxUser m"
    by (simp_all add: cm_GetMaxUser_def)
  show ?thesis
  proof (cases "cm_iConnCount m \<ge> cm_GetMaxUser m \<or> type \<noteq> SERVER_PORT")
    case True
    then have "cm_accept bd junk uid now type m kern = Inr ?drop"
      by (auto simp: cm_accept_def Some e cm_socket_new_def Let_def delete_socket_def cm_GetMaxUser_def)
    then show ?thesis using wfd by (simp add: cm_GetMaxUser_def)
  next
    case False
    let ?c = "ClientChatServer_new junk uid now (Some ?p)"
    let ?c' = "SetMainProcess (SetState ?c STATE_WAIT) ProcChatManager"
    let ?m3 = "?m2\<lparr>cm_next := Suc ?a, cm_clients := (cm_clients m)(?a \<mapsto> ?c)\<rparr>"
    have sock: "m_cSocket ?c = Some ?p" "m_cSocket ?c' = Some ?p"
      by (simp_all add: ClientChatServer_new_def Client.defs Client_new_socket_def SetMainProcess_def SetState_def)
    have acc: "cm_accept bd junk uid now type m kern =
        bindR (IOMP_EPoll_AddClient ?m3 ?a (Some ?p) (cm_flags bd)) (\<lambda>(r, m4).
          if r < 0 then cm_delete_client m4 ?a
          else Inr (m4\<lparr>cm_clients := (cm_clients m4)(?a \<mapsto> ?c'), m_lstChatServer := m_lstChatServer m4 @ [?a],
                       cm_iConnCount := cm_iConnCount m4 + 1\<rparr>))"
      using False by (auto simp: cm_accept_def Some e cm_socket_new_def Let_def cm_GetMaxUser_def)
    have a: "?a \<notin> set (m_lstChatServer m)"
      using cm_wf_listed [OF m2(1), of ?a] cs_wf_next(1) [of "cm_view ?m2"] m2(1) by (auto simp: cm_wf_def)
    show ?thesis
    proof (cases "n_epoll m fd")
      case None
      let ?m5 = "?m3\<lparr>n_epoll := (n_epoll m)(fd \<mapsto> (cm_flags bd, ?a)), cm_clients := (cm_clients m)(?a \<mapsto> ?c'),
          m_lstChatServer := m_lstChatServer m @ [?a], cm_iConnCount := cm_iConnCount m + 1\<rparr>"
      have "cm_accept bd junk uid now type m kern = Inr ?m5"
        unfolding acc using None by (simp add: IOMP_EPoll_AddClient_def)
      moreover have "cm_wf ?m5"
      proof (rule cm_wf_via)
        show "cs_wf (listed (\<lambda>_. 0) 0 (cm_view ?m2) ?p CLIENT_USER)"
          by (rule listed_wf) (use m2 in \<open>auto simp: cm_wf_def sock_live_def\<close>)
      qed (use sock in \<open>simp_all add: option.map_comp o_def\<close>)
      moreover have "cm_GetMaxUser ?m5 = cm_GetMaxUser m" by (simp add: cm_GetMaxUser_def)
      ultimately show ?thesis using a False by auto
    next
      case (Some x)
      have "cm_clients m ?a = None" using cs_wf_next(1) [of "cm_view ?m2"] m2(1) by (simp add: cm_wf_def)
      then have "(cm_clients m)(?a := None) = cm_clients m" by (rule fun_upd_idem)
      then have "?drop\<lparr>cm_next := Suc ?a\<rparr> = ?m3\<lparr>n_socks := (n_socks ?m3)(?p := None), n_kern := (n_kern ?m3)(fd := None),
          n_epoll := (n_epoll ?m3)(fd := None), cm_clients := (cm_clients ?m3)(?a := None)\<rparr>"
        by simp
      then have "cm_accept bd junk uid now type m kern = Inr (?drop\<lparr>cm_next := Suc ?a\<rparr>)"
        unfolding acc using Some sock
        by (simp add: IOMP_EPoll_AddClient_def cm_delete_client_def delete_socket_def Client_GetSocket_def)
      moreover have "cs_wf ((cm_view ?drop)\<lparr>cs_next := Suc (cs_next (cm_view ?drop))\<rparr>)"
        using wfd unfolding cm_wf_def by (rule cs_wf_next_Suc)
      then have "cm_wf (?drop\<lparr>cm_next := Suc ?a\<rparr>)"
        by (rule cm_wf_via) (simp_all add: option.map_comp o_def)
      moreover have "cm_GetMaxUser (?drop\<lparr>cm_next := Suc ?a\<rparr>) = cm_GetMaxUser m" by (simp add: cm_GetMaxUser_def)
      ultimately show ?thesis by simp
    qed
  qed
qed

interpretation manager_conns: conn_registry cm_wf m_lstChatServer cm_iConnCount cm_GetMaxUser cm_accept_ok
    "cm_accept bd junk uid now type" cm_CloseClient for bd junk uid now type
proof
  fix m assume "cm_wf m"
  then show "cm_iConnCount m = int (length (m_lstChatServer m))"
    using cs_wf_list(3) [of "cm_view m"] by (simp add: cm_wf_def)
next
  fix m a assume "cm_wf m" "a \<in> set (m_lstChatServer m)"
  then obtain c p fd where "cm_CloseClient m a = Inr (cm_closed m a p fd)" "cm_wf (cm_closed m a p fd)"
    by (rule cm_CloseClient_ok)
  then show "\<exists>m'. cm_CloseClient m a = Inr m' \<and> cm_wf m' \<and> cm_GetMaxUser m' = cm_GetMaxUser m \<and>
      m_lstChatServer m' = removeAll a (m_lstChatServer m)"
    by (simp add: cm_closed_def cm_GetMaxUser_def)
qed (rule cm_accept_round, assumption, assumption)

end
