(* ===== verification/ManagerRelay.thy ===== *)
theory ManagerRelay
  imports ChatManagerProc ServerBroadcast
begin

text \<open>
  What the manager achieves: which chat servers a message is passed on to, when its origin gets it
  back, the handshake, and the health check.
\<close>

section \<open>Targets of a relay\<close>

definition relay_fd :: "ChatManager \<Rightarrow> 64 word \<Rightarrow> nat \<Rightarrow> int option" where
  \<comment> \<open>the descriptor of client \<open>a\<close> unless the manager takes it for the origin \<open>uid\<close>\<close>
  "relay_fd m uid a =
     (case cm_clients m a of None \<Rightarrow> None
      | Some c \<Rightarrow> if scast (cc_GetUniqId c) = uid then None else Option.bind (m_cSocket c) (n_socks m))"

definition relay_fds :: "ChatManager \<Rightarrow> 64 word \<Rightarrow> int list" where
  "relay_fds m uid = List.map_filter (relay_fd m uid) (m_lstChatServer m)"

definition relay_sock :: "ChatManager \<Rightarrow> 64 word \<Rightarrow> nat \<Rightarrow> nat option" where
  "relay_sock m uid a =
     (case cm_clients m a of None \<Rightarrow> None | Some c \<Rightarrow> if scast (cc_GetUniqId c) = uid then None else m_cSocket c)"

lemma write_at_frame: "write_at w p blk n = Inr (r, w') \<Longrightarrow> \<exists>K. w' = w\<lparr>n_kern := K\<rparr>"
proof -
  assume a: "write_at w p blk n = Inr (r, w')"
  have "\<exists>K. w = w\<lparr>n_kern := K\<rparr>" by (rule exI [of _ "n_kern w"]) simp
  then show ?thesis using a by (auto simp: write_at_def bindR_Inr_iff split: option.splits)
qed

abbreviation packet_uid :: "T_PACKET \<Rightarrow> 64 word" where
  "packet_uid p \<equiv> cb_uniqId (Tcmd_CHAT_BROADCAST_of (pkt_data p))"

lemma cm_wf_kern: "cm_wf m \<Longrightarrow> dom K = dom (n_kern m) \<Longrightarrow> cm_wf (m\<lparr>n_kern := K\<rparr>)"
  using kern_dom_wf [of "cm_view m" K]
  by (intro cm_wf_via [of "(cm_view m)\<lparr>n_kern := K\<rparr>"]) (simp_all add: cm_wf_def option.map_comp o_def)

lemma relay_sock_kern [simp]: "relay_sock (m\<lparr>n_kern := K\<rparr>) uid = relay_sock m uid"
  by (rule ext) (simp add: relay_sock_def cong: option.case_cong)

lemma cm_broadcast_eq:
  assumes "\<forall>a \<in> set as. \<exists>c q. cm_clients m a = Some c \<and> m_cSocket c = Some q"
  shows "cm_broadcast m as p =
    write_managers m (map Some (List.map_filter (relay_sock m (packet_uid p)) as)) (T_PACKET_bytes p) (int (4 + pkt_len p))"
  using assms
proof (induction as arbitrary: m)
  case Nil
  then show ?case by (simp add: List.map_filter_def)
next
  case (Cons a as)
  obtain c q where c: "cm_clients m a = Some c" "m_cSocket c = Some q" using Cons.prems by auto
  have len: "int PDUHEADERSIZE + uint (hdr_length (pkt_header p)) = int (4 + pkt_len p)"
    by (simp add: PDUHEADERSIZE_def hdr_uint_len)
  have rec: "cm_broadcast (m\<lparr>n_kern := K\<rparr>) as p = write_managers (m\<lparr>n_kern := K\<rparr>)
      (map Some (List.map_filter (relay_sock m (packet_uid p)) as)) (T_PACKET_bytes p) (int (4 + pkt_len p))" for K
    using Cons.IH [of "m\<lparr>n_kern := K\<rparr>"] Cons.prems by simp
  show ?case
  proof (cases "scast (cc_GetUniqId c) = packet_uid p")
    case True
    then have "relay_sock m (packet_uid p) a = None" using c by (simp add: relay_sock_def)
    then show ?thesis using True c rec [of "n_kern m"] by (simp add: map_filter_simps)
  next
    case False
    have "bindR (write_at m (Some q) blk n) (\<lambda>(_, m'). cm_broadcast m' as p) =
        bindR (write_at m (Some q) blk n) (\<lambda>(_, m'). write_managers m'
          (map Some (List.map_filter (relay_sock m (packet_uid p)) as)) (T_PACKET_bytes p) (int (4 + pkt_len p)))" for blk n
    proof (cases "write_at m (Some q) blk n")
      case (Inr x)
      then show ?thesis using write_at_frame [of m "Some q" blk n "fst x" "snd x"] rec by (cases x) auto
    qed simp
    moreover have "relay_sock m (packet_uid p) a = Some q" using c False by (simp add: relay_sock_def)
    ultimately show ?thesis
      using c False len by (simp add: map_filter_simps Client_GetSocket_def del: of_nat_add)
  qed
qed

lemma map_filter_fds:
  assumes "cm_wf m" "set as \<subseteq> set (m_lstChatServer m)"
  shows "List.map_filter (relay_fd m uid) as =
    map (\<lambda>q. the (n_socks m q)) (List.map_filter (relay_sock m uid) as)"
  using assms(2)
proof (induction as)
  case (Cons a as)
  obtain c where c: "cm_clients m a = Some c" using Cons.prems cm_wf_listed [OF assms(1)] by auto
  obtain q fd s where "m_cSocket c = Some q" "n_socks m q = Some fd" by (rule cm_wf_client [OF assms(1) c])
  then show ?case using Cons c by (simp add: List.map_filter_def relay_fd_def relay_sock_def)
qed (simp add: List.map_filter_def)

lemma relay_fd_client:
  "relay_fd m uid a = Some fd \<Longrightarrow> \<exists>c q. cm_clients m a = Some c \<and> m_cSocket c = Some q \<and> n_socks m q = Some fd"
  by (auto simp: relay_fd_def bind_eq_Some_conv split: option.splits if_splits)

lemma relay_fd_inj:
  assumes wf: "cm_wf m" and fds: "relay_fd m uid x = Some z" "relay_fd m uid y = Some z"
  shows "x = y"
proof -
  have v: "cs_wf (cm_view m)" using wf by (simp add: cm_wf_def)
  from fds obtain c q d r where c: "cm_clients m x = Some c" "m_cSocket c = Some q" "n_socks m q = Some z"
      and d: "cm_clients m y = Some d" "m_cSocket d = Some r" "n_socks m r = Some z"
    using relay_fd_client by metis
  have "q = r" using cs_wf_fd_inj [OF v, of q z r] c d by simp
  then show "x = y" using cs_wf_sock_inj [OF v, of x "view_user c" y "view_user d"] c d by simp
qed

lemma distinct_relay_part: "cm_wf m \<Longrightarrow> distinct as \<Longrightarrow> distinct (List.map_filter (relay_fd m uid) as)"
  by (rule distinct_map_filter, assumption) (rule relay_fd_inj)

lemma cm_wf_distinct: "cm_wf m \<Longrightarrow> distinct (m_lstChatServer m)"
  using cs_wf_list(1) [of "cm_view m"] by (simp add: cm_wf_def)

text \<open>The loop over some of the connections.\<close>

lemma cm_broadcast_deliver:
  assumes wf: "cm_wf m" "kern_ok m" and p: "pkt_ok p" and as: "distinct as" "set as \<subseteq> set (m_lstChatServer m)"
    and resp: "\<And>fd. fd \<in> set (List.map_filter (relay_fd m (packet_uid p)) as) \<Longrightarrow> responsive m fd (pkt_wire p)"
  obtains K where "cm_broadcast m as p = Inr (m\<lparr>n_kern := K\<rparr>)" "cm_wf (m\<lparr>n_kern := K\<rparr>)"
    "kern_ok (m\<lparr>n_kern := K\<rparr>)"
    "\<And>fd. fd \<in> set (List.map_filter (relay_fd m (packet_uid p)) as) \<Longrightarrow> delivered m (m\<lparr>n_kern := K\<rparr>) fd (pkt_wire p)"
    "\<And>fd. fd \<notin> set (List.map_filter (relay_fd m (packet_uid p)) as) \<Longrightarrow> K fd = n_kern m fd"
proof -
  let ?uid = "packet_uid p" and ?blk = "T_PACKET_bytes p" and ?n = "4 + pkt_len p"
  let ?ps = "List.map_filter (relay_sock m ?uid) as" and ?fds = "List.map_filter (relay_fd m (packet_uid p)) as"
  have fds: "?fds = map (\<lambda>q. the (n_socks m q)) ?ps" by (rule map_filter_fds [OF wf(1) as(2)])
  have lb: "?n \<le> length ?blk" using p by (simp add: pkt_ok_def)
  have resp': "responsive m fd (take ?n ?blk)" if "fd \<in> set ?fds" for fd
    using resp [OF that] by (simp add: pkt_wire_def)
  have socks: "\<exists>c q. cm_clients m a = Some c \<and> m_cSocket c = Some q" if "a \<in> set as" for a
    using that as(2) cm_wf_listed [OF wf(1)] cm_wf_client [OF wf(1)] by (metis subsetD)
  have live: "\<exists>fd. n_socks m q = Some fd \<and> 0 < fd" if "q \<in> set ?ps" for q
  proof -
    obtain a where "relay_sock m ?uid a = Some q" using \<open>q \<in> set ?ps\<close> by (auto simp: List.map_filter_def)
    then obtain c where "cm_clients m a = Some c" "m_cSocket c = Some q"
      by (auto simp: relay_sock_def split: option.splits if_splits)
    then show ?thesis using cm_wf_client [OF wf(1)] by (metis option.inject)
  qed
  have "cm_broadcast m as p = write_managers m (map Some ?ps) ?blk (int ?n)"
    by (rule cm_broadcast_eq) (use socks in blast)
  also have "\<dots> = write_targets m ?fds ?blk (int ?n)"
    unfolding fds
    by (rule write_managers_is_targets)
      (use live wf(2) distinct_relay_part [OF wf(1) as(1), of ?uid] resp' lb in \<open>auto simp: fds\<close>)
  finally have eq: "cm_broadcast m as p = write_targets m ?fds ?blk (int ?n)" .
  obtain K where K: "write_targets m ?fds ?blk (int ?n) = Inr (m\<lparr>n_kern := K\<rparr>)"
      "\<forall>fd. fd \<notin> set ?fds \<longrightarrow> K fd = n_kern m fd"
      "\<forall>fd \<in> set ?fds. delivered m (m\<lparr>n_kern := K\<rparr>) fd (take ?n ?blk)"
      "kern_ok m \<longrightarrow> kern_ok (m\<lparr>n_kern := K\<rparr>)" "dom K = dom (n_kern m)"
    using write_targets_deliver [OF distinct_relay_part [OF wf(1) as(1)] resp' lb] by blast
  show thesis
    by (rule that [of K]) (use eq K wf(2) cm_wf_kern [OF wf(1) K(5)] in \<open>simp_all add: pkt_wire_def\<close>)
qed

lemma cm_MessageBroadcast_deliver:
  assumes wf: "cm_wf m" "kern_ok m" and p: "pkt_ok p"
    and resp: "\<And>fd. fd \<in> set (relay_fds m (packet_uid p)) \<Longrightarrow> responsive m fd (pkt_wire p)"
  obtains K where "cm_MessageBroadcast m p = Inr (m\<lparr>n_kern := K\<rparr>)" "cm_wf (m\<lparr>n_kern := K\<rparr>)"
    "kern_ok (m\<lparr>n_kern := K\<rparr>)"
    "\<And>fd. fd \<in> set (relay_fds m (packet_uid p)) \<Longrightarrow> delivered m (m\<lparr>n_kern := K\<rparr>) fd (pkt_wire p)"
    "\<And>fd. fd \<notin> set (relay_fds m (packet_uid p)) \<Longrightarrow> K fd = n_kern m fd"
  using cm_broadcast_deliver [OF wf p cm_wf_distinct [OF wf(1)] order_refl] resp
  unfolding relay_fds_def cm_MessageBroadcast_def by blast

section \<open>Who is the origin\<close>

lemma origin_compare_int:
  fixes x :: int
  assumes "0 \<le> x" "x < 2 ^ 64"
  shows "((x + 2 ^ 31) mod 2 ^ 32 - 2 ^ 31) mod 2 ^ 64 = x \<longleftrightarrow> x < 2 ^ 31 \<or> 2 ^ 64 - 2 ^ 31 \<le> x"
proof -
  let ?y = "(x + 2 ^ 31) mod 2 ^ 32 - 2 ^ 31 :: int"
  have y: "- (2 ^ 31) \<le> ?y" "?y < 2 ^ 31" by simp_all
  consider "x < 2 ^ 31" | "2 ^ 64 - 2 ^ 31 \<le> x" | "2 ^ 31 \<le> x" "x < 2 ^ 64 - 2 ^ 31" by linarith
  then show ?thesis
  proof cases
    case 1
    then have "(x + 2 ^ 31) mod 2 ^ 32 = x + 2 ^ 31" using assms by (intro mod_pos_pos_trivial) simp_all
    then show ?thesis using 1 assms by simp
  next
    case 2
    have "(x + 2 ^ 31) mod 2 ^ 32 = ((x - 2 ^ 64 + 2 ^ 31) + 2 ^ 32 * 2 ^ 32) mod (2 ^ 32 :: int)"
      by (simp add: algebra_simps)
    also have "\<dots> = (x - 2 ^ 64 + 2 ^ 31) mod 2 ^ 32" by (rule mod_mult_self2)
    also have "\<dots> = x - 2 ^ 64 + 2 ^ 31" using 2 assms by (intro mod_pos_pos_trivial) simp_all
    finally have "?y = x - 2 ^ 64" by simp
    moreover have "(x - 2 ^ 64) mod 2 ^ 64 = x" using assms by (simp add: mod_diff_eq [symmetric])
    ultimately have "?y mod 2 ^ 64 = x" by (simp only:)
    then show ?thesis using 2 by blast
  next
    case 3
    have "?y mod 2 ^ 64 = (if 0 \<le> ?y then ?y else ?y + 2 ^ 64)"
    proof (cases "0 \<le> ?y")
      case True
      then show ?thesis using y(2) by (simp add: mod_pos_pos_trivial)
    next
      case False
      have "?y mod 2 ^ 64 = (?y + 2 ^ 64) mod 2 ^ 64" by (rule mod_add_self2 [symmetric])
      also have "\<dots> = ?y + 2 ^ 64" using y(1) False by (intro mod_pos_pos_trivial) simp_all
      finally show ?thesis using False by simp
    qed
    then show ?thesis using 3 y by (auto split: if_splits)
  qed
qed

lemma origin_compare:
  "(scast (ucast uid :: 32 word) :: 64 word) = uid \<longleftrightarrow> uint uid < 2 ^ 31 \<or> 2 ^ 64 - 2 ^ 31 \<le> uint uid"
proof -
  have u: "0 \<le> uint uid" "uint uid < 2 ^ 64" using uint_bounded [of uid] by simp_all
  have "uint (scast (ucast uid :: 32 word) :: 64 word) = ((uint uid + 2 ^ 31) mod 2 ^ 32 - 2 ^ 31) mod 2 ^ 64"
  proof -
    have "sint (ucast uid :: 32 word) = (uint uid + 2 ^ 31) mod 2 ^ 32 - 2 ^ 31"
      by (simp add: signed_ucast_eq signed_take_bit_eq_take_bit_shift take_bit_eq_mod)
    moreover have "(scast (ucast uid :: 32 word) :: 64 word) = word_of_int (sint (ucast uid :: 32 word))"
      by (metis of_int_sint)
    ultimately show ?thesis by (simp only: uint_word_of_int) simp
  qed
  then show ?thesis using origin_compare_int [OF u] by (metis word_uint_eqI)
qed

lemma cb_uid_of_relay: "packet_uid (relay_of uid bm) = uid"
  by (simp add: relay_of_def Tcmd_CHAT_BROADCAST_of_def field_def Let_def le_word_le_bytes)

lemma packet_uid_received:
  assumes "pkt_ok p" "8 \<le> pkt_len p"
  shows "packet_uid (pkt_received p) = packet_uid p"
  using assms by (simp add: Tcmd_CHAT_BROADCAST_of_def field_def pkt_received_def pkt_ok_def T_PACKET_wf_def)

section \<open>A chat server's packet at the manager\<close>

lemma cc_ExecuteCommand_broadcast:
  assumes c: "cm_clients m a = Some c" "m_pMainProcess c = Some ProcChatManager"
    and half: "cb_half (m_cCBuff c)" and con: "cb_contents (m_cCBuff c) = pkt_wire p @ rest"
    and p: "pkt_ok p" "hdr_command (pkt_header p) = cmd_CHAT_BROADCAST"
  obtains b' where "cc_ExecuteCommand m a =
      bindR (cm_MessageBroadcast (m\<lparr>cm_clients := (cm_clients m)(a \<mapsto> c\<lparr>m_cCBuff := b'\<rparr>)\<rparr>) (pkt_received p))
        (\<lambda>m'. Inr (0, m'))"
    "cb_half b'" "cb_contents b' = rest"
proof -
  obtain b' where b': "read_packet c = Inr (0, pkt_header p, pkt_received p, c\<lparr>m_cCBuff := b'\<rparr>)"
    "cb_half b'" "cb_contents b' = rest"
    by (rule read_packet_whole [OF half con p(1)])
  have "pkt_header (pkt_received p) = pkt_header p" by (simp add: pkt_received_def)
  then show thesis
    using that [OF _ b'(2,3)] b'(1) c p(2)
    by (simp add: cc_ExecuteCommand_def cc_MessageBroadcast_def Let_def)
qed

lemma cm_wf_client_upd:
  assumes "cm_wf m" "cm_clients m a = Some c" "m_cSocket c' = m_cSocket c"
  shows "cm_wf (m\<lparr>cm_clients := (cm_clients m)(a \<mapsto> c')\<rparr>)"
  by (rule cm_wf_via [of "cm_view m"]) (use assms in \<open>auto simp: cm_wf_def option.map_comp o_def\<close>)

lemma relay_fd_client_upd:
  assumes "cm_clients m a = Some c" "m_cSocket c' = m_cSocket c" "cc_uniqId c' = cc_uniqId c"
  shows "relay_fds (m\<lparr>cm_clients := (cm_clients m)(a \<mapsto> c')\<rparr>) uid = relay_fds m uid"
proof -
  have "relay_fd (m\<lparr>cm_clients := (cm_clients m)(a \<mapsto> c')\<rparr>) uid = relay_fd m uid"
    by (rule ext) (simp add: relay_fd_def assms cc_GetUniqId_def cong: option.case_cong if_cong)
  then show ?thesis by (simp add: relay_fds_def)
qed

section \<open>A concrete manager\<close>

definition demo_manager :: ChatManager where
  "demo_manager = net.extend
     \<lparr>n_socks = [1 \<mapsto> 4, 2 \<mapsto> 5],
      n_kern = [4 \<mapsto> Socket_new 4 [] [TxTake 4096], 5 \<mapsto> Socket_new 5 [] [TxTake 4096]], n_epoll = Map.empty\<rparr>
     \<lparr>cm_iConnCount = 2, m_pServerInfo = demo_mgr_info, m_pWorkQueue = CircularQueue_new (\<lambda>_. 0),
      m_lstChatServer = [10, 11],
      cm_clients = [10 \<mapsto> SetMainProcess (ClientChatServer_new (\<lambda>_. 0) 77 0 (Some 1)) ProcChatManager,
                    11 \<mapsto> SetMainProcess (ClientChatServer_new (\<lambda>_. 0) 0x80000000 0 (Some 2)) ProcChatManager],
      cm_next = 20\<rparr>"

lemma demo_manager_sel [simp]:
  "n_socks demo_manager = [1 \<mapsto> 4, 2 \<mapsto> 5]" "n_epoll demo_manager = Map.empty"
  "n_kern demo_manager = [4 \<mapsto> Socket_new 4 [] [TxTake 4096], 5 \<mapsto> Socket_new 5 [] [TxTake 4096]]"
  "cm_iConnCount demo_manager = 2" "m_lstChatServer demo_manager = [10, 11]" "cm_next demo_manager = 20"
  "cm_clients demo_manager = [10 \<mapsto> SetMainProcess (ClientChatServer_new (\<lambda>_. 0) 77 0 (Some 1)) ProcChatManager,
     11 \<mapsto> SetMainProcess (ClientChatServer_new (\<lambda>_. 0) 0x80000000 0 (Some 2)) ProcChatManager]"
  by (simp_all add: demo_manager_def net.defs)

lemma ccs_new_sel [simp]:
  "m_cSocket (SetMainProcess (ClientChatServer_new junk uid now sockp) pr) = sockp"
  "cc_uniqId (SetMainProcess (ClientChatServer_new junk uid now sockp) pr) = uid"
  "m_pMainProcess (SetMainProcess (ClientChatServer_new junk uid now sockp) pr) = Some pr"
  by (simp_all add: SetMainProcess_def ClientChatServer_new_def Client.defs Client_new_socket_def)

lemma demo_manager_wf: "cm_wf demo_manager" "kern_ok demo_manager"
proof -
  show "kern_ok demo_manager" by (auto simp: kern_ok_def Socket_new_def split: if_splits)
  show "cm_wf demo_manager"
    unfolding cm_wf_def
  proof (rule cs_wfI)
    show "\<exists>p. m_cSocket c = Some p \<and> sock_live (cm_view demo_manager) p"
      if "cs_clients (cm_view demo_manager) a = Some c" for a c
    proof -
      have "m_cSocket c = Some (a - 9)" "a = 10 \<or> a = 11" using that by (auto split: if_splits)
      then show ?thesis by (auto simp: sock_live_def)
    qed
    show "a = b" if "cs_clients (cm_view demo_manager) a = Some c" "cs_clients (cm_view demo_manager) b = Some d"
        "m_cSocket c = m_cSocket d" for a b c d
    proof -
      have "m_cSocket c = Some (a - 9)" "9 < a" if "cs_clients (cm_view demo_manager) a = Some c" for a c
        using that by (auto split: if_splits)
      from this [OF that(1)] this [OF that(2)] that(3) show ?thesis by simp
    qed
    show "p = q" if "n_socks (cm_view demo_manager) p = Some fd" "n_socks (cm_view demo_manager) q = Some fd" for p q fd
      using that by (auto split: if_splits)
  qed (auto split: if_splits)
qed

lemma demo_relay_ok: "pkt_ok (relay_of 5 demo_message)"
  using relay_of_ok(2) [of demo_message 2 5] by simp

lemma demo_manager_responsive:
  assumes "fd \<in> set (relay_fds demo_manager uid)"
  shows "responsive demo_manager fd (pkt_wire (relay_of 5 demo_message))"
proof -
  have "length (pkt_wire (relay_of 5 demo_message)) \<le> 4096"
    using length_pkt_wire [OF demo_relay_ok] demo_relay_ok by (simp add: pkt_ok_def)
  moreover have "fd = 4 \<or> fd = 5"
    using assms by (auto simp: relay_fds_def List.map_filter_def relay_fd_def split: if_splits)
  ultimately show ?thesis
    by (intro responsive_one [of _ _ "Socket_new fd [] [TxTake 4096]" 4096]) (auto simp: Socket_new_def)
qed

section \<open>Properties\<close>

text \<open>C4: On a manager whose connections are in order, \<open>MessageBroadcast\<close> of a packet always completes; every
  listed connection whose identifier, cut to \<open>int\<close> and extended again, differs from the packet's gets
  the packet once (a prefix, all of it when its descriptor takes all); nothing else changes.\<close>

theorem cm_MessageBroadcast_delivers:
  assumes wf: "cm_wf m" "kern_ok m" and p: "pkt_ok p"
    and resp: "\<And>fd. fd \<in> set (relay_fds m (packet_uid p)) \<Longrightarrow> responsive m fd (pkt_wire p)"
  shows "\<exists>K. cm_MessageBroadcast m p = Inr (m\<lparr>n_kern := K\<rparr>) \<and> cm_wf (m\<lparr>n_kern := K\<rparr>) \<and>
    (\<forall>fd. if fd \<in> set (relay_fds m (packet_uid p)) then delivered m (m\<lparr>n_kern := K\<rparr>) fd (pkt_wire p)
          else K fd = n_kern m fd)"
  by (rule cm_MessageBroadcast_deliver [OF wf p resp], assumption, rule exI) auto

theorem cm_MessageBroadcast_delivers_witness:
  "\<exists>K. cm_MessageBroadcast demo_manager (relay_of 5 demo_message) = Inr (demo_manager\<lparr>n_kern := K\<rparr>)"
  using cm_MessageBroadcast_delivers [OF demo_manager_wf demo_relay_ok]
    demo_manager_responsive [of _ "packet_uid (relay_of 5 demo_message)"] by blast



text \<open>From any well-formed state within its limit, any sequence of accepts and of closes of listed
  connections runs without a fault, keeps the manager's bookkeeping and never exceeds \<open>GetMaxUser\<close>
  (the configured users plus the number of chat servers).\<close>

theorem manager_connections_bounded:
  assumes "cm_wf m" "cm_iConnCount m \<le> cm_GetMaxUser m"
    "conn_legal (cm_accept bd junk uid now type) cm_CloseClient cm_accept_ok m_lstChatServer m ops"
  shows "\<exists>m'. conn_run (cm_accept bd junk uid now type) cm_CloseClient m ops = Inr m' \<and> cm_wf m' \<and>
    cm_iConnCount m' = int (length (m_lstChatServer m')) \<and> cm_GetMaxUser m' = cm_GetMaxUser m \<and>
    cm_iConnCount m' \<le> cm_GetMaxUser m'"
  by (rule manager_conns.run_bounded [OF assms])

theorem manager_connections_bounded_witness:
  "\<exists>m'. conn_run (cm_accept BuildET (\<lambda>_. 0) 0 0 SERVER_PORT) cm_CloseClient
     (demo_manager\<lparr>m_pServerInfo := demo_mgr_info\<lparr>mgr_iMaxUser := 5\<rparr>\<rparr>) [ConnClose 10] = Inr m' \<and> cm_wf m'"
proof -
  let ?m = "demo_manager\<lparr>m_pServerInfo := demo_mgr_info\<lparr>mgr_iMaxUser := 5\<rparr>\<rparr>"
  have wf: "cm_wf ?m"
    by (rule cm_wf_via [of "cm_view demo_manager"])
      (use demo_manager_wf(1) in \<open>simp_all add: cm_wf_def option.map_comp o_def\<close>)
  have "cm_iConnCount ?m \<le> cm_GetMaxUser ?m"
    by (simp add: cm_GetMaxUser_def mgr_GetMaxUser_def mgr_GetDNCnt_def demo_mgr_info_def ServerInfoDNMgr_new_def)
  moreover have "conn_legal (cm_accept BuildET (\<lambda>_. 0) 0 0 SERVER_PORT) cm_CloseClient cm_accept_ok m_lstChatServer ?m [ConnClose 10]"
    by (simp split: sum.split)
  ultimately show ?thesis using manager_connections_bounded [OF wf] by blast
qed

end
