(* ===== verification/Threads.thy ===== *)
theory Threads
  imports ServerBroadcast ManagerRelay
begin

text \<open>
  The thread classes (src/Thread.cpp, src/ThreadManager.cpp, src/ThreadReceiver.cpp, src/ThreadWorker.cpp,
  src/ThreadBroadcaster.cpp). Each \<open>Run\<close> is an endless loop around a queue; one pass of it is a function
  here. A pass may itself not return, because the packet loop of \<open>ThreadReceiver\<close> leaves only when the ring is
  empty: it is a \<open>partial_function\<close>, whose \<open>None\<close> is a loop that never ends, over results whose \<open>Inl\<close> is a
  fault. What the heap holds where a new message is allocated is a function \<open>junk\<close> of the state.
\<close>

section \<open>Thread and ThreadManager\<close>

record Thread =
  m_bIsStarted :: bool
  m_ThreadID :: int

definition Thread_new :: Thread where
  "Thread_new = \<lparr>m_bIsStarted = False, m_ThreadID = 0\<rparr>"
definition Thread_GetStarted :: "Thread \<Rightarrow> bool" where "Thread_GetStarted t = m_bIsStarted t"
definition Thread_SetStarted :: "Thread \<Rightarrow> bool \<Rightarrow> Thread" where
  "Thread_SetStarted t b = t\<lparr>m_bIsStarted := b\<rparr>"

text \<open>\<open>Spawn\<close>: \<open>created\<close> is the new thread's id if \<open>pthread_create\<close> succeeded. The new thread then marks the
  object as started (\<open>HandlerRunner\<close>).\<close>

definition Thread_Spawn :: "int option \<Rightarrow> Thread \<Rightarrow> bool \<times> Thread" where
  "Thread_Spawn created t =
     (case created of None \<Rightarrow> (False, t) | Some i \<Rightarrow> (True, t\<lparr>m_ThreadID := i\<rparr>))"
definition HandlerRunner :: "Thread \<Rightarrow> Thread" where
  "HandlerRunner t = Thread_SetStarted t True"

text \<open>The manager is a singleton: the pointer, the list of thread pointers, and the thread objects.\<close>

record ThreadManager =
  m_SelfInstance :: bool
  m_lstThreadHandle :: "nat list"
  tm_threads :: "nat \<rightharpoonup> Thread"

definition ThreadManager_GetInstance :: "ThreadManager \<Rightarrow> ThreadManager" where
  "ThreadManager_GetInstance m =
     (if m_SelfInstance m then m else m\<lparr>m_SelfInstance := True, m_lstThreadHandle := []\<rparr>)"

definition ThreadManager_Spawn :: "int option \<Rightarrow> ThreadManager \<Rightarrow> nat \<Rightarrow> (bool \<times> ThreadManager) res" where
  \<comment> \<open>what \<open>Thread::Spawn\<close> returned is not looked at\<close>
  "ThreadManager_Spawn created m a =
     (case tm_threads m a of None \<Rightarrow> Inl UseAfterFree
      | Some t \<Rightarrow> Inr (True, m\<lparr>tm_threads := (tm_threads m)(a \<mapsto> snd (Thread_Spawn created t)),
                              m_lstThreadHandle := m_lstThreadHandle m @ [a]\<rparr>))"

text \<open>The destructor erases a list node and then reads the pointer out of it.\<close>

definition ThreadManager_delete :: "ThreadManager \<Rightarrow> ThreadManager res" where
  "ThreadManager_delete m =
     (case m_lstThreadHandle m of [] \<Rightarrow> Inr m | a # as \<Rightarrow> Inl BadIterator)"

definition ThreadManager_ReleaseInstance :: "ThreadManager \<Rightarrow> ThreadManager res" where
  "ThreadManager_ReleaseInstance m =
     (if m_SelfInstance m then bindR (ThreadManager_delete m) (\<lambda>m'. Inr (m'\<lparr>m_SelfInstance := False\<rparr>))
      else Inr m)"

section \<open>ThreadReceiver\<close>

text \<open>\<open>FillFromSocket\<close> of a listed client: \<open>fionread\<close> is what the \<open>ioctl\<close> of \<open>Available\<close> stored, if anything;
  it stores nothing on a closed descriptor.\<close>

definition cs_FillFromSocket :: "build \<Rightarrow> ChatServer \<Rightarrow> nat \<Rightarrow> int option \<Rightarrow> errno \<Rightarrow>
    (int \<times> ChatServer \<times> errno) res" where
  "cs_FillFromSocket bd w a fionread err =
     bindR (cs_client w a) (\<lambda>c.
     bindR (sock_fd w (Client_GetSocket c)) (\<lambda>fd.
       case n_kern w fd of None \<Rightarrow> Inr (USER_CLOSE, w, err)
       | Some s \<Rightarrow>
           bindR (Client_FillFromSocket bd c s (Socket_Available s fionread) err) (\<lambda>(r, c', s', err').
             Inr (r, w\<lparr>cs_clients := (cs_clients w)(a \<mapsto> c'), n_kern := (n_kern w)(fd \<mapsto> s')\<rparr>, err'))))"

definition cs_ExecuteCommand :: "(ChatServer \<Rightarrow> nat \<Rightarrow> byte) \<Rightarrow> ChatServer \<Rightarrow> nat \<Rightarrow> (int \<times> ChatServer) res" where
  \<comment> \<open>\<open>pClient->ExecuteCommand\<close>, the message on its way to the broadcast queue included\<close>
  "cs_ExecuteCommand junk w a =
     bindR (cs_client w a) (\<lambda>c.
     bindR (sock_fd w (Client_GetSocket c)) (\<lambda>fd.
     bindR (ChatUser_ExecuteCommand (junk w) fd c) (\<lambda>(r, c', bm).
     let w1 = w\<lparr>cs_clients := (cs_clients w)(a \<mapsto> c')\<rparr> in
       case bm of None \<Rightarrow> Inr (r, w1)
       | Some m \<Rightarrow> bindR (PutBroadcastQueue w1 m) (\<lambda>w2. Inr (r, w2)))))"

text \<open>The packet loop: with \<open>_USE_LT\<close> a negative result leaves it, otherwise only an empty ring does.\<close>

partial_function (option) packet_loop :: "build \<Rightarrow> (ChatServer \<Rightarrow> nat \<Rightarrow> byte) \<Rightarrow> ChatServer \<Rightarrow> nat \<Rightarrow>
    ChatServer res option" where
  "packet_loop bd junk w a =
     (case cs_client w a of Inl e \<Rightarrow> Some (Inl e)
      | Inr c \<Rightarrow>
          if IsValidPacket c > 0
          then (case cs_ExecuteCommand junk w a of Inl e \<Rightarrow> Some (Inl e)
                | Inr (r, w') \<Rightarrow>
                    if bd = BuildLT \<and> r < 0 then Some (Inr w') else packet_loop bd junk w' a)
          else Some (Inr w))"

definition rearm :: "build \<Rightarrow> ChatServer \<Rightarrow> nat \<Rightarrow> ChatServer res" where
  \<comment> \<open>the end of a pass\<close>
  "rearm bd w a =
     (if bd = BuildOneshot then UpdateEPoll w a (epoll_flags bd) else AddEPoll w a (epoll_flags bd))"

definition then_rearm :: "build \<Rightarrow> nat \<Rightarrow> ChatServer res option \<Rightarrow> ChatServer res option" where
  "then_rearm bd a r = map_option (\<lambda>r. bindR r (\<lambda>w. rearm bd w a)) r"

definition receive_client :: "build \<Rightarrow> (ChatServer \<Rightarrow> nat \<Rightarrow> byte) \<Rightarrow> int option \<Rightarrow> errno \<Rightarrow> ChatServer \<Rightarrow> nat \<Rightarrow>
    ChatServer res option" where
  \<comment> \<open>a pass of \<open>ThreadReceiver::Run\<close> once it has taken the client \<open>a\<close>\<close>
  "receive_client bd junk fionread err w a =
     (case cs_FillFromSocket bd w a fionread err of
        Inl e \<Rightarrow> Some (Inl e)
      | Inr (iRet, w1, err1) \<Rightarrow>
          if iRet = USER_CLOSE then Some (CloseClient w1 a)
          else if iRet \<le> 0 then then_rearm bd a (Some (Inr w1))
          else then_rearm bd a (packet_loop bd junk w1 a))"

definition receiver_pass :: "build \<Rightarrow> (ChatServer \<Rightarrow> nat \<Rightarrow> byte) \<Rightarrow> int option \<Rightarrow> errno \<Rightarrow> ChatServer \<Rightarrow>
    ChatServer res option" where
  "receiver_pass bd junk fionread err w =
     (case GetReceiveQueue w of
        Inl e \<Rightarrow> Some (Inl e)
      | Inr (a, w1) \<Rightarrow> receive_client bd junk fionread err w1 a)"

section \<open>ThreadWorker\<close>

definition cm_FillFromSocket :: "build \<Rightarrow> ChatManager \<Rightarrow> nat \<Rightarrow> int option \<Rightarrow> errno \<Rightarrow>
    (int \<times> ChatManager \<times> errno) res" where
  "cm_FillFromSocket bd m a fionread err =
     bindR (cm_client m a) (\<lambda>c.
     bindR (sock_fd m (Client_GetSocket c)) (\<lambda>fd.
       case n_kern m fd of None \<Rightarrow> Inr (USER_CLOSE, m, err)
       | Some s \<Rightarrow>
           bindR (Client_FillFromSocket bd c s (Socket_Available s fionread) err) (\<lambda>(r, c', s', err').
             Inr (r, m\<lparr>cm_clients := (cm_clients m)(a \<mapsto> c'), n_kern := (n_kern m)(fd \<mapsto> s')\<rparr>, err'))))"

partial_function (option) worker_loop :: "ChatManager \<Rightarrow> nat \<Rightarrow> ChatManager res option" where
  "worker_loop m a =
     (case cm_client m a of Inl e \<Rightarrow> Some (Inl e)
      | Inr c \<Rightarrow>
          if IsValidPacket c > 0
          then (case cc_ExecuteCommand m a of Inl e \<Rightarrow> Some (Inl e)
                | Inr (r, m') \<Rightarrow> if r < 0 then Some (Inr m') else worker_loop m' a)
          else Some (Inr m))"

definition cm_rearm :: "build \<Rightarrow> ChatManager \<Rightarrow> nat \<Rightarrow> ChatManager res" where
  "cm_rearm bd m a =
     (if bd = BuildOneshot then cm_UpdateEPoll m a (cm_flags bd) else cm_AddEPoll m a (cm_flags bd))"

definition work_client :: "build \<Rightarrow> int option \<Rightarrow> errno \<Rightarrow> ChatManager \<Rightarrow> nat \<Rightarrow> ChatManager res option" where
  "work_client bd fionread err m a =
     (case cm_FillFromSocket bd m a fionread err of
        Inl e \<Rightarrow> Some (Inl e)
      | Inr (iRet, m1, err1) \<Rightarrow>
          if iRet = USER_CLOSE then Some (cm_CloseClient m1 a)
          else if iRet \<le> 0 then Some (cm_rearm bd m1 a)
          else map_option (\<lambda>r. bindR r (\<lambda>m. cm_rearm bd m a)) (worker_loop m1 a))"

definition worker_pass :: "build \<Rightarrow> int option \<Rightarrow> errno \<Rightarrow> ChatManager \<Rightarrow> ChatManager res option" where
  "worker_pass bd fionread err m =
     (case GetWorkQueue m of Inl e \<Rightarrow> Some (Inl e) | Inr (a, m1) \<Rightarrow> work_client bd fionread err m1 a)"

section \<open>ThreadBroadcaster\<close>

definition broadcaster_pass :: "ChatServer \<Rightarrow> ChatServer res" where
  "broadcaster_pass w = bindR (GetBroadcastQueue w) (\<lambda>(message, w1). MessageBroadcast w1 message)"

section \<open>The packet loop of the manager always ends\<close>

text \<open>Every packet taken out makes the ring shorter by its header at least.\<close>

lemma Get_used:
  assumes "Get b dst len = Inr (r, d, b')"
  shows "r < 0 \<and> b' = b \<or> r = len \<and> m_iUseBufferSize b' = m_iUseBufferSize b - len"
proof (cases "len > GetUsedSize b")
  case True
  then show ?thesis using assms by (simp add: Get_def RECV_NOT_ENOUGH_def)
next
  case False
  then show ?thesis using assms by (auto simp: Get_def bindR_Inr_iff Let_def)
qed

lemma read_packet_used:
  assumes "read_packet c = Inr (r, h, p, c')" "\<not> r < 0"
  shows "GetUsedSize (m_cCBuff c') + 4 \<le> GetUsedSize (m_cCBuff c)"
proof -
  obtain hdr where "GetHeader (m_cCBuff c) (replicate (PDUHEADERSIZE + 1) 0) = Inr hdr"
    using assms(1) by (cases "GetHeader (m_cCBuff c) (replicate (PDUHEADERSIZE + 1) 0)") (auto simp: read_packet_def)
  then obtain n r' d' b' where n: "0 \<le> n" "Get (m_cCBuff c) (T_PACKET_bytes T_PACKET_zero) (n + 4) = Inr (r', d', b')"
      "r = (if r' < 0 then -1 else 0)" "c' = c\<lparr>m_cCBuff := b'\<rparr>"
    using assms(1)
    by (auto simp: read_packet_def Let_def Client_GetPacket_def bindR_Inr_iff PDUHEADERSIZE_def split: prod.splits)
  with Get_used [OF n(2)] assms(2) show ?thesis by (auto simp: GetUsedSize_def split: if_splits)
qed

lemma write_at_clients: "write_at (m :: ChatManager) p blk n = Inr (r, m') \<Longrightarrow> cm_clients m' = cm_clients m"
  by (auto simp: write_at_def bindR_Inr_iff split: option.splits)

lemma cm_broadcast_clients: "cm_broadcast m as p = Inr m' \<Longrightarrow> cm_clients m' = cm_clients m"
proof (induction m as p rule: cm_broadcast.induct)
  case (2 m a as p)
  then show ?case using write_at_clients by (auto simp: bindR_Inr_iff split: if_splits) fastforce
qed simp

lemma WorkChatServerHello_ring:
  assumes "WorkChatServerHello m a p = Inr m'" "cm_clients m a = Some c"
  shows "\<exists>c'. cm_clients m' a = Some c' \<and> m_cCBuff c' = m_cCBuff c"
  using assms
  by (auto simp: WorkChatServerHello_def SetDS_def Let_def bindR_Inr_iff Client_SetType_def
      dest!: write_at_clients split: if_splits prod.splits)

lemma cc_ExecuteCommand_used:
  assumes "cc_ExecuteCommand m a = Inr (r, m')" "\<not> r < 0" "cm_clients m a = Some c"
  obtains c' where "cm_clients m' a = Some c'" "GetUsedSize (m_cCBuff c') + 4 \<le> GetUsedSize (m_cCBuff c)"
proof -
  from assms obtain r1 h p c1 where rd: "read_packet c = Inr (r1, h, p, c1)"
    by (auto simp: cc_ExecuteCommand_def bindR_Inr_iff)
  let ?m1 = "m\<lparr>cm_clients := (cm_clients m)(a \<mapsto> c1)\<rparr>"
  have r1: "\<not> r1 < 0" using assms rd by (auto simp: cc_ExecuteCommand_def)
  have "\<exists>c'. cm_clients m' a = Some c' \<and> m_cCBuff c' = m_cCBuff c1"
    using assms(1,3) rd r1
    by (auto simp: cc_ExecuteCommand_def Let_def cc_MessageBroadcast_def cm_MessageBroadcast_def WorkDSMPing_def
        bindR_Inr_iff dest!: write_at_clients cm_broadcast_clients WorkChatServerHello_ring [of _ a] split: if_splits)
  then show thesis using that read_packet_used [OF rd r1] by metis
qed

lemma worker_loop_returns: "\<exists>r. worker_loop m a = Some r"
proof (induction "case cm_clients m a of None \<Rightarrow> 0 | Some c \<Rightarrow> nat (GetUsedSize (m_cCBuff c))" arbitrary: m rule: less_induct)
  case less
  show ?case
  proof (cases "cm_clients m a")
    case None
    then show ?thesis by (subst worker_loop.simps) simp
  next
    case (Some c)
    show ?thesis
    proof (cases "IsValidPacket c > 0")
      case False
      then show ?thesis using Some by (subst worker_loop.simps) simp
    next
      case True
      show ?thesis
      proof (cases "cc_ExecuteCommand m a")
        case (Inl e)
        then show ?thesis using Some True by (subst worker_loop.simps) simp
      next
        case (Inr x)
        obtain r m' where x: "cc_ExecuteCommand m a = Inr (r, m')" using Inr by (cases x) simp
        show ?thesis
        proof (cases "r < 0")
          case True
          then show ?thesis using Some x by (subst worker_loop.simps) simp
        next
          case False
          obtain c' where c': "cm_clients m' a = Some c'" "GetUsedSize (m_cCBuff c') + 4 \<le> GetUsedSize (m_cCBuff c)"
            by (rule cc_ExecuteCommand_used [OF x False Some])
          then have "\<exists>r. worker_loop m' a = Some r"
            using Some True by (intro less.hyps) (simp add: IsValidPacket_def)
          then show ?thesis using Some True False x by (subst worker_loop.simps) simp
        qed
      qed
    qed
  qed
qed

section \<open>The packet loop of a receiver, on a manager's connection\<close>

lemma queue_put_room:
  assumes "rq_wf QSIZE q" "length (rq_items QSIZE q) < QSIZE"
  obtains q' where "queue_put q x = Inr q'" "rq_wf QSIZE q'" "rq_items QSIZE q' = rq_items QSIZE q @ [x]"
proof -
  obtain q' where "ring_enq QSIZE q x = Some q'"
    using assms(2) ring_enq_None [of QSIZE q x] by (cases "ring_enq QSIZE q x") auto
  then show thesis
    using that [of q'] ring_enq_Some [OF assms(1)] by (simp add: queue_put_def CircularQueue_EnQueue_def)
qed

text \<open>A packet of which the header and some of the data have arrived.\<close>

definition partial_packet :: "byte list \<Rightarrow> bool" where
  "partial_packet t \<longleftrightarrow> (\<exists>h part. t = PACKET_HEADER_bytes h @ part \<and> length part < unat (hdr_length h))"

definition with_work :: "ChatServer \<Rightarrow> nat \<Rightarrow> ChatUser \<Rightarrow> CircularBuff \<Rightarrow> BroadcastMessage cqueue \<Rightarrow> ChatServer" where
  "with_work w a c b q = w\<lparr>cs_clients := (cs_clients w)(a \<mapsto> c\<lparr>m_cCBuff := b\<rparr>), m_pBroadcastQueue := q\<rparr>"

lemma with_work_sel [simp]:
  "cs_clients (with_work w a c b q) a = Some (c\<lparr>m_cCBuff := b\<rparr>)" "n_socks (with_work w a c b q) = n_socks w"
  "m_pBroadcastQueue (with_work w a c b q) = q"
  "with_work (with_work w a c b q) a (c\<lparr>m_cCBuff := b\<rparr>) b' q' = with_work w a c b' q'"
  by (simp_all add: with_work_def)

lemma with_work_same: "cs_clients w a = Some c \<Longrightarrow> with_work w a c (m_cCBuff c) (m_pBroadcastQueue w) = w"
  by (simp add: with_work_def fun_upd_idem)

lemma packet_loop_step:
  assumes "cs_clients w a = Some c" "IsValidPacket c > 0" "cs_ExecuteCommand junk w a = Inr (r, w')" "\<not> r < 0"
  shows "packet_loop bd junk w a = packet_loop bd junk w' a"
  using assms by (subst packet_loop.simps) simp

lemma packet_loop_empty:
  assumes "cs_clients w a = Some c" "cb_wf (m_cCBuff c)" "cb_contents (m_cCBuff c) = []"
  shows "packet_loop bd junk w a = Some (Inr w)"
  using assms cb_wf_used [of "m_cCBuff c"] by (subst packet_loop.simps) (simp add: IsValidPacket_def GetUsedSize_def)

text \<open>A pass of the loop that changes nothing is repeated for ever.\<close>

lemma packet_loop_spins:
  assumes "bd \<noteq> BuildLT" "cs_clients w a = Some c" "IsValidPacket c > 0" "cs_ExecuteCommand junk w a = Inr (r, w)"
  shows "packet_loop bd junk w a = None"
proof -
  have False if "packet_loop bd junk w a = Some y" for y
  proof -
    have "bd \<noteq> BuildLT \<longrightarrow> cs_clients w a = Some c \<longrightarrow> cs_ExecuteCommand junk w a \<noteq> Inr (r, w)"
    proof (rule packet_loop.raw_induct [where P = "\<lambda>bd junk w a y. bd \<noteq> BuildLT \<longrightarrow> cs_clients w a = Some c \<longrightarrow>
        cs_ExecuteCommand junk w a \<noteq> Inr (r, w)", OF _ that])
    qed (use assms(3) in \<open>auto split: if_splits\<close>)
    then show False using assms by simp
  qed
  then show ?thesis using assms by (cases "packet_loop bd junk w a") auto
qed

lemma packet_loop_relays:
  assumes c: "m_eType c = CLIENT_CHAT_MANAGER" "m_pMainProcess c = Some ProcChatServer"
      "m_cSocket c = Some p" "n_socks w p = Some fd"
    and ring: "cb_half (m_cCBuff c)" "cb_contents (m_cCBuff c) = concat (map pkt_wire ps) @ tail"
    and ps: "\<forall>p \<in> set ps. relayable p" and a: "cs_clients w a = Some c"
    and room: "rq_wf QSIZE (m_pBroadcastQueue w)" "length (rq_items QSIZE (m_pBroadcastQueue w)) + length ps \<le> QSIZE"
  shows "\<exists>b q ms. packet_loop bd junk w a = packet_loop bd junk (with_work w a c b q) a \<and>
    cb_half b \<and> cb_contents b = tail \<and> rq_wf QSIZE q \<and> rq_items QSIZE q = rq_items QSIZE (m_pBroadcastQueue w) @ ms \<and>
    list_all2 (\<lambda>p m. \<exists>j. m = relayed_message j fd p) ps ms"
  using assms
proof (induction ps arbitrary: w c)
  case Nil
  then show ?case
    using with_work_same [OF Nil.prems(8)]
    by (intro exI [of _ "m_cCBuff c"] exI [of _ "m_pBroadcastQueue w"] exI [of _ "[]"]) simp
next
  case (Cons x ps)
  obtain b' where b': "ChatUser_ExecuteCommand (junk w) fd c =
      Inr (0, c\<lparr>m_cCBuff := b'\<rparr>, Some (relayed_message (junk w) fd x))"
      "cb_half b'" "cb_contents b' = concat (map pkt_wire ps) @ tail"
    by (rule ExecuteCommand_relays [OF Cons.prems(1,2,5), of x "concat (map pkt_wire ps) @ tail" "junk w" fd])
      (use Cons.prems in simp_all)
  obtain q' where q': "queue_put (m_pBroadcastQueue w) (relayed_message (junk w) fd x) = Inr q'" "rq_wf QSIZE q'"
      "rq_items QSIZE q' = rq_items QSIZE (m_pBroadcastQueue w) @ [relayed_message (junk w) fd x]"
    by (rule queue_put_room [OF Cons.prems(9)]) (use Cons.prems(10) in simp)
  have wf: "cb_wf (m_cCBuff c)" using Cons.prems(5) by (simp add: cb_half_def)
  have ok: "pkt_ok x" using Cons.prems(7) by (simp add: relayable_def)
  have "0 < length (cb_contents (m_cCBuff c))" using Cons.prems(6) length_pkt_wire [OF ok] by simp
  then have used: "IsValidPacket c > 0" using cb_wf_used [OF wf] by (simp add: IsValidPacket_def GetUsedSize_def)
  have "cs_ExecuteCommand junk w a = Inr (0, with_work w a c b' q')"
    using Cons.prems(3,4,8) b'(1) q'(1)
    by (simp add: cs_ExecuteCommand_def Client_GetSocket_def PutBroadcastQueue_def with_work_def)
  then have step: "packet_loop bd junk w a = packet_loop bd junk (with_work w a c b' q') a"
    by (rule packet_loop_step [OF Cons.prems(8) used]) simp
  let ?w = "with_work w a c b' q'" and ?c = "c\<lparr>m_cCBuff := b'\<rparr>"
  have "\<exists>b q ms. packet_loop bd junk ?w a = packet_loop bd junk (with_work ?w a ?c b q) a \<and>
    cb_half b \<and> cb_contents b = tail \<and> rq_wf QSIZE q \<and> rq_items QSIZE q = rq_items QSIZE (m_pBroadcastQueue ?w) @ ms \<and>
    list_all2 (\<lambda>p m. \<exists>j. m = relayed_message j fd p) ps ms"
    by (rule Cons.IH) (use Cons.prems b' q' in simp_all)
  then obtain b q ms where "packet_loop bd junk ?w a = packet_loop bd junk (with_work w a c b q) a"
    "cb_half b" "cb_contents b = tail" "rq_wf QSIZE q" "rq_items QSIZE q = rq_items QSIZE q' @ ms"
    "list_all2 (\<lambda>p m. \<exists>j. m = relayed_message j fd p) ps ms" by auto
  then show ?case
    using step q'(3)
    by (intro exI [of _ b] exI [of _ q] exI [of _ "relayed_message (junk w) fd x # ms"]) auto
qed

lemma packet_loop_partial:
  assumes "m_eType c = CLIENT_CHAT_MANAGER" "m_cSocket c = Some p" "n_socks w p = Some fd"
    "cb_half (m_cCBuff c)" "partial_packet (cb_contents (m_cCBuff c))" "cs_clients w a = Some c"
  shows "packet_loop bd junk w a = (if bd = BuildLT then Some (Inr w) else None)"
proof -
  from assms(5) obtain h part where t: "cb_contents (m_cCBuff c) = PACKET_HEADER_bytes h @ part"
      "length part < unat (hdr_length h)" by (auto simp: partial_packet_def)
  obtain x where "read_packet c = Inr (-1, h, x, c)" using read_packet_partial [OF assms(4) t] by blast
  then have ex: "cs_ExecuteCommand junk w a = Inr (-1, w)"
    using assms by (simp add: cs_ExecuteCommand_def Client_GetSocket_def ChatUser_ExecuteCommand_def Client_GetType_def
        fun_upd_idem)
  have wf: "cb_wf (m_cCBuff c)" using assms(4) by (simp add: cb_half_def)
  have used: "IsValidPacket c > 0" using cb_wf_used [OF wf] t(1) by (simp add: IsValidPacket_def GetUsedSize_def)
  show ?thesis
  proof (cases "bd = BuildLT")
    case True
    then show ?thesis using assms(6) used ex by (subst packet_loop.simps) simp
  next
    case False
    then show ?thesis using packet_loop_spins [OF False assms(6) used ex] by simp
  qed
qed

section \<open>The packet loop of a worker refines packet handling\<close>

text \<open>What the manager does with one packet, the ring left aside: the \<open>switch\<close> of \<open>ExecuteCommand\<close>.\<close>

definition cm_dispatch :: "ChatManager \<Rightarrow> nat \<Rightarrow> T_PACKET \<Rightarrow> ChatManager res" where
  "cm_dispatch m a p =
     (let cmd = hdr_command (pkt_header p) in
      if cmd = cmd_CHAT_BROADCAST then cc_MessageBroadcast m a p
      else if cmd = cmd_HELLO_DS_DSM then WorkChatServerHello m a p
      else if cmd = cmd_HEARTBEAT_DC_DSM then WorkDSMPing m a
      else Inr m)"

fun handle_packets :: "ChatManager \<Rightarrow> nat \<Rightarrow> T_PACKET list \<Rightarrow> ChatManager res" where
  "handle_packets m a [] = Inr m"
| "handle_packets m a (p # ps) = bindR (cm_dispatch m a p) (\<lambda>m'. handle_packets m' a ps)"

definition with_ring :: "nat \<Rightarrow> CircularBuff \<Rightarrow> ChatManager \<Rightarrow> ChatManager" where
  "with_ring a b m = m\<lparr>cm_clients := (cm_clients m)(a := map_option (\<lambda>c. c\<lparr>m_cCBuff := b\<rparr>) (cm_clients m a))\<rparr>"

lemma with_ring_with_ring [simp]: "with_ring a b (with_ring a b' m) = with_ring a b m"
  by (simp add: with_ring_def option.map_comp o_def)

lemma with_ring_same: "cm_clients m a = Some c \<Longrightarrow> with_ring a (m_cCBuff c) m = m"
  by (simp add: with_ring_def fun_upd_idem)

lemma with_ring_sel [simp]:
  "n_socks (with_ring a b m) = n_socks m" "n_kern (with_ring a b m) = n_kern m"
  "m_lstChatServer (with_ring a b m) = m_lstChatServer m" "m_pServerInfo (with_ring a b m) = m_pServerInfo m"
  by (simp_all add: with_ring_def)

lemma sock_fd_with_ring [simp]: "sock_fd (with_ring a b m) p = sock_fd m p"
  by (cases p) (simp_all add: sock_fd_def)

lemma with_ring_kern [simp]: "(with_ring a b m)\<lparr>n_kern := K\<rparr> = with_ring a b (m\<lparr>n_kern := K\<rparr>)"
  by (simp add: with_ring_def)

lemma write_at_with_ring:
  "write_at (with_ring a b m) p blk n = map_sum id (map_prod id (with_ring a b)) (write_at m p blk n)"
proof (cases "sock_fd m p")
  case (Inr fd)
  then show ?thesis
    by (auto simp: write_at_def bindR_def split: option.split sum.split)
qed (simp add: write_at_def)

lemma cm_client_with_ring:
  "cm_client (with_ring a b m) x =
     map_sum id (\<lambda>c. if x = a then c\<lparr>m_cCBuff := b\<rparr> else c) (cm_client m x)"
  by (auto simp: cm_client_def with_ring_def split: option.split)

lemma cm_broadcast_with_ring:
  "cm_broadcast (with_ring a b m) as p = map_sum id (with_ring a b) (cm_broadcast m as p)"
proof (induction m as p rule: cm_broadcast.induct)
  case (2 m x as p)
  show ?case
  proof (cases "cm_client m x")
    case (Inr c)
    then have c: "cm_client (with_ring a b m) x = Inr (if x = a then c\<lparr>m_cCBuff := b\<rparr> else c)"
      by (simp add: cm_client_with_ring)
    show ?thesis
    proof (cases "scast (cc_GetUniqId c) = cb_uniqId (Tcmd_CHAT_BROADCAST_of (pkt_data p))")
      case True
      then show ?thesis using Inr c True 2(2) [of c] by (auto simp: cc_GetUniqId_def)
    next
      case False
      let ?w = "write_at m (Client_GetSocket c) (T_PACKET_bytes p) (int PDUHEADERSIZE + uint (hdr_length (pkt_header p)))"
      show ?thesis
      proof (cases ?w)
        case (Inl e)
        then show ?thesis using Inr False c by (simp add: cc_GetUniqId_def Client_GetSocket_def write_at_with_ring)
      next
        case w: (Inr rm)
        then show ?thesis using Inr False c 2(1) [of c]
          by (cases rm) (simp add: cc_GetUniqId_def Client_GetSocket_def write_at_with_ring)
      qed
    qed
  qed (simp add: cm_client_with_ring)
qed simp

definition welcomed :: "ChatManager \<Rightarrow> nat \<Rightarrow> ClientChatServer \<Rightarrow> T_PACKET \<Rightarrow> ChatManager" where
  "welcomed m a c p = m\<lparr>cm_clients := (cm_clients m)(a \<mapsto>
     c\<lparr>m_eType := CLIENT_CHAT_SERVER, cc_uniqId := hello_uniqId (Tcmd_HELLO_DS_DSM_of (pkt_data p))\<rparr>)\<rparr>"

lemma WorkChatServerHello_eq:
  assumes "cm_client m a = Inr c"
  shows "WorkChatServerHello m a p =
    bindR (write_at (welcomed m a c p) (m_cSocket c)
      (T_PACKET_bytes (hello_ack (hello_uniqId (Tcmd_HELLO_DS_DSM_of (pkt_data p)))
         (if m_pMainProcess c = Some ProcChatManager then mgr_iDSMaxUser (m_pServerInfo m) else 0)))
      (int PDUHEADERSIZE + 20)) (\<lambda>(_, m'). Inr m')"
  using assms
  by (simp add: WorkChatServerHello_def SetDS_def mgr_GetDSMaxUser_def Client_SetType_def Client_GetSocket_def
      welcomed_def Let_def)

lemma cm_dispatch_with_ring:
  "cm_dispatch (with_ring a b m) a p = map_sum id (with_ring a b) (cm_dispatch m a p)"
proof (cases "cm_client m a")
  case (Inl e)
  then show ?thesis
    by (simp add: cm_dispatch_def Let_def cc_MessageBroadcast_def WorkChatServerHello_def WorkDSMPing_def cm_client_with_ring)
next
  case (Inr c)
  have ping: "WorkDSMPing (with_ring a b m) a = map_sum id (with_ring a b) (WorkDSMPing m a)"
    using Inr by (auto simp: WorkDSMPing_def cm_client_with_ring Client_GetSocket_def write_at_with_ring bindR_def
        split: sum.split)
  have bc: "cc_MessageBroadcast (with_ring a b m) a p = map_sum id (with_ring a b) (cc_MessageBroadcast m a p)"
    using Inr by (simp add: cc_MessageBroadcast_def cm_client_with_ring cm_MessageBroadcast_def cm_broadcast_with_ring)
  have hello: "WorkChatServerHello (with_ring a b m) a p = map_sum id (with_ring a b) (WorkChatServerHello m a p)"
  proof -
    let ?c = "c\<lparr>m_cCBuff := b\<rparr>"
    have c: "cm_client (with_ring a b m) a = Inr ?c" using Inr by (simp add: cm_client_with_ring)
    have w: "welcomed (with_ring a b m) a ?c p = with_ring a b (welcomed m a c p)"
      by (cases c) (simp add: welcomed_def with_ring_def)
    show ?thesis
      by (auto simp: WorkChatServerHello_eq [OF c] WorkChatServerHello_eq [OF Inr] w write_at_with_ring bindR_def
          split: sum.split)
  qed
  show ?thesis using ping bc hello by (simp add: cm_dispatch_def Let_def)
qed

lemma handle_packets_with_ring:
  "handle_packets (with_ring a b m) a ps = map_sum id (with_ring a b) (handle_packets m a ps)"
proof (induction ps arbitrary: m)
  case (Cons p ps)
  then show ?case by (cases "cm_dispatch m a p") (simp_all add: cm_dispatch_with_ring)
qed simp

lemma cm_dispatch_ring:
  assumes "cm_dispatch m a p = Inr m'" "cm_clients m a = Some c"
  obtains c' where "cm_clients m' a = Some c'" "m_cCBuff c' = m_cCBuff c"
proof -
  have "\<exists>c'. cm_clients m' a = Some c' \<and> m_cCBuff c' = m_cCBuff c"
    using assms
    by (auto simp: cm_dispatch_def Let_def cc_MessageBroadcast_def cm_MessageBroadcast_def WorkDSMPing_def bindR_Inr_iff
        dest!: write_at_clients cm_broadcast_clients WorkChatServerHello_ring [of _ a] split: if_splits)
  then show thesis using that by blast
qed

lemma cc_ExecuteCommand_whole:
  assumes c: "cm_clients m a = Some c" and ring: "cb_half (m_cCBuff c)" "cb_contents (m_cCBuff c) = pkt_wire p @ rest"
    and p: "pkt_ok p"
  obtains b where "cb_half b" "cb_contents b = rest"
    "cc_ExecuteCommand m a = map_sum id (\<lambda>M. (0, with_ring a b M)) (cm_dispatch m a (pkt_received p))"
proof -
  obtain b where b: "read_packet c = Inr (0, pkt_header p, pkt_received p, c\<lparr>m_cCBuff := b\<rparr>)"
    "cb_half b" "cb_contents b = rest" by (rule read_packet_whole [OF ring p])
  have m1: "m\<lparr>cm_clients := (cm_clients m)(a \<mapsto> c\<lparr>m_cCBuff := b\<rparr>)\<rparr> = with_ring a b m"
    using c by (simp add: with_ring_def)
  have "cc_ExecuteCommand m a =
      bindR (cm_dispatch (with_ring a b m) a (pkt_received p)) (\<lambda>m2. Inr (0, m2))"
    using c b(1) by (simp add: cc_ExecuteCommand_def m1 cm_dispatch_def Let_def)
  also have "\<dots> = map_sum id (\<lambda>M. (0, with_ring a b M)) (cm_dispatch m a (pkt_received p))"
    by (cases "cm_dispatch m a (pkt_received p)") (simp_all add: cm_dispatch_with_ring)
  finally show thesis using that b(2,3) by blast
qed

lemma cc_ExecuteCommand_partial:
  assumes "cm_clients m a = Some c" "cb_half (m_cCBuff c)" "partial_packet (cb_contents (m_cCBuff c))"
  shows "cc_ExecuteCommand m a = Inr (-1, m)"
proof -
  from assms(3) obtain h part where t: "cb_contents (m_cCBuff c) = PACKET_HEADER_bytes h @ part"
      "length part < unat (hdr_length h)" by (auto simp: partial_packet_def)
  obtain x where "read_packet c = Inr (-1, h, x, c)" using read_packet_partial [OF assms(2) t] by blast
  then show ?thesis using assms(1) by (simp add: cc_ExecuteCommand_def fun_upd_idem)
qed

lemma IsValidPacket_pos: "cb_wf (m_cCBuff c) \<Longrightarrow> IsValidPacket c > 0 \<longleftrightarrow> cb_contents (m_cCBuff c) \<noteq> []"
  using cb_wf_used [of "m_cCBuff c"] by (auto simp: IsValidPacket_def GetUsedSize_def)

lemma partial_packet_Nil [simp]: "\<not> partial_packet []"
proof -
  have "length (PACKET_HEADER_bytes h) = 4" for h by simp
  then have "PACKET_HEADER_bytes h \<noteq> []" for h by (metis list.size(3) zero_neq_numeral)
  then show ?thesis by (auto simp: partial_packet_def)
qed

lemma worker_loop_handles:
  assumes "cm_clients m a = Some c" "cb_half (m_cCBuff c)" "cb_contents (m_cCBuff c) = concat (map pkt_wire ps) @ tail"
    and "\<forall>p \<in> set ps. pkt_ok p" and tail: "tail = [] \<or> partial_packet tail"
  shows "case handle_packets m a (map pkt_received ps) of
      Inl e \<Rightarrow> worker_loop m a = Some (Inl e)
    | Inr M \<Rightarrow> \<exists>b. cb_half b \<and> cb_contents b = tail \<and> worker_loop m a = Some (Inr (with_ring a b M))"
  using assms(1-4)
proof (induction ps arbitrary: m c)
  case Nil
  have wf: "cb_wf (m_cCBuff c)" using Nil.prems(2) by (simp add: cb_half_def)
  have "worker_loop m a = Some (Inr m)"
  proof (cases "tail = []")
    case True
    then show ?thesis using Nil.prems IsValidPacket_pos [OF wf] by (subst worker_loop.simps) simp
  next
    case False
    then have "partial_packet (cb_contents (m_cCBuff c))" using tail Nil.prems(3) by simp
    from cc_ExecuteCommand_partial [OF Nil.prems(1,2) this] show ?thesis
      using False Nil.prems IsValidPacket_pos [OF wf] by (subst worker_loop.simps) simp
  qed
  then show ?case
    using Nil.prems with_ring_same [OF Nil.prems(1)] by (auto intro: exI [of _ "m_cCBuff c"])
next
  case (Cons p ps)
  have wf: "cb_wf (m_cCBuff c)" using Cons.prems(2) by (simp add: cb_half_def)
  have ok: "pkt_ok p" using Cons.prems(4) by simp
  have used: "IsValidPacket c > 0"
    using IsValidPacket_pos [OF wf] Cons.prems(3) length_pkt_wire [OF ok] by fastforce
  obtain b where b: "cb_half b" "cb_contents b = concat (map pkt_wire ps) @ tail"
      "cc_ExecuteCommand m a = map_sum id (\<lambda>M. (0, with_ring a b M)) (cm_dispatch m a (pkt_received p))"
    by (rule cc_ExecuteCommand_whole [OF Cons.prems(1,2) _ ok, of "concat (map pkt_wire ps) @ tail"])
      (use Cons.prems(3) in simp_all)
  show ?case
  proof (cases "cm_dispatch m a (pkt_received p)")
    case (Inl e)
    then have "worker_loop m a = Some (Inl e)"
      using b(3) used Cons.prems(1) by (subst worker_loop.simps) simp
    then show ?thesis using Inl by simp
  next
    case (Inr M)
    obtain c' where c': "cm_clients M a = Some c'" by (rule cm_dispatch_ring [OF Inr Cons.prems(1)])
    then have cl: "cm_clients (with_ring a b M) a = Some (c'\<lparr>m_cCBuff := b\<rparr>)" by (simp add: with_ring_def)
    have "worker_loop m a = worker_loop (with_ring a b M) a"
      using b(3) used Cons.prems(1) Inr by (subst worker_loop.simps) simp
    moreover have "case handle_packets (with_ring a b M) a (map pkt_received ps) of
        Inl e \<Rightarrow> worker_loop (with_ring a b M) a = Some (Inl e)
      | Inr N \<Rightarrow> \<exists>b'. cb_half b' \<and> cb_contents b' = tail \<and>
          worker_loop (with_ring a b M) a = Some (Inr (with_ring a b' N))"
      by (rule Cons.IH [OF cl]) (use b(1,2) Cons.prems(4) in simp_all)
    ultimately show ?thesis
      using Inr by (cases "handle_packets M a (map pkt_received ps)") (auto simp: handle_packets_with_ring)
  qed
qed

section \<open>Properties\<close>

text \<open>C10: The packet loop of \<open>ThreadWorker\<close> refines the handling of a list of packets: with the whole packets
  \<open>ps\<close> and perhaps the beginning of another in the ring, it returns, its effect is that of the manager's
  \<open>switch\<close> on \<open>ps\<close> in order (a fault of a handler included), and exactly the unfinished packet is left for
  the next pass.\<close>

theorem worker_refines_handling:
  assumes "cm_clients m a = Some c" "cb_half (m_cCBuff c)"
    and "cb_contents (m_cCBuff c) = concat (map pkt_wire ps) @ tail" "\<forall>p \<in> set ps. pkt_ok p"
    and "tail = [] \<or> partial_packet tail"
  shows "case handle_packets m a (map pkt_received ps) of
      Inl e \<Rightarrow> worker_loop m a = Some (Inl e)
    | Inr M \<Rightarrow> \<exists>b. cb_half b \<and> cb_contents b = tail \<and> worker_loop m a = Some (Inr (with_ring a b M))"
  by (rule worker_loop_handles [OF assms])

definition demo_part :: "byte list" where
  "demo_part = PACKET_HEADER_bytes \<lparr>hdr_command = cmd_CHAT_BROADCAST, hdr_length = 3\<rparr> @ [1]"

lemma demo_part_partial: "partial_packet demo_part"
  unfolding demo_part_def partial_packet_def
  by (intro exI [of _ "\<lparr>hdr_command = cmd_CHAT_BROADCAST, hdr_length = 3\<rparr>"] exI [of _ "[1]"]) simp

lemma length_demo_part: "length demo_part = 5"
  by (simp add: demo_part_def)

text \<open>A heartbeat and the beginning of a packet behind it.\<close>

definition demo_ping :: T_PACKET where
  "demo_ping = \<lparr>pkt_header = \<lparr>hdr_command = cmd_HEARTBEAT_DC_DSM, hdr_length = 0\<rparr>, pkt_data = pkt_data T_PACKET_zero\<rparr>"

lemma demo_ping_ok: "pkt_ok demo_ping"
  using T_PACKET_zero_wf by (simp add: pkt_ok_def T_PACKET_wf_def demo_ping_def pkt_len_def)

theorem worker_refines_handling_witness:
  "\<exists>b. cb_contents b = pkt_wire demo_ping @ demo_part \<and>
    (let m = with_ring 10 b demo_manager in
     case handle_packets m 10 [pkt_received demo_ping] of
       Inl e \<Rightarrow> worker_loop m 10 = Some (Inl e)
     | Inr M \<Rightarrow> \<exists>b'. cb_contents b' = demo_part \<and> worker_loop m 10 = Some (Inr (with_ring 10 b' M)))"
proof -
  have len: "length (pkt_wire demo_ping @ demo_part) < 512000"
    using length_pkt_wire [OF demo_ping_ok] by (simp add: length_demo_part demo_ping_def pkt_len_def)
  obtain b where b: "cb_half b" "cb_contents b = pkt_wire demo_ping @ demo_part" using ring_holding [OF len] by blast
  obtain c where c: "cm_clients demo_manager 10 = Some c" by simp
  then have "cm_clients (with_ring 10 b demo_manager) 10 = Some (c\<lparr>m_cCBuff := b\<rparr>)" by (simp add: with_ring_def)
  from worker_refines_handling [OF this, of "[demo_ping]" demo_part] b demo_ping_ok demo_part_partial
  show ?thesis by (intro exI [of _ b]) (auto simp: Let_def split: sum.splits)
qed

text \<open>The packet loop of \<open>ThreadWorker\<close> always ends, whatever the manager's state and whatever lies in the
  ring: every pass takes at least a header out or leaves the loop.\<close>

theorem worker_loop_terminates: "worker_loop m a \<noteq> None"
  using worker_loop_returns [of m a] by auto

text \<open>C20: The packet loop of \<open>ThreadReceiver\<close> on a connection to a manager puts the messages of all whole packets
  on the broadcast queue, in order. If that empties the ring it returns; if the beginning of another
  packet has arrived too, it returns in the level-triggered build only: in the other two the thread spins
  on it for ever, because a negative result of \<open>ExecuteCommand\<close> does not leave the loop and nothing more
  is read into the ring meanwhile.\<close>

theorem receiver_spins_on_partial_packet:
  assumes a: "cs_clients w a = Some c" "m_eType c = CLIENT_CHAT_MANAGER" "m_pMainProcess c = Some ProcChatServer"
      "m_cSocket c = Some p" "n_socks w p = Some fd"
    and ring: "cb_half (m_cCBuff c)" "cb_contents (m_cCBuff c) = concat (map pkt_wire ps) @ tail"
      "\<forall>p \<in> set ps. relayable p" "tail = [] \<or> partial_packet tail"
    and room: "rq_wf QSIZE (m_pBroadcastQueue w)" "length (rq_items QSIZE (m_pBroadcastQueue w)) + length ps \<le> QSIZE"
  shows "\<exists>b q ms. packet_loop bd junk w a =
      (if tail = [] \<or> bd = BuildLT then Some (Inr (with_work w a c b q)) else None) \<and>
    cb_contents b = tail \<and> rq_items QSIZE q = rq_items QSIZE (m_pBroadcastQueue w) @ ms \<and>
    list_all2 (\<lambda>p m. \<exists>j. m = relayed_message j fd p) ps ms"
proof -
  obtain b q ms where loop: "packet_loop bd junk w a = packet_loop bd junk (with_work w a c b q) a"
    and b: "cb_half b" "cb_contents b = tail" and q: "rq_items QSIZE q = rq_items QSIZE (m_pBroadcastQueue w) @ ms"
      "list_all2 (\<lambda>p m. \<exists>j. m = relayed_message j fd p) ps ms"
    using packet_loop_relays [OF a(2-5) ring(1-3) a(1) room] by blast
  let ?w = "with_work w a c b q"
  have "packet_loop bd junk ?w a = (if tail = [] \<or> bd = BuildLT then Some (Inr ?w) else None)"
  proof (cases "tail = []")
    case True
    then show ?thesis using packet_loop_empty [of ?w a] b by (simp add: cb_half_def)
  next
    case False
    then show ?thesis using packet_loop_partial [of "c\<lparr>m_cCBuff := b\<rparr>" p ?w fd a bd junk] a b ring(4) by auto
  qed
  then show ?thesis using loop b(2) q by auto
qed

theorem receiver_spins_on_partial_packet_witness:
  "\<exists>w c p. cs_clients w 12 = Some c \<and> cb_contents (m_cCBuff c) = pkt_wire p @ demo_part \<and> relayable p \<and>
    packet_loop BuildET (\<lambda>_ _. 0) w 12 = None"
proof -
  let ?p = "relay_of 77 demo_message"
  have p: "relayable ?p" "pkt_ok ?p" using relay_of_ok(2,3) [of demo_message 2 77] by simp_all
  then have len: "length (pkt_wire ?p @ demo_part) < 512000"
    using length_pkt_wire [OF p(2)] by (simp add: length_demo_part pkt_ok_def)
  obtain b where b: "cb_half b" "cb_contents b = pkt_wire ?p @ demo_part" using ring_holding [OF len] by blast
  let ?c = "new_user (\<lambda>_. 0) 0 (Some 3) CLIENT_CHAT_MANAGER\<lparr>m_cCBuff := b\<rparr>"
  let ?w = "demo_server\<lparr>cs_clients := (cs_clients demo_server)(12 \<mapsto> ?c)\<rparr>"
  have q: "rq_wf QSIZE (m_pBroadcastQueue ?w)" "rq_items QSIZE (m_pBroadcastQueue ?w) = []"
    by (simp_all add: demo_server_def ChatServer_new_def net.defs CircularQueue_new_def ring_new_wf ring_new_items QSIZE_pos)
  have "demo_part \<noteq> []" using length_demo_part by auto
  then have "packet_loop BuildET (\<lambda>_ _. 0) ?w 12 = None"
    using receiver_spins_on_partial_packet [of ?w 12 ?c 3 6 "[?p]" demo_part BuildET "\<lambda>_ _. 0"] b p demo_part_partial q
    by (auto simp: QSIZE_def)
  then show ?thesis using b(2) p(1)
    by (intro exI [of _ ?w] exI [of _ ?c] exI [of _ ?p]) simp
qed

text \<open>The packet loop for a user whose ring holds a text that fits a message.\<close>

lemma packet_loop_text:
  assumes a: "cs_clients w a = Some c" "m_eType c \<noteq> CLIENT_CHAT_MANAGER" "m_pMainProcess c = Some ProcChatServer"
      "m_cSocket c = Some p" "n_socks w p = Some fd"
    and b: "cb_half (m_cCBuff c)" "cb_contents (m_cCBuff c) = t" "t \<noteq> []" "length t \<le> 1024"
    and room: "rq_wf QSIZE (m_pBroadcastQueue w)" "length (rq_items QSIZE (m_pBroadcastQueue w)) < QSIZE"
  obtains b' q where "packet_loop BuildET junk w a = Some (Inr (with_work w a c b' q))" "cb_contents b' = []"
    "rq_items QSIZE q = rq_items QSIZE (m_pBroadcastQueue w) @ [user_message (junk w) fd t]"
proof -
  have ne: "IsValidPacket c > 0" using IsValidPacket_pos [of c] b(1-3) by (simp add: cb_half_def)
  obtain b' where b': "ChatUser_ExecuteCommand (junk w) fd c =
      Inr (0, c\<lparr>m_cCBuff := b'\<rparr>, Some (user_message (junk w) fd t))" "cb_half b'" "cb_contents b' = []"
    using ExecuteCommand_text [of c "junk w" fd] a b by auto
  obtain q where q: "queue_put (m_pBroadcastQueue w) (user_message (junk w) fd t) = Inr q"
      "rq_items QSIZE q = rq_items QSIZE (m_pBroadcastQueue w) @ [user_message (junk w) fd t]"
    by (rule queue_put_room [OF room])
  let ?w2 = "with_work w a c b' q"
  have "cs_ExecuteCommand junk w a = Inr (0, ?w2)"
    using a b'(1) q(1) by (simp add: cs_ExecuteCommand_def Client_GetSocket_def PutBroadcastQueue_def with_work_def)
  from packet_loop_step [OF a(1) ne this, of BuildET] have "packet_loop BuildET junk w a = packet_loop BuildET junk ?w2 a"
    by simp
  also have "\<dots> = Some (Inr ?w2)" using packet_loop_empty [of ?w2 a] b' by (simp add: cb_half_def)
  finally show thesis using that b'(3) q(2) by blast
qed

text \<open>C15: A pass of \<open>ThreadReceiver\<close> (edge-triggered build) for a user with an empty ring reads everything that
  has arrived, however it was cut up. Up to 1024 bytes become one message of exactly these bytes on the
  broadcast queue, the ring is empty again and the descriptor is back under \<open>epoll\<close>; more than 1024 bytes
  overrun the message object.\<close>

theorem received_text_is_queued:
  assumes a: "cs_clients w a = Some c" "m_eType c \<noteq> CLIENT_CHAT_MANAGER" "m_pMainProcess c = Some ProcChatServer"
      "m_cSocket c = Some p" "n_socks w p = Some fd" "n_kern w fd = Some s" "n_epoll w fd = None"
    and ring: "cb_wf (m_cCBuff c)" "cb_contents (m_cCBuff c) = []" "m_iBufferSize (m_cCBuff c) = CIR_BUFSIZE"
    and arrived: "rx s = ready chunks later" "chunks_ok chunks" "concat chunks \<noteq> []"
      "length (concat chunks) \<le> 1024000" "0 < avail" "avail \<le> CIR_BUFSIZE"
    and room: "rq_wf QSIZE (m_pBroadcastQueue w)" "length (rq_items QSIZE (m_pBroadcastQueue w)) < QSIZE"
  shows "if length (concat chunks) \<le> 1024
    then \<exists>w' c' j. receive_client BuildET junk (Some avail) err w a = Some (Inr w') \<and>
      rq_items QSIZE (m_pBroadcastQueue w') =
        rq_items QSIZE (m_pBroadcastQueue w) @ [user_message j fd (concat chunks)] \<and>
      cs_clients w' = (cs_clients w)(a \<mapsto> c') \<and> cb_contents (m_cCBuff c') = [] \<and>
      n_kern w' = (n_kern w)(fd \<mapsto> s\<lparr>rx := later\<rparr>) \<and> n_epoll w' = (n_epoll w)(fd \<mapsto> (or EPOLLIN EPOLLET, a))
    else receive_client BuildET junk (Some avail) err w a = Some (Inl OutOfBounds)"
proof -
  let ?t = "concat chunks"
  have free: "GetFreeSize (m_cCBuff c) = CIR_BUFSIZE"
    using cb_wf_used [OF ring(1)] ring by (simp add: GetFreeSize_def)
  have fits: "int (length ?t) \<le> GetFreeSize (m_cCBuff c)" "avail \<le> GetFreeSize (m_cCBuff c)"
    using arrived free by (simp_all add: CIR_BUFSIZE_def)
  obtain b where b: "Put_socket_ET (m_cCBuff c) s avail err = Inr (int (length ?t), b, s\<lparr>rx := later\<rparr>, EAGAIN)"
    "cb_wf b" "cb_contents b = ?t" "m_iBufferSize b = CIR_BUFSIZE"
    using ET_fills [OF ring(1) arrived(5) fits(2) arrived(2,1,3,4) fits(1)] ring by auto
  let ?c = "c\<lparr>m_cCBuff := b\<rparr>"
  let ?w = "w\<lparr>cs_clients := (cs_clients w)(a \<mapsto> ?c), n_kern := (n_kern w)(fd \<mapsto> s\<lparr>rx := later\<rparr>)\<rparr>"
  have "cs_FillFromSocket BuildET w a (Some avail) err = Inr (int (length ?t), ?w, EAGAIN)"
    using a b(1) by (simp add: cs_FillFromSocket_def Client_GetSocket_def Client_FillFromSocket_def Socket_Available_def)
  moreover have "\<not> int (length ?t) = USER_CLOSE" "\<not> int (length ?t) \<le> 0"
    using arrived(3) by (simp_all add: USER_CLOSE_def)
  ultimately have pass: "receive_client BuildET junk (Some avail) err w a =
      then_rearm BuildET a (packet_loop BuildET junk ?w a)" by (auto simp: receive_client_def)
  have ne: "IsValidPacket ?c > 0" using IsValidPacket_pos [of ?c] b(2,3) arrived(3) by simp
  show ?thesis
  proof (cases "length ?t \<le> 1024")
    case True
    have half: "cb_half b" using True b cb_wf_used [OF b(2)] by (simp add: cb_half_def GetUsedSize_def CIR_BUFSIZE_def)
    obtain b' q where work: "packet_loop BuildET junk ?w a = Some (Inr (with_work ?w a ?c b' q))" "cb_contents b' = []"
        "rq_items QSIZE q = rq_items QSIZE (m_pBroadcastQueue ?w) @ [user_message (junk ?w) fd ?t]"
      by (rule packet_loop_text [of ?w a ?c p fd ?t]) (use a half b(3) arrived(3) True room in simp_all)
    let ?w2 = "with_work ?w a ?c b' q"
    have "receive_client BuildET junk (Some avail) err w a =
        Some (Inr (?w2\<lparr>n_epoll := (n_epoll w)(fd \<mapsto> (or EPOLLIN EPOLLET, a))\<rparr>))"
      using a pass work(1) by (simp add: then_rearm_def rearm_def AddEPoll_def Client_GetSocket_def IOMP_EPoll_AddClient_def
          with_work_def)
    moreover have "cs_clients ?w2 = (cs_clients w)(a \<mapsto> ?c\<lparr>m_cCBuff := b'\<rparr>)" by (simp add: with_work_def)
    moreover have "n_kern ?w2 = (n_kern w)(fd \<mapsto> s\<lparr>rx := later\<rparr>)" by (simp add: with_work_def)
    ultimately show ?thesis using True work(2,3) by fastforce
  next
    case False
    then have "cs_ExecuteCommand junk ?w a = Inl OutOfBounds"
      using a ExecuteCommand_text_overflow [of ?c "junk ?w" fd] b cb_wf_used [OF b(2)]
      by (simp add: cs_ExecuteCommand_def Client_GetSocket_def GetUsedSize_def)
    then have "packet_loop BuildET junk ?w a = Some (Inl OutOfBounds)"
      using ne by (subst packet_loop.simps) simp
    then show ?thesis using False pass by (simp add: then_rearm_def)
  qed
qed

text \<open>The shutdown path of both processes is broken: \<open>ReleaseInstance\<close> after at least one \<open>Spawn\<close> reads
  the thread pointer out of a list node that it has just erased; and \<open>Spawn\<close> reports success and lists the
  thread even when \<open>pthread_create\<close> failed.\<close>

theorem ThreadManager_release_faults:
  assumes "m_SelfInstance m" "tm_threads m a = Some t"
  shows "\<exists>m'. ThreadManager_Spawn created m a = Inr (True, m') \<and> a \<in> set (m_lstThreadHandle m') \<and>
    (created = None \<longrightarrow> tm_threads m' a = Some t) \<and> ThreadManager_ReleaseInstance m' = Inl BadIterator"
  using assms
  by (auto simp: ThreadManager_Spawn_def ThreadManager_ReleaseInstance_def ThreadManager_delete_def Thread_Spawn_def
      split: list.split)


theorem ThreadManager_release_faults_witness:
  "\<exists>m'. ThreadManager_Spawn None \<lparr>m_SelfInstance = True, m_lstThreadHandle = [], tm_threads = [7 \<mapsto> Thread_new]\<rparr> 7 = Inr (True, m') \<and>
    ThreadManager_ReleaseInstance m' = Inl BadIterator"
  using ThreadManager_release_faults
    [of "\<lparr>m_SelfInstance = True, m_lstThreadHandle = [], tm_threads = [7 \<mapsto> Thread_new]\<rparr>" 7 Thread_new None] by auto


theorem received_text_is_queued_witness:
  "\<exists>w' c' j. receive_client BuildET (\<lambda>_ _. 0) (Some 2) EINTR
      (demo_server\<lparr>n_kern := (n_kern demo_server)(4 \<mapsto> Socket_new 4 (ready [[104], [105]] []) [])\<rparr>) 10 = Some (Inr w') \<and>
    rq_items QSIZE (m_pBroadcastQueue w') = [user_message j 4 [104, 105]] \<and>
    cs_clients w' 10 = Some c' \<and> cb_contents (m_cCBuff c') = []"
proof -
  let ?w = "demo_server\<lparr>n_kern := (n_kern demo_server)(4 \<mapsto> Socket_new 4 (ready [[104], [105]] []) [])\<rparr>"
  let ?c = "new_user (\<lambda>_. 0) 0 (Some 1) CLIENT_USER"
  have q: "rq_wf QSIZE (m_pBroadcastQueue ?w)" "rq_items QSIZE (m_pBroadcastQueue ?w) = []"
    by (simp_all add: demo_server_def ChatServer_new_def net.defs CircularQueue_new_def ring_new_wf ring_new_items QSIZE_pos)
  have ring: "cb_wf (m_cCBuff ?c)" "cb_contents (m_cCBuff ?c) = []" "m_iBufferSize (m_cCBuff ?c) = CIR_BUFSIZE"
    using cb_wf_used [OF CircularBuff_new_wf, of "\<lambda>_. 0"] CircularBuff_new_wf
    by (simp_all add: CircularBuff_new_eq cb_make_def CIR_BUFSIZE_def)
  have "length (concat [[104], [105 :: byte]]) \<le> 1024" by simp
  then show ?thesis
    using received_text_is_queued [of ?w 10 ?c 1 4 "Socket_new 4 (ready [[104], [105]] []) []" "[[104], [105]]" "[]" 2
        "\<lambda>_ _. 0" EINTR] q ring
    by (auto simp: Socket_new_def chunks_ok_def CIR_BUFSIZE_def QSIZE_def)
qed

end
