(* ===== verification/ClientOwnership.thy ===== *)
theory ClientOwnership
  imports Threads
begin

text \<open>
  The threads of a chat server together, in the edge-triggered build (the Linux one): the main thread polls
  and looks at the events one by one, the accept thread accepts, any number of \<open>ThreadReceiver\<close>s take clients
  from the receive queue and work on them, and a \<open>ThreadBroadcaster\<close> sends. A step is one operation on
  the shared state; a receiver that holds a client may fill its ring, execute commands, close it or put it
  back under \<open>epoll\<close>, in any order and any number of times, so that every interleaving of \<open>receive_client\<close>s is
  among the runs. The invariant is the one the code relies on without any lock: a client is watched by
  \<open>epoll\<close>, or waits in the receive queue, or is in the hands of one thread, never two of these.
\<close>

section \<open>Threads as a step relation\<close>

record rt =
  rt_w :: ChatServer
  rt_batch :: "(32 word \<times> nat) list"
  rt_held :: "nat \<rightharpoonup> nat"

inductive rt_step :: "rt \<Rightarrow> rt \<Rightarrow> bool" where
  poll: "rt_batch s = [] \<Longrightarrow> distinct (map fst kevents) \<Longrightarrow>
     rt_step s (s\<lparr>rt_batch := IOMP_EPoll_Polling (rt_w s) kevents\<rparr>)"
| event: "rt_batch s = (ev, a) # rest \<Longrightarrow> ChatServer_event BuildET now (rt_w s) ev a = Inr w' \<Longrightarrow>
     rt_step s (s\<lparr>rt_w := w', rt_batch := rest\<rparr>)"
| accept: "accept_ok (rt_w s) kern \<Longrightarrow> accept_round BuildET junk now (rt_w s) kern = Inr w' \<Longrightarrow>
     rt_step s (s\<lparr>rt_w := w'\<rparr>)"
| take: "rt_held s t = None \<Longrightarrow> GetReceiveQueue (rt_w s) = Inr (a, w') \<Longrightarrow>
     rt_step s (s\<lparr>rt_w := w', rt_held := (rt_held s)(t \<mapsto> a)\<rparr>)"
| fill: "rt_held s t = Some a \<Longrightarrow> cs_FillFromSocket BuildET (rt_w s) a fionread err = Inr (r, w', err') \<Longrightarrow>
     rt_step s (s\<lparr>rt_w := w'\<rparr>)"
| execute: "rt_held s t = Some a \<Longrightarrow> cs_ExecuteCommand jnk (rt_w s) a = Inr (r, w') \<Longrightarrow>
     rt_step s (s\<lparr>rt_w := w'\<rparr>)"
| close: "rt_held s t = Some a \<Longrightarrow> CloseClient (rt_w s) a = Inr w' \<Longrightarrow>
     rt_step s (s\<lparr>rt_w := w', rt_held := (rt_held s)(t := None)\<rparr>)"
| release: "rt_held s t = Some a \<Longrightarrow> rearm BuildET (rt_w s) a = Inr w' \<Longrightarrow>
     rt_step s (s\<lparr>rt_w := w', rt_held := (rt_held s)(t := None)\<rparr>)"
| broadcast: "broadcaster_pass (rt_w s) = Inr w' \<Longrightarrow> rt_step s (s\<lparr>rt_w := w'\<rparr>)"

definition rt_init :: "ChatServer \<Rightarrow> rt" where
  "rt_init w = \<lparr>rt_w = w, rt_batch = [], rt_held = Map.empty\<rparr>"

section \<open>The invariant\<close>

definition armed :: "ChatServer \<Rightarrow> nat \<Rightarrow> bool" where
  "armed w a \<longleftrightarrow> (\<exists>fd ev. n_epoll w fd = Some (ev, a))"

definition queued :: "ChatServer \<Rightarrow> nat list" where
  "queued w = rq_items QSIZE (m_pReceiveQueue w)"

definition net_own :: "ChatServer \<Rightarrow> bool" where
  "net_own w \<longleftrightarrow> cs_wf w \<and> rq_wf QSIZE (m_pReceiveQueue w) \<and>
     (\<forall>fd ev a. n_epoll w fd = Some (ev, a) \<longrightarrow> client_fd w a = Some fd)"

definition owners :: "ChatServer \<Rightarrow> (32 word \<times> nat) list \<Rightarrow> (nat \<rightharpoonup> nat) \<Rightarrow> bool" where
  "owners w batch held \<longleftrightarrow> distinct (queued w) \<and> inj_on held (dom held) \<and>
     (\<forall>a. a \<in> set (queued w) \<or> a \<in> ran held \<longrightarrow> a \<in> dom (cs_clients w) \<and> \<not> armed w a) \<and>
     set (queued w) \<inter> ran held = {} \<and>
     distinct (map snd batch) \<and> (\<forall>(ev, a) \<in> set batch. armed w a)"

text \<open>A server that is about to run: what is registered with \<open>epoll\<close> are its clients, each at its own descriptor
  (a new server has none), and no client waits.\<close>

definition rt_ready :: "ChatServer \<Rightarrow> bool" where
  "rt_ready w \<longleftrightarrow> net_own w \<and> queued w = []"

inductive rt_reach :: "ChatServer \<Rightarrow> rt \<Rightarrow> bool" for w where
  rt_reach_init: "rt_ready w \<Longrightarrow> rt_reach w (rt_init w)"
| rt_reach_step: "rt_reach w s \<Longrightarrow> rt_step s s' \<Longrightarrow> rt_reach w s'"

definition rt_inv :: "rt \<Rightarrow> bool" where
  "rt_inv s \<longleftrightarrow> net_own (rt_w s) \<and> owners (rt_w s) (rt_batch s) (rt_held s)"

declare net_own_def [wf_defs] owners_def [wf_defs]

lemma client_fd_iff:
  "client_fd w a = Some fd \<longleftrightarrow> (\<exists>c p. cs_clients w a = Some c \<and> m_cSocket c = Some p \<and> n_socks w p = Some fd)"
  by (auto simp: client_fd_def bind_eq_Some_conv)

lemma client_fd_Some: "cs_wf w \<Longrightarrow> cs_clients w a = Some c \<Longrightarrow> \<exists>fd. client_fd w a = Some fd"
  by (metis client_fd_iff cs_wf_client)

lemma armed_fd:
  assumes "net_own w" "client_fd w a = Some fd"
  shows "armed w a \<longleftrightarrow> (\<exists>ev. n_epoll w fd = Some (ev, a))" "n_epoll w fd = Some (ev, b) \<Longrightarrow> b = a"
    "\<not> armed w a \<Longrightarrow> n_epoll w fd = None"
proof -
  show "armed w a \<longleftrightarrow> (\<exists>ev. n_epoll w fd = Some (ev, a))"
    using assms unfolding armed_def net_own_def by (metis option.inject)
  show b: "n_epoll w fd = Some (ev, b) \<Longrightarrow> b = a" for ev b
    using assms client_fd_inj unfolding net_own_def by blast
  show "\<not> armed w a \<Longrightarrow> n_epoll w fd = None"
    using b unfolding armed_def by (metis option.exhaust surj_pair)
qed

lemma armed_alive: "net_own w \<Longrightarrow> armed w a \<Longrightarrow> a \<in> dom (cs_clients w)"
  unfolding net_own_def armed_def client_fd_iff by blast

section \<open>Changes that leave the owners alone\<close>

text \<open>Rings, wires, the broadcast queue, the type of a client: the connections and their places are the same.\<close>

definition quiet :: "ChatServer \<Rightarrow> ChatServer \<Rightarrow> bool" where
  "quiet w w' \<longleftrightarrow> cs_next w' = cs_next w \<and> m_lstClient w' = m_lstClient w \<and> m_iConnCount w' = m_iConnCount w \<and>
     n_socks w' = n_socks w \<and> n_epoll w' = n_epoll w \<and> m_pReceiveQueue w' = m_pReceiveQueue w \<and>
     dom (n_kern w') = dom (n_kern w) \<and>
     (\<forall>a. map_option m_cSocket (cs_clients w' a) = map_option m_cSocket (cs_clients w a))"

lemma quiet_clients:
  assumes "quiet w w'"
  shows "dom (cs_clients w') = dom (cs_clients w)" "client_fd w' a = client_fd w a"
    "cs_clients w' a = Some c' \<Longrightarrow> \<exists>c. cs_clients w a = Some c \<and> m_cSocket c = m_cSocket c'"
proof -
  have m: "map_option m_cSocket (cs_clients w' b) = map_option m_cSocket (cs_clients w b)" for b
    using assms by (simp add: quiet_def)
  have s: "n_socks w' = n_socks w" using assms by (simp add: quiet_def)
  show "cs_clients w' a = Some c' \<Longrightarrow> \<exists>c. cs_clients w a = Some c \<and> m_cSocket c = m_cSocket c'"
    using m [of a] by (cases "cs_clients w a") auto
  have "cs_clients w' b = None \<longleftrightarrow> cs_clients w b = None" for b
    using m [of b] by (metis map_option_is_None)
  then show "dom (cs_clients w') = dom (cs_clients w)" by (auto simp: dom_def)
  show "client_fd w' a = client_fd w a"
    using m [of a] s by (cases "cs_clients w a"; cases "cs_clients w' a") (simp_all add: client_fd_def)
qed

lemma quiet_wf:
  assumes "cs_wf w" "quiet w w'"
  shows "cs_wf w'"
proof (rule cs_wfI)
  have eqs: "cs_next w' = cs_next w" "m_lstClient w' = m_lstClient w" "m_iConnCount w' = m_iConnCount w"
      "n_socks w' = n_socks w" "dom (n_kern w') = dom (n_kern w)" using assms(2) by (simp_all add: quiet_def)
  note cl = quiet_clients [OF assms(2)]
  show "distinct (m_lstClient w')" "set (m_lstClient w') = dom (cs_clients w')"
    "m_iConnCount w' = int (length (m_lstClient w'))"
    using cs_wf_list [OF assms(1)] by (simp_all add: eqs cl(1))
  have "sock_live w' p = sock_live w p" for p
    using eqs(5) by (auto simp: sock_live_def eqs(4) split: option.split)
  then show "\<exists>p. m_cSocket c = Some p \<and> sock_live w' p" if "cs_clients w' a = Some c" for a c
    using cl(3) [OF that] cs_wf_live [OF assms(1)] by metis
  show "a = b" if "cs_clients w' a = Some c" "cs_clients w' b = Some d" "m_cSocket c = m_cSocket d" for a b c d
    using cl(3) [OF that(1)] cl(3) [OF that(2)] that(3) cs_wf_sock_inj [OF assms(1)] by metis
  show "p = q" if "n_socks w' p = Some fd" "n_socks w' q = Some fd" for p q fd
    using that cs_wf_fd_inj [OF assms(1)] by (simp add: eqs)
  show "a < cs_next w'" if "cs_clients w' a = Some c" for a c
    using cl(3) [OF that] cs_wf_below(1) [OF assms(1)] by (auto simp: eqs)
  show "p < cs_next w'" if "n_socks w' p = Some fd" for p fd
    using that cs_wf_below(2) [OF assms(1)] by (simp add: eqs)
qed

lemma quiet_inv:
  assumes "quiet w w'"
  shows "net_own w \<Longrightarrow> net_own w'" "owners w batch held \<Longrightarrow> owners w' batch held"
proof -
  have e: "n_epoll w' = n_epoll w" "m_pReceiveQueue w' = m_pReceiveQueue w" using assms by (simp_all add: quiet_def)
  show "net_own w \<Longrightarrow> net_own w'"
    using quiet_wf [OF _ assms] quiet_clients(2) [OF assms] by (simp add: net_own_def e)
  have "armed w' = armed w" "queued w' = queued w" by (simp_all add: armed_def queued_def e fun_eq_iff)
  then show "owners w batch held \<Longrightarrow> owners w' batch held"
    using quiet_clients(1) [OF assms] by (simp add: owners_def)
qed

lemma quiet_refl: "quiet w w" and quiet_trans: "quiet w w' \<Longrightarrow> quiet w' w'' \<Longrightarrow> quiet w w''"
  by (simp_all add: quiet_def)

lemma kern_change_quiet: "kern_change w w' \<Longrightarrow> quiet w w'"
  unfolding kern_change_def quiet_def by (elim exE conjE) simp

lemma broadcaster_kern:
  assumes "broadcaster_pass w = Inr w'"
  shows "\<exists>q. kern_change (w\<lparr>m_pBroadcastQueue := q\<rparr>) w'"
proof -
  from assms obtain bm q where q: "MessageBroadcast (w\<lparr>m_pBroadcastQueue := q\<rparr>) bm = Inr w'"
    by (auto simp: broadcaster_pass_def GetBroadcastQueue_def bindR_Inr_iff)
  let ?w = "w\<lparr>m_pBroadcastQueue := q\<rparr>"
  from q obtain w1 fds where w1: "w1 = ?w \<or> MessageBroadcastToManagers ?w bm = Inr w1"
      and "write_targets w1 fds (GetMessage bm) (GetMessageSize bm) = Inr w'"
    by (auto simp: MessageBroadcast_def bindR_Inr_iff split: if_splits)
  moreover from w1 have "kern_change ?w w1"
    by (auto simp: MessageBroadcastToManagers_def bindR_Inr_iff intro: kern_change_refl dest: write_managers_kern)
  ultimately have "kern_change ?w w'" using write_targets_kern kern_change_trans by blast
  then show ?thesis by blast
qed

lemma broadcaster_quiet:
  assumes "broadcaster_pass w = Inr w'"
  shows "quiet w w'"
proof -
  obtain q where "kern_change (w\<lparr>m_pBroadcastQueue := q\<rparr>) w'" using broadcaster_kern [OF assms] by blast
  then have "quiet (w\<lparr>m_pBroadcastQueue := q\<rparr>) w'" by (rule kern_change_quiet)
  moreover have "quiet w (w\<lparr>m_pBroadcastQueue := q\<rparr>)" by (simp add: quiet_def)
  ultimately show ?thesis using quiet_trans by blast
qed

lemma client_upd_quiet:
  assumes "cs_clients w a = Some c" "m_cSocket c' = m_cSocket c"
  shows "quiet w (w\<lparr>cs_clients := (cs_clients w)(a \<mapsto> c')\<rparr>)"
  using assms by (simp add: quiet_def)

lemma fill_socket:
  "Client_FillFromSocket bd c s avail err = Inr (r, c', s', err') \<Longrightarrow> m_cSocket c' = m_cSocket c"
  by (auto simp: Client_FillFromSocket_def bindR_Inr_iff split: if_splits)

lemma fill_quiet:
  assumes "cs_FillFromSocket bd w a fionread err = Inr (r, w', err')"
  shows "quiet w w'"
proof -
  from assms obtain c where c: "cs_clients w a = Some c"
    by (cases "cs_clients w a") (auto simp: cs_FillFromSocket_def)
  with assms obtain fd where "w' = w \<or> (\<exists>s c' s'. n_kern w fd = Some s \<and> m_cSocket c' = m_cSocket c \<and>
      w' = w\<lparr>cs_clients := (cs_clients w)(a \<mapsto> c'), n_kern := (n_kern w)(fd \<mapsto> s')\<rparr>)"
    by (fastforce simp: cs_FillFromSocket_def bindR_Inr_iff dest: fill_socket split: option.splits)
  then show ?thesis
    using c by (elim disjE exE conjE) (simp_all add: quiet_def insert_absorb domI)
qed

lemma read_packet_socket: "read_packet c = Inr (r, h, p, c') \<Longrightarrow> m_cSocket c' = m_cSocket c"
  by (auto simp: read_packet_def Client_GetPacket_def Let_def bindR_Inr_iff)

lemma ChatUser_ExecuteCommand_socket:
  "ChatUser_ExecuteCommand jnk fd c = Inr (r, c', bm) \<Longrightarrow> m_cSocket c' = m_cSocket c"
  by (auto simp: ChatUser_ExecuteCommand_def Client_GetPacket_def Let_def bindR_Inr_iff dest!: read_packet_socket
      split: if_splits)

lemma execute_quiet:
  assumes "cs_ExecuteCommand jnk w a = Inr (r, w')"
  shows "quiet w w'"
proof -
  from assms obtain c where c: "cs_clients w a = Some c"
    by (cases "cs_clients w a") (auto simp: cs_ExecuteCommand_def)
  with assms obtain c' q where "m_cSocket c' = m_cSocket c"
      "w' = w\<lparr>cs_clients := (cs_clients w)(a \<mapsto> c')\<rparr> \<or>
       w' = w\<lparr>cs_clients := (cs_clients w)(a \<mapsto> c'), m_pBroadcastQueue := q\<rparr>"
    by (fastforce simp: cs_ExecuteCommand_def PutBroadcastQueue_def bindR_Inr_iff Let_def
        dest: ChatUser_ExecuteCommand_socket split: option.splits)
  then show ?thesis using c by (auto simp: quiet_def)
qed

section \<open>Changes of place\<close>

lemma owned_client:
  assumes "net_own w" "a \<in> dom (cs_clients w)"
  obtains c p fd s where "cs_clients w a = Some c" "m_cSocket c = Some p" "n_socks w p = Some fd" "0 < fd"
    "n_kern w fd = Some s" "client_fd w a = Some fd"
proof -
  from assms obtain c where c: "cs_clients w a = Some c" "cs_wf w" by (auto simp: net_own_def)
  obtain p fd s where "m_cSocket c = Some p" "n_socks w p = Some fd" "0 < fd" "n_kern w fd = Some s"
    by (rule cs_wf_client [OF c(2,1)])
  then show thesis using that c(1) by (auto simp: client_fd_iff)
qed

lemma close_place:
  assumes own: "net_own w" and a: "a \<in> dom (cs_clients w)"
  obtains w' where "CloseClient w a = Inr w'" "net_own w'" "dom (cs_clients w') = dom (cs_clients w) - {a}"
    "queued w' = queued w" "\<And>b. armed w' b \<longleftrightarrow> armed w b \<and> b \<noteq> a"
proof -
  obtain c p fd where c: "cs_clients w a = Some c" "m_cSocket c = Some p" "n_socks w p = Some fd" "client_fd w a = Some fd"
    by (rule owned_client [OF own a])
  let ?w = "closed w a p fd"
  have wf: "cs_wf w" using own by (simp add: net_own_def)
  have q: "m_pReceiveQueue ?w = m_pReceiveQueue w" "n_epoll ?w = (n_epoll w)(fd := None)" by (simp_all add: closed_def)
  have cf: "client_fd ?w b = Some g" if b: "client_fd w b = Some g" "b \<noteq> a" for b g
  proof -
    obtain d r where d: "cs_clients w b = Some d" "m_cSocket d = Some r" "n_socks w r = Some g"
      using b(1) by (auto simp: client_fd_iff)
    have "r \<noteq> p" using b(2) d c cs_wf_sock_inj [OF wf d(1) c(1)] by auto
    then show ?thesis using d b(2) by (auto simp: client_fd_iff)
  qed
  have ep: "n_epoll ?w g = Some (ev, b) \<longleftrightarrow> n_epoll w g = Some (ev, b) \<and> b \<noteq> a" for g ev b
  proof (cases "g = fd")
    case True
    then show ?thesis using armed_fd(2) [OF own c(4)] by (auto simp: q)
  next
    case False
    moreover have "b \<noteq> a" if "n_epoll w g = Some (ev, b)"
      using that False own c(4) unfolding net_own_def by fastforce
    ultimately show ?thesis by (auto simp: q)
  qed
  have "cs_wf ?w" by (rule closed_wf [OF wf c(1-3)])
  then have "net_own ?w"
    using own cf ep unfolding net_own_def q(1) by blast
  moreover have "armed ?w b \<longleftrightarrow> armed w b \<and> b \<noteq> a" for b using ep by (auto simp: armed_def)
  moreover have "dom (cs_clients ?w) = dom (cs_clients w) - {a}" by auto
  ultimately show thesis
    using that [of ?w] CloseClient_eq [OF c(1-3)] by (simp add: queued_def q)
qed

lemma disarm_place:
  assumes own: "net_own w" and a: "client_fd w a = Some fd"
  shows "net_own (w\<lparr>n_epoll := (n_epoll w)(fd := None)\<rparr>)"
    "armed (w\<lparr>n_epoll := (n_epoll w)(fd := None)\<rparr>) b \<longleftrightarrow> armed w b \<and> b \<noteq> a"
proof -
  let ?w = "w\<lparr>n_epoll := (n_epoll w)(fd := None)\<rparr>"
  have cf: "client_fd ?w x = client_fd w x" for x by (simp add: client_fd_def)
  show "net_own ?w" using own by (auto simp: net_own_def cf)
  have "n_epoll w g = Some (ev, b) \<Longrightarrow> g \<noteq> fd \<longleftrightarrow> b \<noteq> a" for g ev
    using armed_fd(2) [OF own a] own a unfolding net_own_def by fastforce
  then show "armed ?w b \<longleftrightarrow> armed w b \<and> b \<noteq> a" by (auto simp: armed_def)
qed

lemma map_upd_pair:
  assumes "m k = None"
  shows "(m(k \<mapsto> (x, a))) g = Some (y, b) \<longleftrightarrow> m g = Some (y, b) \<or> g = k \<and> y = x \<and> b = a"
proof (cases "g = k")
  case True
  then show ?thesis using assms by (simp add: eq_commute)
qed simp

lemma arm_place:
  assumes own: "net_own w" and a: "client_fd w a = Some fd" "\<not> armed w a"
  shows "net_own (w\<lparr>n_epoll := (n_epoll w)(fd \<mapsto> (ev, a))\<rparr>)"
    "armed (w\<lparr>n_epoll := (n_epoll w)(fd \<mapsto> (ev, a))\<rparr>) b \<longleftrightarrow> armed w b \<or> b = a"
proof -
  let ?w = "w\<lparr>n_epoll := (n_epoll w)(fd \<mapsto> (ev, a))\<rparr>"
  have cf: "client_fd ?w x = client_fd w x" for x by (simp add: client_fd_def)
  show "net_own ?w" using own a by (auto simp: net_own_def cf)
  have none: "n_epoll w fd = None" by (rule armed_fd(3) [OF own a])
  have "n_epoll ?w g = Some (e, b) \<longleftrightarrow> n_epoll w g = Some (e, b) \<or> g = fd \<and> e = ev \<and> b = a" for g e
    using none by (simp add: map_upd_pair [of "n_epoll w" fd]) metis
  then have "armed ?w b \<longleftrightarrow> (\<exists>g e. n_epoll w g = Some (e, b) \<or> g = fd \<and> e = ev \<and> b = a)" by (simp only: armed_def)
  then show "armed ?w b \<longleftrightarrow> armed w b \<or> b = a" by (simp add: armed_def ex_disj_distrib)
qed

lemma enqueue_place:
  assumes "net_own w" "PutReceiveQueue w a = Inr w'"
  shows "net_own w'" "queued w' = queued w @ [a]" "cs_clients w' = cs_clients w" "armed w' = armed w"
proof -
  from assms(2) obtain q where q: "ring_enq QSIZE (m_pReceiveQueue w) a = Some q" "w' = w\<lparr>m_pReceiveQueue := q\<rparr>"
    by (auto simp: PutReceiveQueue_def queue_put_def CircularQueue_EnQueue_def bindR_Inr_iff split: option.splits)
  have wf: "rq_wf QSIZE (m_pReceiveQueue w)" using assms(1) by (simp add: net_own_def)
  note e = ring_enq_Some [OF wf q(1)]
  have "cs_wf w' = cs_wf w" by (simp add: q(2) cs_wf_def sock_live_def cong: option.case_cong)
  moreover have "client_fd w' x = client_fd w x" for x by (simp add: client_fd_def q(2))
  ultimately show "net_own w'" using assms(1) e(1) by (simp add: net_own_def q(2))
  show "queued w' = queued w @ [a]" using e(2) by (simp add: queued_def q(2))
  show "cs_clients w' = cs_clients w" "armed w' = armed w" by (simp_all add: q(2) armed_def fun_eq_iff)
qed

lemma dequeue_place:
  assumes "net_own w" "GetReceiveQueue w = Inr (a, w')"
  shows "net_own w'" "queued w = a # queued w'" "cs_clients w' = cs_clients w" "armed w' = armed w"
proof -
  from assms(2) obtain q where q: "ring_deq QSIZE (m_pReceiveQueue w) = Some (a, q)" "w' = w\<lparr>m_pReceiveQueue := q\<rparr>"
    by (auto simp: GetReceiveQueue_def queue_get_def CircularQueue_DeQueue_def bindR_Inr_iff split: option.splits)
  have wf: "rq_wf QSIZE (m_pReceiveQueue w)" using assms(1) by (simp add: net_own_def)
  note e = ring_deq_Some [OF wf q(1)]
  have "cs_wf w' = cs_wf w" by (simp add: q(2) cs_wf_def sock_live_def cong: option.case_cong)
  moreover have "client_fd w' x = client_fd w x" for x by (simp add: client_fd_def q(2))
  ultimately show "net_own w'" using assms(1) e(1) by (simp add: net_own_def q(2))
  show "queued w = a # queued w'" using e(2) by (simp add: queued_def q(2))
  show "cs_clients w' = cs_clients w" "armed w' = armed w" by (simp_all add: q(2) armed_def fun_eq_iff)
qed

lemma release_place:
  assumes own: "net_own w" and a: "a \<in> dom (cs_clients w)" "\<not> armed w a"
  obtains w' where "rearm BuildET w a = Inr w'" "net_own w'" "cs_clients w' = cs_clients w" "queued w' = queued w"
    "\<And>b. armed w' b \<longleftrightarrow> armed w b \<or> b = a"
proof -
  obtain c p fd s where c: "cs_clients w a = Some c" "m_cSocket c = Some p" "n_socks w p = Some fd"
      "n_kern w fd = Some s" "client_fd w a = Some fd" by (rule owned_client [OF own a(1)])
  let ?w = "w\<lparr>n_epoll := (n_epoll w)(fd \<mapsto> (or EPOLLIN EPOLLET, a))\<rparr>"
  have "n_epoll w fd = None" by (rule armed_fd(3) [OF own c(5) a(2)])
  then have "rearm BuildET w a = Inr ?w"
    using c by (simp add: rearm_def AddEPoll_def Client_GetSocket_def IOMP_EPoll_AddClient_def)
  then show thesis using that arm_place [OF own c(5) a(2)] by (simp add: queued_def)
qed

text \<open>An accepted connection is a new client under \<open>epoll\<close>, or nothing.\<close>

lemma next_place:
  assumes "net_own w" "cs_next w \<le> n"
  shows "net_own (w\<lparr>cs_next := n\<rparr>)"
proof -
  have wf: "cs_wf w" using assms(1) by (simp add: net_own_def)
  have "cs_wf (w\<lparr>cs_next := n\<rparr>)"
    by (rule cs_wfI)
      (use cs_wf_list [OF wf] cs_wf_live [OF wf] cs_wf_sock_inj [OF wf] cs_wf_fd_inj [OF wf]
          less_le_trans [OF cs_wf_below(1) [OF wf] assms(2)] less_le_trans [OF cs_wf_below(2) [OF wf] assms(2)] in
        \<open>auto simp: sock_live_def cong: option.case_cong\<close>)
  moreover have "client_fd (w\<lparr>cs_next := n\<rparr>) x = client_fd w x" for x by (simp add: client_fd_def)
  ultimately show ?thesis using assms(1) by (simp add: net_own_def)
qed

lemma accept_place:
  assumes own: "net_own w" and k: "accept_ok w kern" and r: "accept_round BuildET junk now w kern = Inr w'"
  shows "net_own w' \<and> queued w' = queued w \<and>
    (cs_clients w' = cs_clients w \<and> armed w' = armed w \<or>
     (\<exists>a c. a \<notin> dom (cs_clients w) \<and> cs_clients w' = (cs_clients w)(a \<mapsto> c) \<and> (\<forall>b. armed w' b \<longleftrightarrow> armed w b \<or> b = a)))"
proof (cases kern)
  case None
  then show ?thesis using own r by (simp add: accept_round_def)
next
  case (Some e)
  obtain fd s where e: "e = (fd, s)" by (cases e)
  have wf: "cs_wf w" using own by (simp add: net_own_def)
  have fd: "fresh_fd w fd" using k by (simp add: accept_ok_def Some e)
  let ?p = "cs_next w"
  have noep: "n_epoll w fd = None"
  proof (cases "n_epoll w fd")
    case (Some x)
    then have "client_fd w (snd x) = Some fd" using own by (cases x) (simp add: net_own_def)
    then show ?thesis using fd by (auto simp: client_fd_iff fresh_fd_def) (metis rangeI)
  qed
  have nk: "n_kern w fd = None" using fd by (simp add: fresh_fd_def)
  have ns: "n_socks w ?p = None" by (rule cs_wf_next(2) [OF wf])
  have new: "socket_new w fd s = (?p, w\<lparr>cs_next := Suc ?p, n_socks := (n_socks w)(?p \<mapsto> fd),
      n_kern := (n_kern w)(fd \<mapsto> s\<lparr>m_iFd := fd\<rparr>)\<rparr>)" by (simp add: socket_new_def Let_def)
  show ?thesis
  proof (cases "m_iConnCount w \<ge> m_iMaxUser w")
    case True
    have "(n_socks w)(?p := None) = n_socks w" "(n_kern w)(fd := None) = n_kern w" "(n_epoll w)(fd := None) = n_epoll w"
      using ns nk noep by (simp_all add: fun_upd_idem)
    then have "w' = w\<lparr>cs_next := Suc ?p\<rparr>"
      using r True by (auto simp: accept_round_def Some e new GetCurrentUserCount_def GetMaxUser_def delete_socket_def)
    then show ?thesis using next_place [OF own, of "Suc ?p"] by (simp add: queued_def armed_def fun_eq_iff)
  next
    case False
    let ?w2 = "w\<lparr>cs_next := Suc ?p, n_socks := (n_socks w)(?p \<mapsto> fd),
        n_kern := (n_kern w)(fd \<mapsto> s\<lparr>m_iFd := fd, so_flags := O_NDELAY\<rparr>)\<rparr>"
    let ?w1 = "listed junk now ?w2 ?p CLIENT_USER" and ?a = "Suc ?p"
    let ?w3 = "?w1\<lparr>n_epoll := (n_epoll ?w1)(fd \<mapsto> (or EPOLLIN EPOLLET, ?a))\<rparr>"
    have a: "w' = ?w3"
      using r False noep
      by (auto simp: accept_round_def Some e new GetCurrentUserCount_def GetMaxUser_def AcceptClient_def Let_def
          new_user_def [symmetric] listed_def Client_GetSocket_def IOMP_EPoll_AddClient_def)
    have na: "cs_clients w ?a = None" using cs_wf_below(1) [OF wf] by (cases "cs_clients w ?a") fastforce+
    note sn = socket_new_wf [OF wf fd new]
    have "cs_wf (w\<lparr>cs_next := Suc ?p, n_socks := (n_socks w)(?p \<mapsto> fd),
        n_kern := ((n_kern w)(fd \<mapsto> s\<lparr>m_iFd := fd\<rparr>))(fd \<mapsto> s\<lparr>m_iFd := fd, so_flags := O_NDELAY\<rparr>)\<rparr>)"
      using kern_update_wf [OF sn(1), of fd "s\<lparr>m_iFd := fd\<rparr>" "s\<lparr>m_iFd := fd, so_flags := O_NDELAY\<rparr>"] by simp
    then have wf2: "cs_wf ?w2" by simp
    have unused: "m_cSocket c \<noteq> Some ?p" if "cs_clients w b = Some c" for b c
      using cs_wf_live [OF wf that] ns by (auto simp: sock_live_def)
    have wf1: "cs_wf ?w1"
      by (rule listed_wf [OF wf2]) (use fd unused in \<open>auto simp: sock_live_def fresh_fd_def\<close>)
    have cf: "client_fd ?w1 b = Some g" if b: "client_fd w b = Some g" for b g
    proof -
      obtain d q where d: "cs_clients w b = Some d" "m_cSocket d = Some q" "n_socks w q = Some g"
        using b by (auto simp: client_fd_iff)
      have "b \<noteq> ?a" using d(1) na by auto
      then show ?thesis using d ns by (auto simp: client_fd_iff)
    qed
    have "rq_wf QSIZE (m_pReceiveQueue ?w1)" using own by (simp add: net_own_def listed_def)
    then have own1: "net_own ?w1" using wf1 own cf by (auto simp: net_own_def)
    have aw: "armed ?w1 = armed w" by (simp add: armed_def fun_eq_iff)
    have "\<not> armed w ?a" using armed_alive [OF own] na by auto
    then have "\<not> armed ?w1 ?a" by (simp add: aw)
    moreover have "client_fd ?w1 ?a = Some fd" by (simp add: client_fd_def)
    ultimately have "net_own ?w3" "armed ?w3 b \<longleftrightarrow> armed w b \<or> b = ?a" for b
      using arm_place [OF own1, of ?a fd] aw by auto
    moreover have "queued ?w3 = queued w" by (simp add: queued_def listed_def)
    ultimately show ?thesis using na unfolding a by auto
  qed
qed


section \<open>Every step keeps the invariant\<close>

lemma ownersD:
  assumes "owners w batch held"
  shows "distinct (queued w)" "inj_on held (dom held)" "set (queued w) \<inter> ran held = {}" "distinct (map snd batch)"
    "a \<in> set (queued w) \<Longrightarrow> a \<in> dom (cs_clients w) \<and> \<not> armed w a"
    "held t = Some a \<Longrightarrow> a \<in> dom (cs_clients w) \<and> \<not> armed w a"
    "(ev, a) \<in> set batch \<Longrightarrow> armed w a"
  using assms by (auto simp: owners_def intro: ranI)

lemma ownersI:
  assumes "distinct (queued w)" "inj_on held (dom held)" "\<And>a t. held t = Some a \<Longrightarrow> a \<notin> set (queued w)"
    "distinct (map snd batch)"
    "\<And>a. a \<in> set (queued w) \<Longrightarrow> a \<in> dom (cs_clients w) \<and> \<not> armed w a"
    "\<And>a t. held t = Some a \<Longrightarrow> a \<in> dom (cs_clients w) \<and> \<not> armed w a"
    "\<And>ev a. (ev, a) \<in> set batch \<Longrightarrow> armed w a"
  shows "owners w batch held"
  using assms unfolding owners_def ran_def by blast

lemma held_other: "inj_on held (dom held) \<Longrightarrow> held t = Some a \<Longrightarrow> held u = Some a \<Longrightarrow> u = t"
  by (metis domI inj_onD)

lemma inj_drop:
  assumes "inj_on held (dom held)"
  shows "inj_on (held(t := None)) (dom (held(t := None)))"
  using assms by (auto simp: inj_on_def)

text \<open>Polling: an event for every descriptor at most, each with the client registered there.\<close>

lemma polled:
  assumes own: "net_own w" and d: "distinct (map fst kevents)"
  shows "distinct (map snd (IOMP_EPoll_Polling w kevents))"
    "(ev, a) \<in> set (IOMP_EPoll_Polling w kevents) \<Longrightarrow> armed w a"
proof -
  let ?f = "\<lambda>(fd, ev). map_option (\<lambda>(_, cp). (ev, cp)) (n_epoll w fd)"
  have mem: "\<exists>fd ev'. fd \<in> fst ` set ks \<and> n_epoll w fd = Some (ev', a)"
    if "(ev, a) \<in> set (List.map_filter ?f ks)" for ks :: "(int \<times> 32 word) list" and ev a
    using that by (force simp: List.map_filter_def)
  have "distinct (map snd (List.map_filter ?f ks))" if "distinct (map fst ks)" for ks :: "(int \<times> 32 word) list"
    using that
  proof (induction ks)
    case (Cons k ks)
    obtain fd ev where k: "k = (fd, ev)" by (cases k)
    have "a \<notin> snd ` set (List.map_filter ?f ks)" if "n_epoll w fd = Some (e, a)" for e a
    proof
      assume "a \<in> snd ` set (List.map_filter ?f ks)"
      then obtain e' where "(e', a) \<in> set (List.map_filter ?f ks)" by auto
      from mem [OF this] obtain g e' where "g \<in> fst ` set ks" "n_epoll w g = Some (e', a)" by blast
      moreover have "client_fd w a = Some fd" using own that by (simp add: net_own_def)
      ultimately show False using own Cons.prems k by (auto simp: net_own_def)
    qed
    then show ?case using Cons by (auto simp: k split: option.split)
  qed (simp add: List.map_filter_def)
  then show "distinct (map snd (IOMP_EPoll_Polling w kevents))"
    unfolding IOMP_EPoll_Polling_def by (simp add: take_map [symmetric] d)
  show "(ev, a) \<in> set (IOMP_EPoll_Polling w kevents) \<Longrightarrow> armed w a"
    using mem unfolding IOMP_EPoll_Polling_def armed_def by (blast dest: in_set_takeD)
qed

text \<open>A client that goes away while nobody else has it.\<close>

lemma close_owners:
  assumes own: "net_own w" and o: "owners w batch held" and a: "a \<in> dom (cs_clients w)" "a \<notin> set (queued w)"
    and free: "\<And>t. held t \<noteq> Some a" "a \<notin> snd ` set batch" and cl: "CloseClient w a = Inr w'"
  shows "net_own w' \<and> owners w' batch held"
proof -
  obtain w1 where w1: "CloseClient w a = Inr w1" "net_own w1" "dom (cs_clients w1) = dom (cs_clients w) - {a}"
    "queued w1 = queued w" "\<And>b. armed w1 b \<longleftrightarrow> armed w b \<and> b \<noteq> a" by (rule close_place [OF own a(1)]) blast
  note D = ownersD [OF o]
  have "owners w1 batch held"
  proof (rule ownersI)
    show "distinct (queued w1)" "inj_on held (dom held)" "distinct (map snd batch)" using D(1,2,4) w1(4) by simp_all
    show "b \<notin> set (queued w1)" if "held t = Some b" for b t using D(3) w1(4) ranI [of held, OF that] by auto
    show "b \<in> dom (cs_clients w1) \<and> \<not> armed w1 b" if "b \<in> set (queued w1)" for b
      using D(5) [of b] that a(2) by (auto simp: w1(3,4,5))
    show "b \<in> dom (cs_clients w1) \<and> \<not> armed w1 b" if "held t = Some b" for b t
      using D(6) [OF that] that free(1) by (auto simp: w1(3,5))
    show "armed w1 b" if "(ev, b) \<in> set batch" for ev b
      using D(7) [OF that] that free(2) by (force simp: w1(5))
  qed
  then show ?thesis using cl w1(1,2) by simp
qed

lemma drop_owners:
  assumes "owners w batch held"
  shows "owners w batch (held(t := None))"
proof (rule ownersI)
  note D = ownersD [OF assms]
  show "distinct (queued w)" "inj_on (held(t := None)) (dom (held(t := None)))" "distinct (map snd batch)"
    using D(1,4) inj_drop [OF D(2)] by auto
  show "a \<notin> set (queued w)" if "(held(t := None)) u = Some a" for a u
    using that D(3) ranI [of held u a] by (auto split: if_splits)
  show "a \<in> dom (cs_clients w) \<and> \<not> armed w a" if "a \<in> set (queued w)" for a using D(5) that .
  show "a \<in> dom (cs_clients w) \<and> \<not> armed w a" if "(held(t := None)) u = Some a" for a u
    using that D(6) by (simp split: if_splits)
  show "armed w a" if "(ev, a) \<in> set batch" for ev a using D(7) that .
qed

lemma batch_owners:
  assumes "owners w ((ev, a) # rest) held"
  shows "owners w rest held" "a \<notin> snd ` set rest"
  using assms by (auto simp: owners_def)

lemma enqueue_owners:
  assumes o: "owners w ((ev, a) # rest) held" and w': "dom (cs_clients w') = dom (cs_clients w)" "queued w' = queued w @ [a]"
    "\<And>b. armed w' b \<longleftrightarrow> armed w b \<and> b \<noteq> a" and a: "a \<in> dom (cs_clients w)"
  shows "owners w' rest held"
proof (rule ownersI)
  note D = ownersD [OF o] and B = batch_owners [OF o]
  have aa: "armed w a" by (rule D(7) [of ev]) simp
  then have nq: "a \<notin> set (queued w)" using D(5) by blast
  show "distinct (queued w')" "inj_on held (dom held)" "distinct (map snd rest)" using D(1,2,4) nq w'(2) by simp_all
  show "b \<notin> set (queued w')" if "held t = Some b" for b t
    using D(3) D(6) [OF that] ranI [of held, OF that] aa w'(2) by auto
  show "b \<in> dom (cs_clients w') \<and> \<not> armed w' b" if "b \<in> set (queued w')" for b
    using D(5) [of b] that a w' by auto
  show "b \<in> dom (cs_clients w') \<and> \<not> armed w' b" if "held t = Some b" for b t
    using D(6) [OF that] w' by simp
  show "armed w' b" if "(e, b) \<in> set rest" for e b
    using D(7) [of e b] that B(2) w'(3) by force
qed

lemma event_owners:
  assumes own: "net_own w" and o: "owners w ((ev, a) # rest) held"
    and r: "ChatServer_event BuildET now w ev a = Inr w'"
  shows "net_own w' \<and> owners w' rest held"
proof -
  note D = ownersD [OF o] and B = batch_owners [OF o]
  have aa: "armed w a" by (rule D(7) [of ev]) simp
  have a: "a \<in> dom (cs_clients w)" by (rule armed_alive [OF own aa])
  have nq: "a \<notin> set (queued w)" "held t \<noteq> Some a" for t using D(5) D(6) aa by blast+
  obtain c p fd where c: "cs_clients w a = Some c" "m_cSocket c = Some p" "n_socks w p = Some fd" "client_fd w a = Some fd"
    by (rule owned_client [OF own a])
  obtain e where e: "n_epoll w fd = Some (e, a)" using armed_fd(1) [OF own c(4)] aa by auto
  let ?w1 = "w\<lparr>n_epoll := (n_epoll w)(fd := None)\<rparr>"
  let ?w2 = "?w1\<lparr>cs_clients := (cs_clients ?w1)(a \<mapsto> SetAccessTime c now)\<rparr>"
  consider "CloseClient w a = Inr w'" | "PutReceiveQueue ?w2 a = Inr w'" | "w' = w"
    using r c e by (auto simp: ChatServer_event_def IOMP_EPoll_DelClient_def IOMP_EPoll_DelFd_def Client_GetSocket_def
        split: if_splits)
  then show ?thesis
  proof cases
    case 1
    show ?thesis by (rule close_owners [OF own B(1) a nq(1) nq(2) B(2) 1])
  next
    case 2
    have own1: "net_own ?w1" "\<And>b. armed ?w1 b \<longleftrightarrow> armed w b \<and> b \<noteq> a"
      using disarm_place [OF own c(4)] by blast+
    have "quiet ?w1 ?w2" by (rule client_upd_quiet) (simp_all add: c(1) SetAccessTime_def)
    then have own2: "net_own ?w2" using quiet_inv(1) own1(1) by blast
    have "armed ?w2 = armed ?w1" "queued ?w2 = queued w" by (simp_all add: armed_def queued_def fun_eq_iff)
    with enqueue_place [OF own2 2] own1(2) have "queued w' = queued w @ [a]" "\<And>b. armed w' b \<longleftrightarrow> armed w b \<and> b \<noteq> a"
        "dom (cs_clients w') = dom (cs_clients w)" "net_own w'" using a by auto
    with enqueue_owners [OF o] a show ?thesis by blast
  next
    case 3
    then show ?thesis using own B(1) by simp
  qed
qed

lemma take_owners:
  assumes own: "net_own w" and o: "owners w batch held" and t: "held t = None" and g: "GetReceiveQueue w = Inr (a, w')"
  shows "net_own w' \<and> owners w' batch (held(t \<mapsto> a))"
proof -
  note D = ownersD [OF o] and E = dequeue_place [OF own g]
  have q: "a \<in> set (queued w)" "a \<notin> set (queued w')" "distinct (queued w')" using E(2) D(1) by auto
  have ah: "held u \<noteq> Some a" for u using D(3) q(1) ranI [of held u a] by blast
  have "owners w' batch (held(t \<mapsto> a))"
  proof (rule ownersI)
    show "distinct (queued w')" "distinct (map snd batch)" by (rule q(3) D(4))+
    show "inj_on (held(t \<mapsto> a)) (dom (held(t \<mapsto> a)))"
      using D(2) ah t unfolding inj_on_def by (auto split: if_splits)
    show "b \<notin> set (queued w')" if "(held(t \<mapsto> a)) u = Some b" for b u
      using that q(2) D(3) E(2) ranI [of held u b] by (auto split: if_splits)
    show "b \<in> dom (cs_clients w') \<and> \<not> armed w' b" if "b \<in> set (queued w')" for b
      using D(5) [of b] that E by simp
    show "b \<in> dom (cs_clients w') \<and> \<not> armed w' b" if "(held(t \<mapsto> a)) u = Some b" for b u
      using D(5) [OF q(1)] D(6) [of u b] that E by (simp split: if_splits)
    show "armed w' b" if "(ev, b) \<in> set batch" for ev b using D(7) that E(4) by simp
  qed
  then show ?thesis using E(1) by blast
qed

lemma release_owners:
  assumes own: "net_own w" and o: "owners w batch held" and t: "held t = Some a" and r: "rearm BuildET w a = Inr w'"
  shows "net_own w' \<and> owners w' batch (held(t := None))"
proof -
  note D = ownersD [OF o]
  obtain w1 where w1: "rearm BuildET w a = Inr w1" "net_own w1" "cs_clients w1 = cs_clients w" "queued w1 = queued w"
    "\<And>b. armed w1 b \<longleftrightarrow> armed w b \<or> b = a"
    by (rule release_place [OF own conjunct1 [OF D(6) [OF t]] conjunct2 [OF D(6) [OF t]]]) blast
  have w': "w' = w1" using r w1(1) by simp
  have "owners w1 batch (held(t := None))"
  proof (rule ownersI)
    show "distinct (queued w1)" "distinct (map snd batch)" "inj_on (held(t := None)) (dom (held(t := None)))"
      using D(1,4) w1(4) inj_drop [OF D(2)] by simp_all
    show "b \<notin> set (queued w1)" if "(held(t := None)) u = Some b" for b u
      using that D(3) w1(4) ranI [of held u b] by (auto split: if_splits)
    show "b \<in> dom (cs_clients w1) \<and> \<not> armed w1 b" if "b \<in> set (queued w1)" for b
      using D(5) [of b] D(3) ranI [of held t a, OF t] that w1 by auto
    show "b \<in> dom (cs_clients w1) \<and> \<not> armed w1 b" if "(held(t := None)) u = Some b" for b u
      using that D(6) [of u b] held_other [OF D(2) t, of u] w1 by (auto split: if_splits)
    show "armed w1 b" if "(ev, b) \<in> set batch" for ev b using D(7) that w1(5) by blast
  qed
  then show ?thesis using w1(2) w' by blast
qed

lemma accept_owners:
  assumes own: "net_own w" and o: "owners w batch held" and k: "accept_ok w kern"
    and r: "accept_round BuildET junk now w kern = Inr w'"
  shows "net_own w' \<and> owners w' batch held"
proof -
  note D = ownersD [OF o] and P = accept_place [OF own k r]
  obtain A where A: "dom (cs_clients w') = dom (cs_clients w) \<union> A" "\<And>b. armed w' b \<longleftrightarrow> armed w b \<or> b \<in> A"
      "A \<inter> dom (cs_clients w) = {}"
  proof (cases "cs_clients w' = cs_clients w \<and> armed w' = armed w")
    case True
    then show thesis using that [of "{}"] by simp
  next
    case False
    then obtain a c where "a \<notin> dom (cs_clients w)" "cs_clients w' = (cs_clients w)(a \<mapsto> c)"
      "\<forall>b. armed w' b \<longleftrightarrow> armed w b \<or> b = a" using P by blast
    then show thesis using that [of "{a}"] by auto
  qed
  have qu: "queued w' = queued w" using P by blast
  have "owners w' batch held"
  proof (rule ownersI)
    show "distinct (queued w')" "inj_on held (dom held)" "distinct (map snd batch)" using D(1,2,4) qu by simp_all
    show "b \<notin> set (queued w')" if "held u = Some b" for b u using D(3) qu ranI [of held, OF that] by auto
    show "b \<in> dom (cs_clients w') \<and> \<not> armed w' b" if "b \<in> set (queued w')" for b
      using D(5) [of b] that qu unfolding A(1,2) using A(3) by auto
    show "b \<in> dom (cs_clients w') \<and> \<not> armed w' b" if "held u = Some b" for b u
      using D(6) [OF that] unfolding A(1,2) using A(3) by auto
    show "armed w' b" if "(ev, b) \<in> set batch" for ev b using D(7) [OF that] A(2) by blast
  qed
  then show ?thesis using P by blast
qed

lemma poll_owners:
  assumes own: "net_own w" and o: "owners w [] held" and d: "distinct (map fst kevents)"
  shows "owners w (IOMP_EPoll_Polling w kevents) held"
proof (rule ownersI)
  note D = ownersD [OF o]
  show "distinct (queued w)" "inj_on held (dom held)" by (rule D)+
  show "a \<notin> set (queued w)" if "held u = Some a" for a u using D(3) ranI [of held, OF that] by auto
  show "distinct (map snd (IOMP_EPoll_Polling w kevents))" by (rule polled(1) [OF own d])
  show "a \<in> dom (cs_clients w) \<and> \<not> armed w a" if "a \<in> set (queued w)" for a using D(5) that .
  show "a \<in> dom (cs_clients w) \<and> \<not> armed w a" if "held u = Some a" for a u using D(6) that .
  show "armed w a" if "(ev, a) \<in> set (IOMP_EPoll_Polling w kevents)" for ev a using polled(2) [OF own d that] .
qed

lemma rt_step_inv: "rt_step s s' \<Longrightarrow> rt_inv s \<Longrightarrow> rt_inv s'"
proof (induction rule: rt_step.induct)
  case (poll s kevents)
  then have "net_own (rt_w s)" "owners (rt_w s) [] (rt_held s)" by (simp_all add: rt_inv_def)
  then show ?case using poll_owners [OF _ _ poll(2)] by (simp add: rt_inv_def)
next
  case (event s ev a rest now w')
  then have "net_own (rt_w s)" "owners (rt_w s) ((ev, a) # rest) (rt_held s)" by (simp_all add: rt_inv_def)
  from event_owners [OF this event(2)] show ?case by (simp add: rt_inv_def)
next
  case (accept s kern junk now w')
  then have "net_own (rt_w s)" "owners (rt_w s) (rt_batch s) (rt_held s)" by (simp_all add: rt_inv_def)
  from accept_owners [OF this accept(1,2)] show ?case by (simp add: rt_inv_def)
next
  case (take s t a w')
  then have "net_own (rt_w s)" "owners (rt_w s) (rt_batch s) (rt_held s)" by (simp_all add: rt_inv_def)
  from take_owners [OF this take(1,2)] show ?case by (simp add: rt_inv_def)
next
  case (fill s t a fionread err r w' err')
  note q = quiet_inv [OF fill_quiet [OF fill(2)]]
  then show ?case using fill(3) by (simp add: rt_inv_def)
next
  case (execute s t a jnk r w')
  note q = quiet_inv [OF execute_quiet [OF execute(2)]]
  then show ?case using execute(3) by (simp add: rt_inv_def)
next
  case (close s t a w')
  then have own: "net_own (rt_w s)" and o: "owners (rt_w s) (rt_batch s) (rt_held s)" by (simp_all add: rt_inv_def)
  note D = ownersD [OF o] and L = drop_owners [OF o, of t]
  have a: "a \<in> dom (cs_clients (rt_w s))" "\<not> armed (rt_w s) a" using D(6) [OF close(1)] by simp_all
  have nq: "a \<notin> set (queued (rt_w s))" using D(3) ranI [of "rt_held s", OF close(1)] by auto
  have "((rt_held s)(t := None)) u \<noteq> Some a" for u using held_other [OF D(2) close(1), of u] by auto
  moreover have "a \<notin> snd ` set (rt_batch s)" using D(7) a(2) by auto
  ultimately show ?case using close_owners [OF own L a(1) nq _ _ close(2)] by (simp add: rt_inv_def)
next
  case (release s t a w')
  then have "net_own (rt_w s)" "owners (rt_w s) (rt_batch s) (rt_held s)" by (simp_all add: rt_inv_def)
  from release_owners [OF this release(1,2)] show ?case by (simp add: rt_inv_def)
next
  case (broadcast s w')
  note q = quiet_inv [OF broadcaster_quiet [OF broadcast(1)]]
  then show ?case using broadcast(2) by (simp add: rt_inv_def)
qed

lemma rt_reach_inv: "rt_reach w s \<Longrightarrow> rt_inv s"
proof (induction rule: rt_reach.induct)
  case rt_reach_init
  then have "net_own w" "queued w = []" by (simp_all add: rt_ready_def)
  then show ?case by (auto simp: rt_inv_def rt_init_def intro!: ownersI)
next
  case (rt_reach_step s s')
  then show ?case using rt_step_inv by blast
qed

lemma event_blocks:
  assumes own: "net_own w" and a: "a \<in> dom (cs_clients w)" and r: "ChatServer_event BuildET now w ev a = Inl e"
  shows "e = Blocks"
proof -
  obtain c p fd where c: "cs_clients w a = Some c" "m_cSocket c = Some p" "n_socks w p = Some fd"
    by (rule owned_client [OF own a])
  obtain w' where "CloseClient w a = Inr w'" by (rule close_place [OF own a])
  then show ?thesis
    using r c by (auto simp: ChatServer_event_def IOMP_EPoll_DelClient_def Client_GetSocket_def PutReceiveQueue_def
        IOMP_EPoll_DelFd_def queue_put_def bindR_def split: if_splits option.splits sum.splits)
qed

text \<open>A short run: an event for the first client of the demo server, which the receiver thread 1 takes.\<close>

definition demo_watching :: ChatServer where
  "demo_watching = demo_server\<lparr>n_epoll := [4 \<mapsto> (or EPOLLIN EPOLLET, 10)]\<rparr>"

lemma demo_watching_ready: "rt_ready demo_watching"
proof -
  have "cs_wf (w\<lparr>n_epoll := e\<rparr>) = cs_wf w" for w e
    by (simp add: cs_wf_def sock_live_def cong: option.case_cong)
  then have "cs_wf demo_watching" unfolding demo_watching_def by (simp only: demo_server_wf)
  moreover have "rq_wf QSIZE (m_pReceiveQueue demo_watching)" "queued demo_watching = []"
    by (simp_all add: demo_watching_def demo_server_def ChatServer_new_def net.defs CircularQueue_new_def queued_def
        ring_new_wf ring_new_items QSIZE_pos)
  moreover have "client_fd demo_watching 10 = Some 4" by (simp add: client_fd_def demo_watching_def)
  ultimately show ?thesis by (auto simp: rt_ready_def net_own_def demo_watching_def split: if_splits)
qed

lemma demo_run: "\<exists>s. rt_reach demo_watching s \<and> rt_held s 1 = Some 10"
proof -
  let ?s1 = "rt_init demo_watching\<lparr>rt_batch := [(EPOLLIN, 10)]\<rparr>"
  have "IOMP_EPoll_Polling demo_watching [(4, EPOLLIN)] = [(EPOLLIN, 10)]"
    by (simp add: IOMP_EPoll_Polling_def demo_watching_def List.map_filter_def EPOLL_SIZE_def)
  with rt_step.poll [of "rt_init demo_watching" "[(4, EPOLLIN)]"]
  have s1: "rt_reach demo_watching ?s1"
    using rt_reach_step [OF rt_reach_init [OF demo_watching_ready]] by (simp add: rt_init_def)
  have own: "net_own demo_watching" "queued demo_watching = []" using demo_watching_ready by (simp_all add: rt_ready_def)
  let ?w = "demo_watching\<lparr>n_epoll := Map.empty,
      cs_clients := (cs_clients demo_watching)(10 \<mapsto> SetAccessTime (new_user (\<lambda>_. 0) 0 (Some 1) CLIENT_USER) 0)\<rparr>"
  have ne: "rq_wf QSIZE (m_pReceiveQueue ?w)" "rq_items QSIZE (m_pReceiveQueue ?w) = []"
    using own by (simp_all add: net_own_def queued_def)
  obtain q where q: "queue_put (m_pReceiveQueue ?w) 10 = Inr q" "rq_items QSIZE q = [10]"
    by (rule queue_put_room [OF ne(1), of 10]) (use ne(2) QSIZE_pos in simp_all)
  have "and EPOLLIN (or EPOLLERR EPOLLHUP) = 0" "and EPOLLIN EPOLLIN \<noteq> 0"
    by (simp_all add: EPOLLIN_def EPOLLERR_def EPOLLHUP_def)
  then have ev: "ChatServer_event BuildET 0 demo_watching EPOLLIN 10 = Inr (?w\<lparr>m_pReceiveQueue := q\<rparr>)"
    using q(1)
    by (simp add: ChatServer_event_def demo_watching_def PutReceiveQueue_def IOMP_EPoll_DelClient_def IOMP_EPoll_DelFd_def
        Client_GetSocket_def fun_upd_idem)
  let ?s2 = "rt_init demo_watching\<lparr>rt_w := ?w\<lparr>m_pReceiveQueue := q\<rparr>\<rparr>"
  have s2: "rt_reach demo_watching ?s2"
    using rt_reach_step [OF s1 rt_step.event [of ?s1 EPOLLIN 10 "[]" 0]] ev by (simp add: rt_init_def)
  obtain x q' where "ring_deq QSIZE q = Some (x, q')" using q(2) ring_deq_None [of QSIZE q] by (cases "ring_deq QSIZE q") auto
  then have "GetReceiveQueue (rt_w ?s2) = Inr (x, rt_w ?s2\<lparr>m_pReceiveQueue := q'\<rparr>)"
    by (simp add: GetReceiveQueue_def queue_get_def CircularQueue_DeQueue_def)
  moreover have "x = 10"
    using dequeue_place(2) [OF _ calculation] rt_reach_inv [OF s2] q(2) by (simp add: rt_inv_def queued_def)
  ultimately show ?thesis
    using rt_reach_step [OF s2 rt_step.take [of ?s2 1]]
    by (intro exI [of _ "?s2\<lparr>rt_w := rt_w ?s2\<lparr>m_pReceiveQueue := q'\<rparr>, rt_held := (rt_held ?s2)(1 \<mapsto> 10)\<rparr>"])
      (simp add: rt_init_def)
qed

section \<open>Properties\<close>

text \<open>C5: In every interleaving of polling, accepting, receiving and broadcasting, a client is in one place
  only: two receiver threads never hold the same client, a client that a thread holds is alive, does not
  wait in the receive queue and is not watched by \<open>epoll\<close>, one that waits is alive, waits once and is not
  watched. This is what makes the unlocked accesses to a client's ring safe.\<close>

theorem one_thread_per_client:
  assumes "rt_reach w s"
  shows "(rt_held s t = Some a \<and> rt_held s u = Some a \<longrightarrow> t = u) \<and>
    (rt_held s t = Some a \<longrightarrow> a \<in> dom (cs_clients (rt_w s)) \<and> a \<notin> set (queued (rt_w s)) \<and> \<not> armed (rt_w s) a) \<and>
    distinct (queued (rt_w s)) \<and>
    (a \<in> set (queued (rt_w s)) \<longrightarrow> a \<in> dom (cs_clients (rt_w s)) \<and> \<not> armed (rt_w s) a)"
proof -
  have "owners (rt_w s) (rt_batch s) (rt_held s)" using rt_reach_inv [OF assms] by (simp add: rt_inv_def)
  note D = ownersD [OF this]
  have "rt_held s t = Some a \<Longrightarrow> a \<notin> set (queued (rt_w s))" using D(3) by (auto dest: ranI)
  then show ?thesis using D(1,5,6) held_other [OF D(2)] by blast
qed

theorem one_thread_per_client_witness:
  "\<exists>s. rt_reach demo_watching s \<and> rt_held s 1 = Some 10 \<and> 10 \<notin> set (queued (rt_w s)) \<and> rt_held s 2 \<noteq> Some 10"
proof -
  obtain s where s: "rt_reach demo_watching s" "rt_held s 1 = Some 10" using demo_run by blast
  then show ?thesis using one_thread_per_client [OF s(1), of 1 10 2] by (intro exI [of _ s]) auto
qed

text \<open>C6: No thread ever works on a client that another has deleted: the client of the next polled event is alive
  (so handling the event is never a use after free, although the batch was polled before other threads
  closed clients), and a receiver that holds a client can close it or put it back under \<open>epoll\<close>
  successfully, at every moment of every run.\<close>

theorem no_use_of_closed_clients:
  assumes "rt_reach w s"
  shows "(rt_batch s = (ev, a) # rest \<longrightarrow> a \<in> dom (cs_clients (rt_w s)) \<and>
      (\<forall>now e. ChatServer_event BuildET now (rt_w s) ev a = Inl e \<longrightarrow> e = Blocks)) \<and>
    (rt_held s t = Some b \<longrightarrow> (\<exists>w'. CloseClient (rt_w s) b = Inr w') \<and> (\<exists>w'. rearm BuildET (rt_w s) b = Inr w'))"
proof -
  have own: "net_own (rt_w s)" and o: "owners (rt_w s) (rt_batch s) (rt_held s)"
    using rt_reach_inv [OF assms] by (simp_all add: rt_inv_def)
  note D = ownersD [OF o]
  have "a \<in> dom (cs_clients (rt_w s)) \<and> (\<forall>now e. ChatServer_event BuildET now (rt_w s) ev a = Inl e \<longrightarrow> e = Blocks)"
    if "rt_batch s = (ev, a) # rest"
  proof -
    have "armed (rt_w s) a" by (rule D(7) [of ev]) (simp add: that)
    then have a: "a \<in> dom (cs_clients (rt_w s))" by (rule armed_alive [OF own])
    show ?thesis using event_blocks [OF own a] a by blast
  qed
  moreover have "(\<exists>w'. CloseClient (rt_w s) b = Inr w') \<and> (\<exists>w'. rearm BuildET (rt_w s) b = Inr w')"
    if "rt_held s t = Some b"
    using D(6) [OF that] close_place [OF own] release_place [OF own] by metis
  ultimately show ?thesis by blast
qed

theorem no_use_of_closed_clients_witness:
  "\<exists>s w'. rt_reach demo_watching s \<and> rt_held s 1 = Some 10 \<and> CloseClient (rt_w s) 10 = Inr w'"
proof -
  obtain s where s: "rt_reach demo_watching s" "rt_held s 1 = Some 10" using demo_run by blast
  then show ?thesis using no_use_of_closed_clients [OF s(1), of _ _ _ 1 10] by blast
qed

end
