(* ===== verification/Sha256.thy ===== *)
theory Sha256
  imports Prelude
begin

unbundle bit_operations_syntax

text \<open>
  The SHA-256 of \<open>CNPUtil\<close> (src/NPUtil.cpp, the types in include/NPUtil.h). Its \<open>uint32\<close> is
  \<open>unsigned long int\<close>, which has 64 bits on the platform of the program, while the algorithm is one of
  32-bit words: the macro \<open>SHR\<close> masks its argument, everything else leaves what it likes in the upper
  halves. The code is modelled at its 64 bits. The standard is a second definition, at 32 bits, with its
  constants as the standard explains them (bits of roots of primes), and the theorem is that the digest of
  the code is the one of the standard, however the message was cut into updates.
\<close>

section \<open>The code\<close>

text \<open>\<open>total[2]\<close> is two fields; \<open>state[8]\<close> and \<open>buffer[64]\<close> are lists of these lengths.\<close>

record sha256_context =
  total_0 :: "64 word"
  total_1 :: "64 word"
  state_of :: "64 word list"
  buffer_of :: "byte list"

definition GET_UINT32 :: "byte list \<Rightarrow> nat \<Rightarrow> 64 word" where
  "GET_UINT32 b i =
     push_bit 24 (ucast (b ! i)) OR push_bit 16 (ucast (b ! (i + 1))) OR
     push_bit 8 (ucast (b ! (i + 2))) OR ucast (b ! (i + 3))"

definition PUT_UINT32 :: "64 word \<Rightarrow> byte list" where
  \<comment> \<open>the four bytes it stores\<close>
  "PUT_UINT32 n = [ucast (drop_bit 24 n), ucast (drop_bit 16 n), ucast (drop_bit 8 n), ucast n]"

definition sha256_starts :: "sha256_context \<Rightarrow> sha256_context" where
  "sha256_starts ctx = ctx\<lparr>total_0 := 0, total_1 := 0,
     state_of := [0x6A09E667, 0xBB67AE85, 0x3C6EF372, 0xA54FF53A, 0x510E527F, 0x9B05688C, 0x1F83D9AB, 0x5BE0CD19]\<rparr>"

definition SHR :: "64 word \<Rightarrow> nat \<Rightarrow> 64 word" where "SHR x n = drop_bit n (x AND 0xFFFFFFFF)"
definition ROTR :: "64 word \<Rightarrow> nat \<Rightarrow> 64 word" where "ROTR x n = (SHR x n OR push_bit (32 - n) x)"
definition S0 :: "64 word \<Rightarrow> 64 word" where "S0 x = (ROTR x 7 XOR ROTR x 18 XOR SHR x 3)"
definition S1 :: "64 word \<Rightarrow> 64 word" where "S1 x = (ROTR x 17 XOR ROTR x 19 XOR SHR x 10)"
definition S2 :: "64 word \<Rightarrow> 64 word" where "S2 x = (ROTR x 2 XOR ROTR x 13 XOR ROTR x 22)"
definition S3 :: "64 word \<Rightarrow> 64 word" where "S3 x = (ROTR x 6 XOR ROTR x 11 XOR ROTR x 25)"
definition F0 :: "64 word \<Rightarrow> 64 word \<Rightarrow> 64 word \<Rightarrow> 64 word" where
  "F0 x y z = ((x AND y) OR (z AND (x OR y)))"
definition F1 :: "64 word \<Rightarrow> 64 word \<Rightarrow> 64 word \<Rightarrow> 64 word" where
  "F1 x y z = (z XOR (x AND (y XOR z)))"

definition sha_R :: "64 word list \<Rightarrow> nat \<Rightarrow> 64 word" where
  \<comment> \<open>the value of \<open>R(t)\<close>\<close>
  "sha_R W t = S1 (W ! (t - 2)) + W ! (t - 7) + S0 (W ! (t - 15)) + W ! (t - 16)"

text \<open>The 64 lines \<open>P(...)\<close>: the index of the message word and the constant. The eight variables
  \<open>A\<close> to \<open>H\<close> are a list; in line \<open>t\<close> the \<open>i\<close>th parameter of the macro is the variable \<open>sha_reg t i\<close>.\<close>

definition sha_rounds :: "(nat \<times> 64 word) list" where
  "sha_rounds =
    [(0, 0x428A2F98), (1, 0x71374491), (2, 0xB5C0FBCF), (3, 0xE9B5DBA5),
     (4, 0x3956C25B), (5, 0x59F111F1), (6, 0x923F82A4), (7, 0xAB1C5ED5),
     (8, 0xD807AA98), (9, 0x12835B01), (10, 0x243185BE), (11, 0x550C7DC3),
     (12, 0x72BE5D74), (13, 0x80DEB1FE), (14, 0x9BDC06A7), (15, 0xC19BF174),
     (16, 0xE49B69C1), (17, 0xEFBE4786), (18, 0x0FC19DC6), (19, 0x240CA1CC),
     (20, 0x2DE92C6F), (21, 0x4A7484AA), (22, 0x5CB0A9DC), (23, 0x76F988DA),
     (24, 0x983E5152), (25, 0xA831C66D), (26, 0xB00327C8), (27, 0xBF597FC7),
     (28, 0xC6E00BF3), (29, 0xD5A79147), (30, 0x06CA6351), (31, 0x14292967),
     (32, 0x27B70A85), (33, 0x2E1B2138), (34, 0x4D2C6DFC), (35, 0x53380D13),
     (36, 0x650A7354), (37, 0x766A0ABB), (38, 0x81C2C92E), (39, 0x92722C85),
     (40, 0xA2BFE8A1), (41, 0xA81A664B), (42, 0xC24B8B70), (43, 0xC76C51A3),
     (44, 0xD192E819), (45, 0xD6990624), (46, 0xF40E3585), (47, 0x106AA070),
     (48, 0x19A4C116), (49, 0x1E376C08), (50, 0x2748774C), (51, 0x34B0BCB5),
     (52, 0x391C0CB3), (53, 0x4ED8AA4A), (54, 0x5B9CCA4F), (55, 0x682E6FF3),
     (56, 0x748F82EE), (57, 0x78A5636F), (58, 0x84C87814), (59, 0x8CC70208),
     (60, 0x90BEFFFA), (61, 0xA4506CEB), (62, 0xBEF9A3F7), (63, 0xC67178F2)]"

definition sha_reg :: "nat \<Rightarrow> nat \<Rightarrow> nat" where "sha_reg t i = (i + 8 - t mod 8) mod 8"

definition sha_P :: "nat \<Rightarrow> 64 word list \<Rightarrow> 64 word \<Rightarrow> 64 word \<Rightarrow> 64 word list" where
  "sha_P t v x K =
     (let a = v ! sha_reg t 0; b = v ! sha_reg t 1; c = v ! sha_reg t 2; d = v ! sha_reg t 3;
          e = v ! sha_reg t 4; f = v ! sha_reg t 5; g = v ! sha_reg t 6; h = v ! sha_reg t 7;
          temp1 = h + S3 e + F1 e f g + K + x;
          temp2 = S2 a + F0 a b c
      in v[sha_reg t 3 := d + temp1, sha_reg t 7 := temp1 + temp2])"

text \<open>One line: from line 16 on \<open>R(t)\<close> first stores the next word.\<close>

definition sha_line :: "64 word list \<times> 64 word list \<Rightarrow> nat \<times> 64 word \<Rightarrow> 64 word list \<times> 64 word list" where
  "sha_line Wv tK =
     (let W = fst Wv; v = snd Wv; t = fst tK; W' = (if t < 16 then W else W @ [sha_R W t])
      in (W', sha_P t v (W' ! t) (snd tK)))"

definition sha256_process :: "sha256_context \<Rightarrow> byte list \<Rightarrow> sha256_context" where
  "sha256_process ctx data =
     (let W = map (\<lambda>i. GET_UINT32 data (4 * i)) [0..<16];
          v = snd (foldl sha_line (W, state_of ctx) sha_rounds)
      in ctx\<lparr>state_of := map2 (+) (state_of ctx) v\<rparr>)"

text \<open>The loop over whole blocks: the context, the offset and the length left.\<close>

function sha256_loop :: "sha256_context \<Rightarrow> byte list \<Rightarrow> int \<Rightarrow> 64 word \<Rightarrow> (sha256_context \<times> int \<times> 64 word) res" where
  "sha256_loop ctx input off len =
     (if 64 \<le> len
      then (case mem_read input off 64 of Inl e \<Rightarrow> Inl e
            | Inr d \<Rightarrow> sha256_loop (sha256_process ctx d) input (off + 64) (len - 64))
      else Inr (ctx, off, len))"
  by pat_completeness auto
termination
  by (relation "measure (\<lambda>(ctx, input, off, len). unat len)")
    (auto simp: unat_sub word_le_nat_alt)

text \<open>An update completes a block that was begun, hashes the whole blocks and keeps what is left.\<close>

definition sha256_fill :: "sha256_context \<Rightarrow> byte list \<Rightarrow> 64 word \<Rightarrow> 64 word \<Rightarrow>
    (sha256_context \<times> int \<times> 64 word \<times> 64 word) res" where
  "sha256_fill ctx input len left =
     (if left \<noteq> 0 \<and> 64 - left \<le> len
      then bindR (memcpy (buffer_of ctx) (uint left) input 0 (uint (64 - left))) (\<lambda>buf.
             Inr (sha256_process (ctx\<lparr>buffer_of := buf\<rparr>) buf, uint (64 - left), len - (64 - left), 0))
      else Inr (ctx, 0, len, left))"

definition sha256_rest :: "sha256_context \<Rightarrow> byte list \<Rightarrow> int \<Rightarrow> 64 word \<Rightarrow> 64 word \<Rightarrow> sha256_context res" where
  "sha256_rest ctx input off len left =
     bindR (sha256_loop ctx input off len) (\<lambda>(ctx3, off3, len3).
       if len3 \<noteq> 0
       then bindR (memcpy (buffer_of ctx3) (uint left) input off3 (uint len3)) (\<lambda>buf. Inr (ctx3\<lparr>buffer_of := buf\<rparr>))
       else Inr ctx3)"

definition sha256_update :: "sha256_context \<Rightarrow> byte list \<Rightarrow> 64 word \<Rightarrow> sha256_context res" where
  "sha256_update ctx input len =
     (if len = 0 then Inr ctx
      else
        let left = total_0 ctx AND 0x3F;
            t = (total_0 ctx + len) AND 0xFFFFFFFF;
            ctx1 = ctx\<lparr>total_0 := t, total_1 := (if t < len then total_1 ctx + 1 else total_1 ctx)\<rparr>
        in bindR (sha256_fill ctx1 input len left) (\<lambda>(ctx2, off, len2, left2). sha256_rest ctx2 input off len2 left2))"

definition sha256_padding :: "byte list" where "sha256_padding = 0x80 # replicate 63 0"

definition sha256_finish :: "sha256_context \<Rightarrow> (byte list \<times> sha256_context) res" where
  \<comment> \<open>the digest, and the context afterwards\<close>
  "sha256_finish ctx =
     (let high = drop_bit 29 (total_0 ctx) OR push_bit 3 (total_1 ctx);
          low = push_bit 3 (total_0 ctx);
          msglen = PUT_UINT32 high @ PUT_UINT32 low;
          lastb = total_0 ctx AND 0x3F;
          padn = (if lastb < 56 then 56 - lastb else 120 - lastb)
      in
        bindR (sha256_update ctx sha256_padding padn) (\<lambda>ctx1.
        bindR (sha256_update ctx1 msglen 8) (\<lambda>ctx2.
          Inr (concat (map PUT_UINT32 (state_of ctx2)), ctx2))))"

definition GoSha256 :: "sha256_context \<Rightarrow> byte list \<Rightarrow> int \<Rightarrow> byte list res" where
  \<comment> \<open>\<open>ctx\<close> is what the uninitialised local holds; the length is converted to \<open>uint32\<close>\<close>
  "GoSha256 ctx source iLen =
     bindR (sha256_update (sha256_starts ctx) source (word_of_int iLen)) (\<lambda>ctx1.
     bindR (sha256_finish ctx1) (\<lambda>(digest, _). Inr digest))"

section \<open>The standard\<close>

text \<open>The integer root, bit by bit, and the first 32 bits of the fractional part of a root.\<close>

primrec root_bits :: "nat \<Rightarrow> nat \<Rightarrow> nat \<Rightarrow> nat \<Rightarrow> nat" where
  "root_bits k n r 0 = r"
| "root_bits k n r (Suc b) = root_bits k n (if (r + 2 ^ b) ^ k \<le> n then r + 2 ^ b else r) b"

definition fraction_bits :: "nat \<Rightarrow> nat \<Rightarrow> 32 word" where
  "fraction_bits k p = of_nat (root_bits k (p * 2 ^ (32 * k)) 0 40)"

text \<open>The first sixty-four primes.\<close>

definition fips_primes :: "nat list" where
  "fips_primes =
    [2, 3, 5, 7, 11, 13, 17, 19, 23, 29, 31, 37, 41, 43, 47, 53, 59, 61, 67, 71, 73, 79,
     83, 89, 97, 101, 103, 107, 109, 113, 127, 131, 137, 139, 149, 151, 157, 163, 167, 173, 179, 181, 191, 193,
     197, 199, 211, 223, 227, 229, 233, 239, 241, 251, 257, 263, 269, 271, 277, 281, 283, 293, 307, 311]"

definition fips_H :: "32 word list" where "fips_H = map (fraction_bits 2) (take 8 fips_primes)"
definition fips_K :: "nat \<Rightarrow> 32 word" where "fips_K t = fraction_bits 3 (fips_primes ! t)"

definition fips_Ch :: "32 word \<Rightarrow> 32 word \<Rightarrow> 32 word \<Rightarrow> 32 word" where
  "fips_Ch x y z = ((x AND y) XOR (NOT x AND z))"
definition fips_Maj :: "32 word \<Rightarrow> 32 word \<Rightarrow> 32 word \<Rightarrow> 32 word" where
  "fips_Maj x y z = ((x AND y) XOR (x AND z) XOR (y AND z))"
definition fips_rot :: "32 word \<Rightarrow> nat \<Rightarrow> 32 word" where "fips_rot x n = word_rotr n x"
definition fips_Sigma0 :: "32 word \<Rightarrow> 32 word" where
  "fips_Sigma0 x = (fips_rot x 2 XOR fips_rot x 13 XOR fips_rot x 22)"
definition fips_Sigma1 :: "32 word \<Rightarrow> 32 word" where
  "fips_Sigma1 x = (fips_rot x 6 XOR fips_rot x 11 XOR fips_rot x 25)"
definition fips_sigma0 :: "32 word \<Rightarrow> 32 word" where
  "fips_sigma0 x = (fips_rot x 7 XOR fips_rot x 18 XOR drop_bit 3 x)"
definition fips_sigma1 :: "32 word \<Rightarrow> 32 word" where
  "fips_sigma1 x = (fips_rot x 17 XOR fips_rot x 19 XOR drop_bit 10 x)"

fun fips_W :: "32 word list \<Rightarrow> nat \<Rightarrow> 32 word" where
  "fips_W M t =
     (if t < 16 then M ! t
      else fips_sigma1 (fips_W M (t - 2)) + fips_W M (t - 7) + fips_sigma0 (fips_W M (t - 15)) + fips_W M (t - 16))"

definition fips_round :: "32 word list \<Rightarrow> 32 word \<Rightarrow> 32 word \<Rightarrow> 32 word list" where
  "fips_round s K W =
     (let T1 = s ! 7 + fips_Sigma1 (s ! 4) + fips_Ch (s ! 4) (s ! 5) (s ! 6) + K + W;
          T2 = fips_Sigma0 (s ! 0) + fips_Maj (s ! 0) (s ! 1) (s ! 2)
      in [T1 + T2, s ! 0, s ! 1, s ! 2, s ! 3 + T1, s ! 4, s ! 5, s ! 6])"

definition be_word :: "byte list \<Rightarrow> 32 word" where
  "be_word b = (push_bit 24 (ucast (b ! 0)) OR push_bit 16 (ucast (b ! 1)) OR push_bit 8 (ucast (b ! 2)) OR ucast (b ! 3))"
definition fips_words :: "byte list \<Rightarrow> 32 word list" where
  "fips_words blk = map (\<lambda>i. be_word (take 4 (drop (4 * i) blk))) [0..<16]"

definition fips_compress :: "32 word list \<Rightarrow> byte list \<Rightarrow> 32 word list" where
  "fips_compress s blk =
     map2 (+) s (foldl (\<lambda>s t. fips_round s (fips_K t) (fips_W (fips_words blk) t)) s [0..<64])"

text \<open>The hash of a message so far: the chaining value after its whole blocks, and the bytes behind them.\<close>

function fips_absorb :: "32 word list \<Rightarrow> byte list \<Rightarrow> 32 word list \<times> byte list" where
  "fips_absorb s m =
     (if length m < 64 then (s, m) else fips_absorb (fips_compress s (take 64 m)) (drop 64 m))"
  by pat_completeness auto
termination
  by (relation "measure (\<lambda>(s, m). length m)") auto

definition be_bytes :: "'a::len word \<Rightarrow> byte list" where
  "be_bytes w = map (\<lambda>i. ucast (drop_bit (8 * i) w)) (rev [0..<LENGTH('a) div 8])"

definition fips_pad :: "byte list \<Rightarrow> byte list" where
  "fips_pad m = m @ [0x80] @ replicate ((119 - length m mod 64) mod 64) 0 @ be_bytes (of_nat (8 * length m) :: 64 word)"

definition fips_sha256 :: "byte list \<Rightarrow> byte list" where
  "fips_sha256 m = concat (map be_bytes (fst (fips_absorb fips_H (fips_pad m))))"

declare fips_absorb.simps [simp del] fips_W.simps [simp del] sha256_loop.simps [simp del]

section \<open>Lower halves\<close>

definition low32 :: "64 word \<Rightarrow> 32 word" where "low32 = ucast"

lemma take_bit_add_wide: "take_bit 32 (take_bit 64 a + take_bit 64 b) = take_bit 32 (a + b)" for a b :: int
proof -
  have "take_bit 32 (take_bit 64 a + take_bit 64 b) =
      take_bit 32 (take_bit 32 (take_bit 64 a) + take_bit 32 (take_bit 64 b))" by (rule take_bit_add [symmetric])
  then show ?thesis by (simp add: take_bit_add)
qed

lemma low32_add [simp]: "low32 (a + b) = low32 a + low32 b"
  unfolding low32_def by transfer (simp add: take_bit_add take_bit_add_wide)

lemma low32_one: "low32 1 = 1"
  by (simp add: low32_def)

lemma low32_bits [simp]:
  "low32 (a AND b) = (low32 a AND low32 b)" "low32 (a OR b) = (low32 a OR low32 b)" "low32 (a XOR b) = (low32 a XOR low32 b)"
  by (simp_all add: low32_def unsigned_and_eq unsigned_or_eq unsigned_xor_eq)

lemma low32_push [simp]: "low32 (push_bit n a) = push_bit n (low32 a)"
  unfolding low32_def by (rule bit_word_eqI) (auto simp: bit_simps)

lemma SHR_take_bit: "SHR x n = drop_bit n (take_bit 32 x)"
  by (simp add: SHR_def take_bit_eq_mask mask_eq_exp_minus_1)

lemma low32_SHR [simp]: "low32 (SHR a n) = drop_bit n (low32 a)"
  unfolding low32_def SHR_take_bit by (rule bit_word_eqI) (auto simp: bit_simps)

lemma low32_ROTR [simp]:
  assumes "0 < n" "n < 32"
  shows "low32 (ROTR a n) = fips_rot (low32 a) n"
  unfolding ROTR_def fips_rot_def
proof (simp, rule bit_word_eqI)
  fix k assume k: "k < LENGTH(32)"
  have "(k + n) mod 32 = (if k + n < 32 then k + n else k + n - 32)"
    using assms(2) k by (simp add: mod_if)
  moreover have "bit (low32 a) (n + k) \<Longrightarrow> n + k < 32" using bit_imp_le_length [of "low32 a"] by simp
  ultimately show "bit (drop_bit n (low32 a) OR push_bit (32 - n) (low32 a)) k = bit (word_rotr n (low32 a)) k"
    using assms k by (auto simp: bit_simps ac_simps)
qed

section \<open>The constants\<close>

lemma root_bits_bounds:
  assumes "r ^ k \<le> n" "n < (r + 2 ^ b) ^ k"
  shows "root_bits k n r b ^ k \<le> n \<and> n < (root_bits k n r b + 1) ^ k"
  using assms
proof (induction b arbitrary: r)
  case (Suc b)
  show ?case
  proof (cases "(r + 2 ^ b) ^ k \<le> n")
    case True
    then show ?thesis using Suc.IH [of "r + 2 ^ b"] Suc.prems by (simp add: mult_2 add.assoc)
  next
    case False
    then show ?thesis using Suc.IH [of r] Suc.prems by (simp add: not_le)
  qed
qed simp

lemma root_unique:
  fixes r x :: nat
  assumes "r ^ k \<le> n" "n < (r + 1) ^ k" "x ^ k \<le> n" "n < (x + 1) ^ k"
  shows "r = x"
proof -
  have "r ^ k < (x + 1) ^ k" "x ^ k < (r + 1) ^ k" using assms by linarith+
  then have "r < x + 1" "x < r + 1" using power_less_imp_less_base by blast+
  then show ?thesis by linarith
qed

lemma fraction_bits_eqI:
  assumes "x ^ k \<le> p * 2 ^ (32 * k)" "p * 2 ^ (32 * k) < (x + 1) ^ k" "0 < k" "p < 256 ^ k"
  shows "fraction_bits k p = of_nat x"
proof -
  have "p * 2 ^ (32 * k) < 256 ^ k * 2 ^ (32 * k)" using assms(4) by simp
  also have "(256 :: nat) ^ k * 2 ^ (32 * k) = (0 + 2 ^ 40) ^ k"
    by (simp add: power_mult power_mult_distrib [symmetric])
  finally have "p * 2 ^ (32 * k) < (0 + 2 ^ 40) ^ k" .
  moreover have "(0 :: nat) ^ k \<le> p * 2 ^ (32 * k)" using assms(3) by (simp add: zero_power)
  ultimately have "root_bits k (p * 2 ^ (32 * k)) 0 40 = x"
    using root_unique [OF _ _ assms(1,2)] root_bits_bounds by blast
  then show ?thesis by (simp add: fraction_bits_def)
qed

definition root_floor :: "nat \<Rightarrow> nat \<Rightarrow> nat" where
  \<comment> \<open>for the primes that occur\<close>
  "root_floor k p = length (takeWhile (\<lambda>i. i ^ k \<le> p) [1, 2, 3, 4, 5, 6])"

definition const_ok :: "nat \<Rightarrow> nat \<Rightarrow> 64 word \<Rightarrow> bool" where
  "const_ok k p K =
     (let x = root_floor k p * 2 ^ 32 + unat K
      in x ^ k \<le> p * 2 ^ (32 * k) \<and> p * 2 ^ (32 * k) < (x + 1) ^ k \<and> p < 256 ^ k)"

lemma const_okD: "const_ok k p K \<Longrightarrow> 0 < k \<Longrightarrow> fraction_bits k p = low32 K"
proof -
  assume c: "const_ok k p K" "0 < k"
  then have "fraction_bits k p = of_nat (root_floor k p * 2 ^ 32 + unat K)"
    by (intro fraction_bits_eqI) (simp_all add: const_ok_def Let_def)
  also have "(of_nat (root_floor k p * 2 ^ 32) :: 32 word) = 0" by (rule word_of_nat_eq_0_iff [THEN iffD2]) simp
  then have "(of_nat (root_floor k p * 2 ^ 32 + unat K) :: 32 word) = of_nat (unat K)" by (simp only: of_nat_add add_0)
  also have "\<dots> = low32 K" by (simp add: low32_def)
  finally show ?thesis .
qed

lemma rounds_ok: "list_all2 (\<lambda>p (t, K). const_ok 3 p K) fips_primes sha_rounds"
  by (simp add: fips_primes_def sha_rounds_def const_ok_def root_floor_def)

lemma starts_ok: "map low32 (state_of (sha256_starts ctx)) = fips_H"
proof -
  have "list_all2 (const_ok 2) (take 8 fips_primes) (state_of (sha256_starts ctx))"
    by (simp add: fips_primes_def sha256_starts_def const_ok_def root_floor_def)
  then have "map (fraction_bits 2) (take 8 fips_primes) = map low32 (state_of (sha256_starts ctx))"
    by (induction rule: list_all2_induct) (simp_all add: const_okD)
  then show ?thesis by (simp add: fips_H_def)
qed

lemma length_rounds: "length fips_primes = 64" "length sha_rounds = 64" "map fst sha_rounds = [0..<64]"
  by (simp_all add: fips_primes_def sha_rounds_def upt_rec)

lemma rounds_eq: "map (\<lambda>(t, K). (t, low32 K)) sha_rounds = map (\<lambda>t. (t, fips_K t)) [0..<64]"
proof (rule nth_equalityI)
  fix t assume "t < length (map (\<lambda>(t, K). (t, low32 K)) sha_rounds)"
  then have t: "t < 64" by (simp add: length_rounds)
  have "fst (sha_rounds ! t) = map fst sha_rounds ! t" using t by (simp only: nth_map length_rounds(2))
  then have "fst (sha_rounds ! t) = t" using t by (simp only: length_rounds(3)) simp
  moreover have "const_ok 3 (fips_primes ! t) (snd (sha_rounds ! t))"
    using list_all2_nthD [OF rounds_ok, of t] t by (simp add: length_rounds split: prod.splits)
  ultimately show "map (\<lambda>(t, K). (t, low32 K)) sha_rounds ! t = map (\<lambda>t. (t, fips_K t)) [0..<64] ! t"
    using t by (cases "sha_rounds ! t") (simp add: length_rounds fips_K_def const_okD)
qed (simp add: length_rounds)

section \<open>A block\<close>

lemma low32_macros [simp]:
  "low32 (S0 x) = fips_sigma0 (low32 x)" "low32 (S1 x) = fips_sigma1 (low32 x)"
  "low32 (S2 x) = fips_Sigma0 (low32 x)" "low32 (S3 x) = fips_Sigma1 (low32 x)"
  "low32 (F0 x y z) = fips_Maj (low32 x) (low32 y) (low32 z)" "low32 (F1 x y z) = fips_Ch (low32 x) (low32 y) (low32 z)"
proof -
  show "low32 (S0 x) = fips_sigma0 (low32 x)" "low32 (S1 x) = fips_sigma1 (low32 x)"
    "low32 (S2 x) = fips_Sigma0 (low32 x)" "low32 (S3 x) = fips_Sigma1 (low32 x)"
    by (simp_all add: S0_def S1_def S2_def S3_def fips_sigma0_def fips_sigma1_def fips_Sigma0_def fips_Sigma1_def)
  show "low32 (F0 x y z) = fips_Maj (low32 x) (low32 y) (low32 z)"
    unfolding F0_def fips_Maj_def by (simp, rule bit_word_eqI) (auto simp: bit_simps)
  show "low32 (F1 x y z) = fips_Ch (low32 x) (low32 y) (low32 z)"
    unfolding F1_def fips_Ch_def by (simp, rule bit_word_eqI) (auto simp: bit_simps)
qed

text \<open>The eight variables as the parameters of line \<open>t\<close> name them.\<close>

definition sha_view :: "nat \<Rightarrow> 64 word list \<Rightarrow> 32 word list" where
  "sha_view t v = map (\<lambda>i. low32 (v ! sha_reg t i)) [0..<8]"

lemma sha_view_P:
  assumes "length v = 8"
  shows "sha_view (Suc t) (sha_P t v x K) = fips_round (sha_view t v) (low32 K) (low32 x)" "length (sha_P t v x K) = 8"
proof -
  obtain a b c d e f g h where v: "v = [a, b, c, d, e, f, g, h]"
    using assms by (auto simp: numeral_eq_Suc length_Suc_conv)
  have "t mod 8 \<in> {0, 1, 2, 3, 4, 5, 6, 7}" by auto
  moreover have "Suc t mod 8 = (if t mod 8 = 7 then 0 else Suc (t mod 8))" by (simp add: mod_Suc)
  ultimately show "sha_view (Suc t) (sha_P t v x K) = fips_round (sha_view t v) (low32 K) (low32 x)"
    unfolding v sha_view_def sha_P_def sha_reg_def fips_round_def Let_def
    by (elim insertE emptyE) (simp_all add: upt_rec)
  show "length (sha_P t v x K) = 8" by (simp add: sha_P_def Let_def assms)
qed

text \<open>The words computed so far are those of the schedule.\<close>

definition sha_sched :: "32 word list \<Rightarrow> nat \<Rightarrow> 64 word list \<Rightarrow> bool" where
  "sha_sched M t W \<longleftrightarrow> length W = max 16 t \<and> (\<forall>i < length W. low32 (W ! i) = fips_W M i)"

lemma sha_sched_step:
  assumes "sha_sched M t W"
  shows "sha_sched M (Suc t) (if t < 16 then W else W @ [sha_R W t])"
    "low32 ((if t < 16 then W else W @ [sha_R W t]) ! t) = fips_W M t"
proof -
  have len: "length W = max 16 t" and W: "\<And>i. i < length W \<Longrightarrow> low32 (W ! i) = fips_W M i"
    using assms by (auto simp: sha_sched_def)
  have R: "low32 (sha_R W t) = fips_W M t" if "\<not> t < 16"
    using that len W by (simp add: sha_R_def fips_W.simps [of M t])
  show "sha_sched M (Suc t) (if t < 16 then W else W @ [sha_R W t])"
    using len W R by (auto simp: sha_sched_def nth_append less_Suc_eq)
  show "low32 ((if t < 16 then W else W @ [sha_R W t]) ! t) = fips_W M t"
    using len W R by (auto simp: nth_append)
qed

lemma sha_lines:
  assumes "map (\<lambda>(t, K). (t, low32 K)) rs = map (\<lambda>t. (t, fips_K t)) [a..<b]" "a \<le> b"
    and "sha_sched M a W" "length v = 8"
  shows "sha_view b (snd (foldl sha_line (W, v) rs)) =
      foldl (\<lambda>s t. fips_round s (fips_K t) (fips_W M t)) (sha_view a v) [a..<b] \<and>
    length (snd (foldl sha_line (W, v) rs)) = 8"
  using assms
proof (induction rs arbitrary: a W v)
  case Nil
  then have "a = b" by auto
  then show ?case using Nil.prems(4) by simp
next
  case (Cons r rs)
  have ab: "a < b" using Cons.prems(1,2) by (cases "a < b") auto
  then obtain K where r: "r = (a, K)" "low32 K = fips_K a"
      and rs: "map (\<lambda>(t, K). (t, low32 K)) rs = map (\<lambda>t. (t, fips_K t)) [Suc a..<b]"
    using Cons.prems(1) by (cases r) (auto simp: upt_conv_Cons)
  let ?W = "if a < 16 then W else W @ [sha_R W a]"
  let ?v = "sha_P a v (?W ! a) K"
  note st = sha_sched_step [OF Cons.prems(3)]
  have "sha_view (Suc a) ?v = fips_round (sha_view a v) (fips_K a) (fips_W M a)"
    using sha_view_P(1) [OF Cons.prems(4)] st(2) r(2) by simp
  moreover have "foldl sha_line (W, v) (r # rs) = foldl sha_line (?W, ?v) rs"
    by (simp add: sha_line_def Let_def r(1))
  ultimately show ?case
    using Cons.IH [OF rs _ st(1) sha_view_P(2) [OF Cons.prems(4)]] ab by (simp add: upt_conv_Cons)
qed

lemma map_upt_8: "length v = 8 \<Longrightarrow> map (\<lambda>i. f (v ! i)) [0..<8] = map f v"
  by (rule nth_equalityI) auto

lemma sha_view_ends: "length v = 8 \<Longrightarrow> sha_view 0 v = map low32 v" "length v = 8 \<Longrightarrow> sha_view 64 v = map low32 v"
proof -
  have "map (\<lambda>i. low32 (v ! ((i + 8) mod 8))) [0..<8] = map (\<lambda>i. low32 (v ! i)) [0..<8]"
    by (rule map_cong) auto
  then show "length v = 8 \<Longrightarrow> sha_view 0 v = map low32 v" "length v = 8 \<Longrightarrow> sha_view 64 v = map low32 v"
    by (simp_all only: sha_view_def sha_reg_def map_upt_8) (simp_all add: map_upt_8)
qed

lemma GET_UINT32_word:
  assumes "length d = 64" "i < 16"
  shows "low32 (GET_UINT32 d (4 * i)) = fips_words d ! i"
proof -
  have "low32 (ucast (b :: byte)) = ucast b" for b
    unfolding low32_def by (rule bit_word_eqI) (auto simp: bit_simps)
  then show ?thesis using assms by (simp add: GET_UINT32_def fips_words_def be_word_def add.commute)
qed

lemma sha256_process_ok:
  assumes "length d = 64" "length (state_of ctx) = 8"
  shows "map low32 (state_of (sha256_process ctx d)) = fips_compress (map low32 (state_of ctx)) d"
    "length (state_of (sha256_process ctx d)) = 8"
    "sha256_process ctx d = ctx\<lparr>state_of := state_of (sha256_process ctx d)\<rparr>"
proof -
  let ?W = "map (\<lambda>i. GET_UINT32 d (4 * i)) [0..<16]" and ?M = "fips_words d"
  let ?v = "snd (foldl sha_line (?W, state_of ctx) sha_rounds)"
  have "sha_sched ?M 0 ?W"
    using assms(1) by (auto simp: sha_sched_def GET_UINT32_word fips_W.simps)
  from sha_lines [OF rounds_eq _ this assms(2)]
  have v: "length ?v = 8" "map low32 ?v =
      foldl (\<lambda>s t. fips_round s (fips_K t) (fips_W ?M t)) (map low32 (state_of ctx)) [0..<64]"
    using assms(2) sha_view_ends by auto
  have "map low32 (map2 (+) xs ys) = map2 (+) (map low32 xs) (map low32 ys)" if "length xs = length ys" for xs ys
    using that by (induction xs ys rule: list_induct2) auto
  then show "map low32 (state_of (sha256_process ctx d)) = fips_compress (map low32 (state_of ctx)) d"
    using v assms(2) by (simp add: sha256_process_def fips_compress_def)
  show "length (state_of (sha256_process ctx d)) = 8" using v assms(2) by (simp add: sha256_process_def)
  show "sha256_process ctx d = ctx\<lparr>state_of := state_of (sha256_process ctx d)\<rparr>"
    by (simp add: sha256_process_def Let_def)
qed

section \<open>Updates\<close>

lemma absorb_short: "length m < 64 \<Longrightarrow> fips_absorb s m = (s, m)"
  by (simp add: fips_absorb.simps)

lemma absorb_block: "length b = 64 \<Longrightarrow> fips_absorb s (b @ m) = fips_absorb (fips_compress s b) m"
  by (simp add: fips_absorb.simps [of s "b @ m"])

lemma absorb_append:
  "fips_absorb s (m @ xs) = fips_absorb (fst (fips_absorb s m)) (snd (fips_absorb s m) @ xs)"
proof (induction s m rule: fips_absorb.induct)
  case (1 s m)
  show ?case
  proof (cases "length m < 64")
    case True
    then show ?thesis by (simp add: absorb_short)
  next
    case False
    then have "fips_absorb s (m @ xs) = fips_absorb (fips_compress s (take 64 m)) (drop 64 m @ xs)"
      using absorb_block [of "take 64 m" s "drop 64 m @ xs"] by (simp add: append_assoc [symmetric] del: append_assoc)
    moreover have "fips_absorb s m = fips_absorb (fips_compress s (take 64 m)) (drop 64 m)"
      using False by (simp add: fips_absorb.simps [of s m])
    ultimately show ?thesis using 1 [OF False] by simp
  qed
qed

lemma absorb_rest: "length (snd (fips_absorb s m)) = length m mod 64"
proof (induction s m rule: fips_absorb.induct)
  case (1 s m)
  then show ?case
    by (cases "length m < 64") (auto simp: fips_absorb.simps [of s m] le_mod_geq)
qed

lemma sha256_loop_ok:
  assumes "0 \<le> off" "nat off + unat len \<le> length input" "length (state_of ctx) = 8"
  shows "\<exists>st. length st = 8 \<and> sha256_loop ctx input off len =
      Inr (ctx\<lparr>state_of := st\<rparr>, off + int (64 * (unat len div 64)), of_nat (unat len mod 64)) \<and>
    fips_absorb (map low32 (state_of ctx)) (take (unat len) (drop (nat off) input)) =
      (map low32 st, take (unat len mod 64) (drop (nat off + 64 * (unat len div 64)) input))"
  using assms
proof (induction ctx input off len rule: sha256_loop.induct)
  case (1 ctx input off len)
  show ?case
  proof (cases "64 \<le> len")
    case False
    then have "unat len < 64" by (simp add: word_le_nat_alt)
    then show ?thesis
      using False "1.prems"(3) by (intro exI [of _ "state_of ctx"]) (simp add: sha256_loop.simps [of ctx] absorb_short)
  next
    case True
    then have l: "64 \<le> unat len" "unat (len - 64) = unat len - 64" by (simp_all add: word_le_nat_alt unat_sub)
    let ?d = "take 64 (drop (nat off) input)"
    have d: "mem_read input off 64 = Inr ?d" "length ?d = 64"
      using "1.prems" l by (simp_all add: mem_read_ok)
    note p = sha256_process_ok [OF d(2) "1.prems"(3)]
    have "nat (off + 64) + unat (len - 64) \<le> length input" using "1.prems"(1,2) l by linarith
    then obtain st where st: "length st = 8" "sha256_loop (sha256_process ctx ?d) input (off + 64) (len - 64) =
        Inr ((sha256_process ctx ?d)\<lparr>state_of := st\<rparr>, off + 64 + int (64 * ((unat len - 64) div 64)),
          of_nat ((unat len - 64) mod 64))"
        "fips_absorb (fips_compress (map low32 (state_of ctx)) ?d) (take (unat len - 64) (drop (nat (off + 64)) input)) =
          (map low32 st, take ((unat len - 64) mod 64) (drop (nat (off + 64) + 64 * ((unat len - 64) div 64)) input))"
      using "1.IH" [OF True d(1) _ _ p(2)] "1.prems"(1) p(1) l(2) by auto
    have q: "(unat len - 64) mod 64 = unat len mod 64" "Suc ((unat len - 64) div 64) = unat len div 64"
      using l(1) by (simp_all add: le_mod_geq le_div_geq)
    have "take (unat len) (drop (nat off) input) = ?d @ take (unat len - 64) (drop (nat (off + 64)) input)"
    proof -
      have "take (unat len) (drop (nat off) input) = take (64 + (unat len - 64)) (drop (nat off) input)" using l(1) by simp
      also have "\<dots> = ?d @ take (unat len - 64) (drop 64 (drop (nat off) input))" by (rule take_add)
      finally show ?thesis using "1.prems"(1) by (simp add: nat_add_distrib add.commute)
    qed
    moreover have "(sha256_process ctx ?d)\<lparr>state_of := st\<rparr> = ctx\<lparr>state_of := st\<rparr>"
      by (subst p(3)) simp
    moreover have "nat (off + 64) + 64 * ((unat len - 64) div 64) = nat off + 64 * (unat len div 64)"
      "off + 64 + int (64 * ((unat len - 64) div 64)) = off + int (64 * (unat len div 64))"
      using "1.prems"(1) q(2) by linarith+
    ultimately show ?thesis
      using st True d absorb_block [OF d(2)] q(1)
      by (intro exI [of _ st]) (simp add: sha256_loop.simps [of ctx])
  qed
qed

text \<open>The whole blocks and the bytes behind them, once the buffer is empty or will not be filled.\<close>

lemma sha_tail:
  assumes "0 \<le> off" "nat off + unat len \<le> length input" "length (state_of ctx) = 8" "length (buffer_of ctx) = 64"
    and "left = 0 \<or> unat left + unat len < 64"
  obtains st buf where "length st = 8" "length buf = 64"
    "sha256_rest ctx input off len left = Inr (ctx\<lparr>state_of := st, buffer_of := buf\<rparr>)"
    "fips_absorb (map low32 (state_of ctx)) (take (unat left) (buffer_of ctx) @ take (unat len) (drop (nat off) input)) =
      (map low32 st, take ((unat left + unat len) mod 64) buf)"
proof -
  obtain st where st: "length st = 8" "sha256_loop ctx input off len =
      Inr (ctx\<lparr>state_of := st\<rparr>, off + int (64 * (unat len div 64)), of_nat (unat len mod 64))"
    "fips_absorb (map low32 (state_of ctx)) (take (unat len) (drop (nat off) input)) =
      (map low32 st, take (unat len mod 64) (drop (nat off + 64 * (unat len div 64)) input))"
    using sha256_loop_ok [OF assms(1-3)] by blast
  let ?r = "unat len mod 64" and ?off = "nat off + 64 * (unat len div 64)"
  have r: "unat (of_nat ?r :: 64 word) = ?r" by (simp add: unat_of_nat)
  have off: "off + int (64 * (unat len div 64)) = int ?off" using assms(1) by simp
  have fits: "?off + ?r \<le> length input" using assms(2) by simp
  have lr: "unat left + ?r \<le> 64"
    using assms(5) by (auto intro: order_trans [OF _ less_imp_le])
  let ?bs = "take ?r (drop ?off input)"
  let ?buf = "mem_put (buffer_of ctx) (unat left) ?bs"
  have "?r \<le> length (drop ?off input)" using fits by (simp only: length_drop)
  then have bs: "length ?bs = ?r" by (simp only: length_take min_absorb2)
  have u: "uint (of_nat ?r :: 64 word) = int ?r" "uint left = int (unat left)" "(of_nat ?r :: 64 word) = 0 \<longleftrightarrow> ?r = 0"
    by (simp_all only: uint_nat r unat_eq_zero [symmetric])
  have cp: "memcpy (buffer_of ctx) (uint left) input (int ?off) (int ?r) = Inr ?buf"
    unfolding u(2) by (rule memcpy_nat [OF fits]) (use lr assms(4) in simp)
  have "sha256_rest ctx input off len left = Inr (ctx\<lparr>state_of := st, buffer_of := ?buf\<rparr>)"
  proof (cases "?r = 0")
    case True
    then show ?thesis using st(2) by (simp add: sha256_rest_def u(3))
  next
    case False
    then show ?thesis using st(2) cp assms(1) by (simp add: sha256_rest_def u(1,3))
  qed
  moreover have "fips_absorb (map low32 (state_of ctx))
      (take (unat left) (buffer_of ctx) @ take (unat len) (drop (nat off) input)) =
      (map low32 st, take ((unat left + unat len) mod 64) ?buf)"
  proof (cases "left = 0")
    case True
    then show ?thesis using st(3) take_mem_put_0 [of ?bs "buffer_of ctx"] bs assms(4) by simp
  next
    case False
    then have s: "unat left + unat len < 64" "?r = unat len" "?off = nat off" using assms(5) by auto
    then have "map low32 st = map low32 (state_of ctx)" using st(3) by (simp add: absorb_short)
    moreover have "take ((unat left + unat len) mod 64) ?buf = take (unat left) (buffer_of ctx) @ ?bs"
      using s bs assms(4) by (simp add: mem_put_def)
    ultimately show ?thesis using s bs assms(2,4) by (simp add: absorb_short)
  qed
  moreover have "length ?buf = 64" using lr bs assms(4) by simp
  ultimately show thesis using that st(1) by blast
qed

text \<open>What a context knows of the message so far.\<close>

definition sha_ctx :: "sha256_context \<Rightarrow> byte list \<Rightarrow> bool" where
  "sha_ctx ctx m \<longleftrightarrow> length (state_of ctx) = 8 \<and> length (buffer_of ctx) = 64 \<and>
     unat (total_0 ctx) = length m mod 2 ^ 32 \<and> low32 (total_1 ctx) = of_nat (length m div 2 ^ 32) \<and>
     fips_absorb fips_H m = (map low32 (state_of ctx), take (length m mod 64) (buffer_of ctx))"

lemma and_masks: "w AND 0xFFFFFFFF = take_bit 32 w" "w AND 0x3F = take_bit 6 w" for w :: "64 word"
  by (simp_all add: take_bit_eq_mask mask_eq_exp_minus_1)

lemma carry:
  fixes a l M :: nat
  assumes "a < M" "l < M"
  shows "(a + l) mod M < l \<and> (a + l) div M = 1 \<or> \<not> (a + l) mod M < l \<and> (a + l) div M = 0"
proof (cases "a + l < M")
  case False
  then have "(a + l) mod M = a + l - M" "(a + l) div M = Suc ((a + l - M) div M)" "(a + l - M) div M = 0"
    using assms by (auto simp: le_mod_geq le_div_geq)
  then show ?thesis using False assms by linarith
qed simp

lemma total_add:
  fixes t len :: "64 word"
  assumes "unat t = n mod 2 ^ 32" "unat len < 2 ^ 32"
  shows "unat ((t + len) AND 0xFFFFFFFF) = (n + unat len) mod 2 ^ 32"
    "(t + len) AND 0xFFFFFFFF < len \<longleftrightarrow> (n + unat len) div 2 ^ 32 = Suc (n div 2 ^ 32)"
    "\<not> (t + len) AND 0xFFFFFFFF < len \<Longrightarrow> (n + unat len) div 2 ^ 32 = n div 2 ^ 32"
proof -
  have "unat (t + len) = unat t + unat len" using assms by (intro unat_add_lem [THEN iffD1]) simp
  then show u: "unat ((t + len) AND 0xFFFFFFFF) = (n + unat len) mod 2 ^ 32"
    using assms(1) by (simp only: and_masks unsigned_take_bit_eq take_bit_nat_def mod_add_left_eq)
  let ?a = "n mod 2 ^ 32"
  have d: "(n + unat len) div 2 ^ 32 = n div 2 ^ 32 + (?a + unat len) div 2 ^ 32"
    using div_add1_eq [of n "unat len" "2 ^ 32"] assms(2) by (simp only: div_less mod_less add_0_right)
  have m: "(n + unat len) mod 2 ^ 32 = (?a + unat len) mod 2 ^ 32" by (simp add: mod_add_left_eq)
  have lt: "(t + len) AND 0xFFFFFFFF < len \<longleftrightarrow> (?a + unat len) mod 2 ^ 32 < unat len"
    unfolding word_less_nat_alt u m ..
  have "(?a + unat len) mod 2 ^ 32 < unat len \<and> (?a + unat len) div 2 ^ 32 = 1 \<or>
    \<not> (?a + unat len) mod 2 ^ 32 < unat len \<and> (?a + unat len) div 2 ^ 32 = 0"
    by (rule carry) (use assms(2) in simp_all)
  then show "(t + len) AND 0xFFFFFFFF < len \<longleftrightarrow> (n + unat len) div 2 ^ 32 = Suc (n div 2 ^ 32)"
    "\<not> (t + len) AND 0xFFFFFFFF < len \<Longrightarrow> (n + unat len) div 2 ^ 32 = n div 2 ^ 32"
    unfolding lt d by linarith+
qed

text \<open>Completing the block that was begun.\<close>

lemma sha_fill:
  assumes s: "length (state_of ctx) = 8" "length (buffer_of ctx) = 64" and n: "unat left < 64"
    and len: "unat len \<le> length input"
  obtains ctx2 off len2 left2 where "sha256_fill ctx input len left = Inr (ctx2, off, len2, left2)"
    "0 \<le> off" "nat off + unat len2 \<le> length input" "length (state_of ctx2) = 8" "length (buffer_of ctx2) = 64"
    "left2 = 0 \<or> unat left2 + unat len2 < 64" "total_0 ctx2 = total_0 ctx" "total_1 ctx2 = total_1 ctx"
    "fips_absorb (map low32 (state_of ctx2)) (take (unat left2) (buffer_of ctx2) @ take (unat len2) (drop (nat off) input)) =
      fips_absorb (map low32 (state_of ctx)) (take (unat left) (buffer_of ctx) @ take (unat len) input)"
    "(unat left2 + unat len2) mod 64 = (unat left + unat len) mod 64"
proof -
  let ?n = "unat left"
  have fill: "unat (64 - left) = 64 - ?n" using n by (simp add: unat_sub word_le_nat_alt)
  show thesis
  proof (cases "left \<noteq> 0 \<and> 64 - left \<le> len")
    case True
    let ?f = "64 - ?n" and ?buf = "mem_put (buffer_of ctx) ?n (take (64 - ?n) input)"
    let ?ctx2 = "sha256_process (ctx\<lparr>buffer_of := ?buf\<rparr>) ?buf"
    have f: "?f \<le> unat len" "?f \<le> length input" "unat (len - (64 - left)) = unat len - ?f"
      using True fill len by (auto simp: word_le_nat_alt unat_sub)
    have "memcpy (buffer_of ctx) (int ?n) input 0 (int ?f) = Inr ?buf"
      using memcpy_nat_from0 [OF f(2), of ?n "buffer_of ctx"] s(2) n by simp
    then have fl: "sha256_fill ctx input len left = Inr (?ctx2, int ?f, len - (64 - left), 0)"
      using True by (simp only: sha256_fill_def uint_nat fill bindR_simps if_True simp_thms)
    have b: "?buf = take ?n (buffer_of ctx) @ take ?f input" "length ?buf = 64"
      using f(2) s(2) n by (simp_all add: mem_put_def)
    note p = sha256_process_ok [OF b(2), of "ctx\<lparr>buffer_of := ?buf\<rparr>"]
    have "take (unat len) input = take ?f input @ take (unat len - ?f) (drop ?f input)"
      using take_add [of ?f "unat len - ?f" input] f(1) by simp
    then have "take ?n (buffer_of ctx) @ take (unat len) input = ?buf @ take (unat len - ?f) (drop ?f input)"
      unfolding b(1) by simp
    then have ab: "fips_absorb (map low32 (state_of ctx)) (take ?n (buffer_of ctx) @ take (unat len) input) =
        fips_absorb (map low32 (state_of ?ctx2)) (take (unat len - ?f) (drop ?f input))"
      using absorb_block [OF b(2)] p(1) s(1) by simp
    have "?n + unat len = (unat len - ?f) + 1 * 64" using f(1) n by simp
    then have md: "(unat len - ?f) mod 64 = (?n + unat len) mod 64" by (simp only: mod_mult_self1)
    have "\<exists>st. ?ctx2 = ctx\<lparr>buffer_of := ?buf, state_of := st\<rparr>" using p(3) s(1) by auto
    then have keep: "total_0 ?ctx2 = total_0 ctx" "total_1 ?ctx2 = total_1 ctx" "length (buffer_of ?ctx2) = 64"
      using b(2) by auto
    have l: "length (state_of ?ctx2) = 8" using p(2) s(1) by simp
    show thesis by (rule that [OF fl _ _ l keep(3) _ keep(1,2)])
        (use f(1) len in \<open>simp_all only: nat_int f(3) unat_0 take_0 append_Nil add_0 ab md of_nat_0_le_iff
          simp_thms le_add_diff_inverse\<close>)
  next
    case False
    then have "left = 0 \<or> ?n + unat len < 64" using fill n by (auto simp: word_le_nat_alt)
    moreover have "sha256_fill ctx input len left = Inr (ctx, 0, len, left)" using False by (simp only: sha256_fill_def if_False)
    ultimately show thesis using that s len by auto
  qed
qed

lemma sha256_update_ok:
  assumes c: "sha_ctx ctx m" and len: "unat len < 2 ^ 32" "unat len \<le> length input"
  shows "\<exists>ctx'. sha256_update ctx input len = Inr ctx' \<and> sha_ctx ctx' (m @ take (unat len) input)"
proof (cases "len = 0")
  case True
  then show ?thesis using c by (simp add: sha256_update_def)
next
  case False
  let ?xs = "take (unat len) input" and ?left = "total_0 ctx AND 0x3F" and ?n = "length m mod 64"
  let ?t = "(total_0 ctx + len) AND 0xFFFFFFFF"
  let ?ctx1 = "ctx\<lparr>total_0 := ?t, total_1 := (if ?t < len then total_1 ctx + 1 else total_1 ctx)\<rparr>"
  have s: "length (state_of ?ctx1) = 8" "length (buffer_of ?ctx1) = 64" and t0: "unat (total_0 ctx) = length m mod 2 ^ 32"
    and t1: "low32 (total_1 ctx) = of_nat (length m div 2 ^ 32)"
    and A: "fips_absorb fips_H m = (map low32 (state_of ctx), take ?n (buffer_of ctx))"
    using c by (simp_all add: sha_ctx_def)
  note T = total_add [OF t0 len(1)]
  have lxs: "length (m @ ?xs) = length m + unat len" using len(2) by simp
  have tot: "unat (total_0 ?ctx1) = length (m @ ?xs) mod 2 ^ 32"
      "low32 (total_1 ?ctx1) = of_nat (length (m @ ?xs) div 2 ^ 32)"
    unfolding lxs using T(1) T(2) T(3) t1 by (auto simp: low32_one)
  have left: "unat ?left = ?n"
    using t0 by (simp add: and_masks unsigned_take_bit_eq take_bit_nat_def mod_mod_cancel)
  then have n: "unat ?left < 64" by simp
  have abs: "fips_absorb fips_H (m @ ?xs) =
      fips_absorb (map low32 (state_of ?ctx1)) (take (unat ?left) (buffer_of ?ctx1) @ ?xs)"
    by (subst absorb_append) (simp add: A left)
  obtain ctx2 off len2 left2 where ph: "sha256_fill ?ctx1 input len ?left = Inr (ctx2, off, len2, left2)"
    and two: "0 \<le> off" "nat off + unat len2 \<le> length input" "length (state_of ctx2) = 8" "length (buffer_of ctx2) = 64"
      "left2 = 0 \<or> unat left2 + unat len2 < 64" "total_0 ctx2 = total_0 ?ctx1" "total_1 ctx2 = total_1 ?ctx1"
      "fips_absorb (map low32 (state_of ctx2)) (take (unat left2) (buffer_of ctx2) @ take (unat len2) (drop (nat off) input)) =
        fips_absorb (map low32 (state_of ?ctx1)) (take (unat ?left) (buffer_of ?ctx1) @ ?xs)"
      "(unat left2 + unat len2) mod 64 = (unat ?left + unat len) mod 64"
    by (rule sha_fill [OF s n len(2)])
  obtain st buf where st: "length st = 8" "length buf = 64"
    "sha256_rest ctx2 input off len2 left2 = Inr (ctx2\<lparr>state_of := st, buffer_of := buf\<rparr>)"
    "fips_absorb (map low32 (state_of ctx2)) (take (unat left2) (buffer_of ctx2) @ take (unat len2) (drop (nat off) input)) =
      (map low32 st, take ((unat left2 + unat len2) mod 64) buf)"
    by (rule sha_tail [OF two(1-5)])
  have "length (m @ ?xs) mod 64 = (unat left2 + unat len2) mod 64"
    unfolding lxs two(9) left by (simp only: mod_add_left_eq)
  then have "sha_ctx (ctx2\<lparr>state_of := st, buffer_of := buf\<rparr>) (m @ ?xs)"
    using st(1,2) st(4) abs two(8) tot unfolding sha_ctx_def by (simp add: two(6,7))
  moreover have "sha256_update ctx input len = Inr (ctx2\<lparr>state_of := st, buffer_of := buf\<rparr>)"
    using False ph st(3) by (simp only: sha256_update_def Let_def bindR_simps prod.case if_False)
  ultimately show ?thesis by blast
qed

section \<open>The digest\<close>

lemma PUT_UINT32_bytes: "PUT_UINT32 n = be_bytes (low32 n)"
proof -
  have "ucast (drop_bit k n) = (ucast (drop_bit k (low32 n)) :: byte)" if "k \<le> 24" for k
    unfolding low32_def by (rule bit_word_eqI) (use that in \<open>auto simp: bit_simps\<close>)
  from this [of 24] this [of 16] this [of 8] this [of 0] show ?thesis
    by (simp add: PUT_UINT32_def be_bytes_def upt_rec)
qed

lemma be_bytes_64: "be_bytes X = be_bytes (low32 (drop_bit 32 X)) @ be_bytes (low32 X)" for X :: "64 word"
proof -
  have "ucast (drop_bit k (low32 X)) = (ucast (drop_bit k X) :: byte)" if "k \<le> 24" for k and X :: "64 word"
    unfolding low32_def by (rule bit_word_eqI) (use that in \<open>auto simp: bit_simps\<close>)
  from this [of 24] this [of 16] this [of 8] this [of 0] show ?thesis
    by (simp add: be_bytes_def upt_rec)
qed

lemma msglen_ok:
  assumes t: "unat t0 = N mod 2 ^ 32" "low32 t1 = of_nat (N div 2 ^ 32)"
  shows "PUT_UINT32 (drop_bit 29 t0 OR push_bit 3 t1) @ PUT_UINT32 (push_bit 3 t0) = be_bytes (of_nat (8 * N) :: 64 word)"
proof -
  have N8: "8 * N = push_bit 3 N" by (simp add: push_bit_eq_mult)
  have "t0 = of_nat (unat t0)" by simp
  also have "\<dots> = of_nat (take_bit 32 N)" unfolding t(1) by (simp only: take_bit_eq_mod)
  finally have t0: "t0 = of_nat (take_bit 32 N)" .
  have t1: "low32 t1 = of_nat (drop_bit 32 N)" using t(2) by (simp only: drop_bit_eq_div)
  have "low32 (push_bit 3 t0) = low32 (of_nat (8 * N))"
    unfolding t0 N8 low32_def by (rule bit_word_eqI) (auto simp: bit_simps)
  moreover have "low32 (drop_bit 29 t0 OR push_bit 3 t1) = low32 (drop_bit 32 (of_nat (8 * N)))"
  proof (rule bit_word_eqI)
    fix k assume k: "k < LENGTH(32)"
    have "bit (low32 (drop_bit 29 t0)) k \<longleftrightarrow> k + 29 < 32 \<and> bit N (k + 29)"
      unfolding t0 low32_def using k by (auto simp: bit_simps ac_simps)
    moreover have "bit (push_bit 3 (low32 t1)) k \<longleftrightarrow> 3 \<le> k \<and> bit N (k + 29)"
      unfolding t1 using k by (auto simp: bit_simps ac_simps)
    moreover have "bit (low32 (drop_bit 32 (of_nat (8 * N)))) k \<longleftrightarrow> bit N (k + 29)"
      unfolding N8 low32_def using k by (auto simp: bit_simps ac_simps)
    ultimately show "bit (low32 (drop_bit 29 t0 OR push_bit 3 t1)) k = bit (low32 (drop_bit 32 (of_nat (8 * N)))) k"
      by (auto simp: bit_or_iff)
  qed
  ultimately show ?thesis by (simp only: PUT_UINT32_bytes be_bytes_64 [of "of_nat (8 * N)"])
qed

lemma length_be_bytes: "length (be_bytes (w :: 'a::len word)) = LENGTH('a) div 8"
  by (simp add: be_bytes_def)

lemma padding_prefix:
  assumes "k \<le> n"
  shows "take (Suc k) (x # replicate n y) = x # replicate k y" "Suc k \<le> length (x # replicate n y)"
  using assms by (simp_all add: min_absorb1)

lemma sha256_finish_ok:
  assumes "sha_ctx ctx m"
  shows "\<exists>ctx'. sha256_finish ctx = Inr (fips_sha256 m, ctx')"
proof -
  let ?n = "length m mod 64" and ?last = "total_0 ctx AND 0x3F"
  let ?padn = "if ?last < 56 then 56 - ?last else 120 - ?last"
  have t: "unat (total_0 ctx) = length m mod 2 ^ 32" "low32 (total_1 ctx) = of_nat (length m div 2 ^ 32)"
    using assms by (simp_all add: sha_ctx_def)
  have l: "unat ?last = ?n"
    using t by (simp add: and_masks unsigned_take_bit_eq take_bit_nat_def mod_mod_cancel)
  have n: "?n < 64" by simp
  have padn: "unat ?padn = Suc ((119 - ?n) mod 64)"
  proof (cases "?n < 56")
    case True
    then have "?last < 56" using l by (simp add: word_less_nat_alt)
    moreover have "119 - ?n = (55 - ?n) + 1 * 64" using True by linarith
    then have "(119 - ?n) mod 64 = 55 - ?n" by (simp only: mod_mult_self1) simp
    moreover have "unat (56 - ?last) = 56 - ?n" using True l by (simp add: unat_sub word_le_nat_alt)
    moreover have "Suc (55 - ?n) = 56 - ?n" using True by linarith
    ultimately show ?thesis by (simp only: if_True)
  next
    case False
    then have "\<not> ?last < 56" using l by (simp add: word_less_nat_alt)
    moreover have "(119 - ?n) mod 64 = 119 - ?n" using False by simp
    moreover have "unat (120 - ?last) = 120 - ?n" using n l by (simp add: unat_sub word_le_nat_alt)
    moreover have "Suc (119 - ?n) = 120 - ?n" using n by linarith
    ultimately show ?thesis by (simp only: if_False)
  qed
  have k: "(119 - ?n) mod 64 \<le> 63" using mod_less_divisor [of 64 "119 - ?n"] by linarith
  then have pad: "take (unat ?padn) sha256_padding = 0x80 # replicate ((119 - ?n) mod 64) 0"
      "unat ?padn \<le> length sha256_padding"
    unfolding padn sha256_padding_def by (rule padding_prefix)+
  have "unat ?padn < 2 ^ 32" unfolding padn by (rule le_less_trans [OF Suc_le_mono [THEN iffD2, OF k]]) simp
  then obtain ctx1 where c1: "sha256_update ctx sha256_padding ?padn = Inr ctx1"
      "sha_ctx ctx1 (m @ 0x80 # replicate ((119 - ?n) mod 64) 0)"
    using sha256_update_ok [OF assms _ pad(2)] pad(1) by auto
  let ?msglen = "be_bytes (of_nat (8 * length m) :: 64 word)"
  have "unat (8 :: 64 word) = 8" "length ?msglen = 8" by (simp_all add: length_be_bytes)
  then obtain ctx2 where c2: "sha256_update ctx1 ?msglen 8 = Inr ctx2"
      "sha_ctx ctx2 ((m @ 0x80 # replicate ((119 - ?n) mod 64) 0) @ ?msglen)"
    using sha256_update_ok [OF c1(2), of 8 ?msglen] by auto
  have "(m @ 0x80 # replicate ((119 - ?n) mod 64) 0) @ ?msglen = fips_pad m" by (simp add: fips_pad_def)
  with c2(2) have "map low32 (state_of ctx2) = fst (fips_absorb fips_H (fips_pad m))" by (simp add: sha_ctx_def)
  moreover have "map PUT_UINT32 (state_of ctx2) = map be_bytes (map low32 (state_of ctx2))"
    by (simp add: PUT_UINT32_bytes)
  ultimately have "concat (map PUT_UINT32 (state_of ctx2)) = fips_sha256 m" by (simp only: fips_sha256_def)
  then show ?thesis
    using c1(1) c2(1) by (simp add: sha256_finish_def msglen_ok [OF t])
qed

section \<open>Reading too far\<close>

lemma sha256_loop_reads:
  assumes "0 \<le> off"
  shows "case sha256_loop ctx input off len of Inl e \<Rightarrow> e = OutOfBounds
    | Inr (c, off', len') \<Rightarrow> off' + uint len' = off + uint len \<and> 0 \<le> off' \<and> (off' = off \<or> off' \<le> int (length input))"
  using assms
proof (induction ctx input off len rule: sha256_loop.induct)
  case (1 ctx input off len)
  show ?case
  proof (cases "64 \<le> len")
    case False
    then show ?thesis using "1.prems" by (simp add: sha256_loop.simps [of ctx])
  next
    case True
    then have u: "uint (len - 64) = uint len - 64" by (simp add: uint_sub_if' word_le_def)
    show ?thesis
    proof (cases "mem_read input off 64")
      case (Inl e)
      then have "e = OutOfBounds" by (simp add: mem_read_fault_iff)
      then show ?thesis using True Inl by (simp add: sha256_loop.simps [of ctx])
    next
      case (Inr d)
      then have "off + 64 \<le> int (length input)" by (simp add: mem_read_def split: if_splits)
      then show ?thesis
        using "1.IH" [OF True Inr] "1.prems" True Inr u
        by (auto simp: sha256_loop.simps [of ctx input off len] split: sum.splits prod.splits)
    qed
  qed
qed

lemma sha256_rest_overreads:
  assumes "0 \<le> off" "int (length input) < off + uint len" "len \<noteq> 0"
  shows "sha256_rest ctx input off len left = Inl OutOfBounds"
proof (cases "sha256_loop ctx input off len")
  case (Inl e)
  then show ?thesis using sha256_loop_reads [OF assms(1), where ctx = ctx and input = input and len = len] by (simp add: sha256_rest_def)
next
  case (Inr r)
  obtain c off' len' where r: "r = (c, off', len')" by (cases r) auto
  have l: "off' + uint len' = off + uint len" "0 \<le> off'" "off' = off \<or> off' \<le> int (length input)"
    using sha256_loop_reads [OF assms(1), where ctx = ctx and input = input and len = len] Inr r by simp_all
  have "len' \<noteq> 0"
  proof
    assume "len' = 0"
    then have "off' = off + uint len" using l(1) by simp
    moreover have "uint len \<noteq> 0" using assms(3) by (simp add: uint_0_iff)
    ultimately show False using l(3) assms(2) by linarith
  qed
  moreover have "memcpy (buffer_of c) (uint left) input off' (uint len') = Inl OutOfBounds"
    using l assms(2) by (simp add: memcpy_fault_iff)
  ultimately show ?thesis using Inr r by (simp add: sha256_rest_def)
qed

section \<open>Properties\<close>

text \<open>Any number of updates.\<close>

fun sha256_updates :: "sha256_context \<Rightarrow> byte list list \<Rightarrow> sha256_context res" where
  "sha256_updates ctx [] = Inr ctx"
| "sha256_updates ctx (xs # xss) = bindR (sha256_update ctx xs (of_nat (length xs))) (\<lambda>ctx'. sha256_updates ctx' xss)"

lemma sha256_starts_ctx: "length (buffer_of ctx) = 64 \<Longrightarrow> sha_ctx (sha256_starts ctx) []"
  using starts_ok [of ctx] by (simp add: sha_ctx_def sha256_starts_def absorb_short low32_def)

lemma sha256_updates_ok:
  "sha_ctx ctx m \<Longrightarrow> (\<And>xs. xs \<in> set xss \<Longrightarrow> length xs < 2 ^ 32) \<Longrightarrow>
    \<exists>ctx'. sha256_updates ctx xss = Inr ctx' \<and> sha_ctx ctx' (m @ concat xss)"
proof (induction xss arbitrary: ctx m)
  case (Cons xs xss)
  have l: "unat (of_nat (length xs) :: 64 word) = length xs" using Cons.prems(2) [of xs] by (simp add: unat_of_nat)
  obtain ctx' where c: "sha256_update ctx xs (of_nat (length xs)) = Inr ctx'" "sha_ctx ctx' (m @ xs)"
    using sha256_update_ok [OF Cons.prems(1), of "of_nat (length xs)" xs] Cons.prems(2) [of xs] l by auto
  show ?case using Cons.IH [OF c(2)] Cons.prems(2) c(1) by auto
qed simp

text \<open>C11: The digest is the SHA-256 of the standard, for every message and every way to cut it into updates
  of less than \<open>2 ^ 32\<close> bytes: the 64-bit arithmetic of the code on \<open>unsigned long\<close> agrees with the 32-bit
  arithmetic of the standard, its table of constants with the roots of the primes, its buffer with the
  blocks of the padded message, and its two counters with the length in bits modulo \<open>2 ^ 64\<close>; no update
  reads or writes outside its blocks.\<close>

theorem sha256_is_standard:
  assumes "length (buffer_of ctx) = 64" "\<forall>xs \<in> set xss. length xs < 2 ^ 32"
  shows "\<exists>ctx1 ctx2. sha256_updates (sha256_starts ctx) xss = Inr ctx1 \<and>
    sha256_finish ctx1 = Inr (fips_sha256 (concat xss), ctx2)"
proof -
  obtain ctx1 where "sha256_updates (sha256_starts ctx) xss = Inr ctx1" "sha_ctx ctx1 (concat xss)"
    using sha256_updates_ok [OF sha256_starts_ctx [OF assms(1)]] assms(2) by fastforce
  then show ?thesis using sha256_finish_ok by blast
qed

theorem sha256_is_standard_witness:
  "\<exists>ctx1 ctx2. sha256_updates (sha256_starts \<lparr>total_0 = 5, total_1 = 6, state_of = [], buffer_of = replicate 64 7\<rparr>)
      [[97], [], [98, 99]] = Inr ctx1 \<and> sha256_finish ctx1 = Inr (fips_sha256 [97, 98, 99], ctx2)"
  using sha256_is_standard
    [of "\<lparr>total_0 = 5, total_1 = 6, state_of = [], buffer_of = replicate 64 7\<rparr>" "[[97], [], [98, 99]]"] by simp

text \<open>\<open>GoSha256\<close> returns the SHA-256 of the first \<open>iLen\<close> bytes of a block that has as many; with a larger length
  or a negative one (which becomes a huge \<open>uint32\<close>) it reads past the end of the block.\<close>

theorem GoSha256_digest:
  assumes "length (buffer_of ctx) = 64" "- (2 ^ 31) \<le> iLen" "iLen < 2 ^ 31" "length source < 2 ^ 31"
  shows "GoSha256 ctx source iLen =
    (if 0 \<le> iLen \<and> iLen \<le> int (length source) then Inr (fips_sha256 (take (nat iLen) source)) else Inl OutOfBounds)"
proof (cases "0 \<le> iLen \<and> iLen \<le> int (length source)")
  case True
  then have l: "unat (word_of_int iLen :: 64 word) = nat iLen" using assms(3) by (simp add: unsigned_of_int take_bit_int_eq_self)
  obtain ctx1 where c: "sha256_update (sha256_starts ctx) source (word_of_int iLen) = Inr ctx1"
      "sha_ctx ctx1 (take (nat iLen) source)"
    using sha256_update_ok [OF sha256_starts_ctx [OF assms(1)], of "word_of_int iLen" source] True assms(3) l
    by (auto simp: nat_less_iff nat_le_iff)
  then obtain ctx2 where "sha256_finish ctx1 = Inr (fips_sha256 (take (nat iLen) source), ctx2)"
    using sha256_finish_ok by blast
  then show ?thesis using c(1) True by (simp add: GoSha256_def)
next
  case False
  let ?len = "word_of_int iLen :: 64 word"
  have u: "uint ?len = iLen mod 2 ^ 64" by (simp add: uint_word_of_int)
  have big: "int (length source) < uint ?len"
  proof (cases "iLen < 0")
    case True
    then have "iLen mod 2 ^ 64 = iLen + 2 ^ 64" using mod_pos_pos_trivial [of "iLen + 2 ^ 64" "2 ^ 64"] assms(2) by simp
    then show ?thesis using assms(2,4) u by simp
  next
    case neg: False
    then have "iLen mod 2 ^ 64 = iLen" using assms(3) by simp
    then show ?thesis using False neg u by simp
  qed
  then have ne: "?len \<noteq> 0" by auto
  have "sha256_update (sha256_starts ctx) source ?len = Inl OutOfBounds"
    using ne big sha256_rest_overreads [of 0 source ?len]
    by (simp add: sha256_update_def sha256_fill_def sha256_starts_def)
  then show ?thesis using False by (simp add: GoSha256_def)
qed

theorem GoSha256_digest_witness:
  "GoSha256 \<lparr>total_0 = 5, total_1 = 6, state_of = [], buffer_of = replicate 64 7\<rparr> [97, 98, 99] 2 =
     Inr (fips_sha256 [97, 98]) \<and>
   GoSha256 \<lparr>total_0 = 5, total_1 = 6, state_of = [], buffer_of = replicate 64 7\<rparr> [97, 98, 99] (-1) = Inl OutOfBounds"
  using GoSha256_digest
    [of "\<lparr>total_0 = 5, total_1 = 6, state_of = [], buffer_of = replicate 64 7\<rparr>" 2 "[97, 98, 99]"]
    GoSha256_digest
    [of "\<lparr>total_0 = 5, total_1 = 6, state_of = [], buffer_of = replicate 64 7\<rparr>" "-1" "[97, 98, 99]"] by simp

end
