(* ===== verification/NPUtilStr.thy ===== *)
theory NPUtilStr
  imports StdMap
begin

text \<open>
  The string utilities: \<open>split\<close> of src/ChatServer.cpp, which cuts the manager list of the settings, and the C
  string functions of \<open>CNPUtil\<close> (src/NPUtil.cpp). A C string that is only read is its characters (without
  NUL); a block that is written is the list of its cells. \<open>split\<close> loops for ever on an empty delimiter, so
  it is a \<open>partial_function\<close> with \<open>None\<close> for that.
\<close>

section \<open>Searching\<close>

text \<open>\<open>strstr\<close>, \<open>string::find\<close>, \<open>strchr\<close>: the index of the first occurrence.\<close>

fun strstr :: "string \<Rightarrow> string \<Rightarrow> nat option" where
  "strstr s d =
     (if take (length d) s = d then Some 0
      else (case s of [] \<Rightarrow> None | c # cs \<Rightarrow> map_option Suc (strstr cs d)))"

declare strstr.simps [simp del]

definition strchr :: "string \<Rightarrow> char \<Rightarrow> nat option" where "strchr s c = strstr s [c]"

section \<open>split\<close>

partial_function (option) split_from :: "string \<Rightarrow> string \<Rightarrow> nat \<Rightarrow> string list \<Rightarrow> string list option" where
  "split_from s delimiter pos_start res =
     (case map_option ((+) pos_start) (strstr (drop pos_start s) delimiter) of
        None \<Rightarrow> Some (res @ [drop pos_start s])
      | Some pos_end \<Rightarrow>
          split_from s delimiter (pos_end + length delimiter) (res @ [take (pos_end - pos_start) (drop pos_start s)]))"

definition split :: "string \<Rightarrow> string \<Rightarrow> string list option" where
  "split s delimiter = split_from s delimiter 0 []"

section \<open>replaceAll\<close>

text \<open>The copying loop: \<open>p\<close> is the block from \<open>pOrigin\<close> on, \<open>out\<close> what \<open>result\<close> holds. (The counting loop before it
  has no effect, and an empty \<open>olds\<close> returns earlier.)\<close>

function replace_loop :: "string \<Rightarrow> string \<Rightarrow> string \<Rightarrow> string \<Rightarrow> string res" where
  "replace_loop olds news p out =
     (if olds = [] then Inr out
      else case p of [] \<Rightarrow> Inl OutOfBounds
      | c # cs \<Rightarrow>
          if c = NUL then Inr out
          else if length p < length olds then Inl OutOfBounds
          else if take (length olds) p = olds
               then (if 256 < length out + length news then Inl OutOfBounds
                     else replace_loop olds news (drop (length olds) p) (out @ news))
               else (if 256 < length out + 1 then Inl OutOfBounds else replace_loop olds news cs (out @ [c])))"
  by pat_completeness auto
termination
  by (relation "measure (\<lambda>(olds, news, p, out). length p)") (auto simp: neq_Nil_conv)

declare replace_loop.simps [simp del]

definition replaceAll :: "string \<Rightarrow> string \<Rightarrow> string \<Rightarrow> string res" where
  \<comment> \<open>the block \<open>s\<close> afterwards\<close>
  "replaceAll s olds news =
     (if olds = [] then Inr s
      else bindR (replace_loop olds news s []) (\<lambda>out.
        if 256 \<le> length out then Inl OutOfBounds else mem_write s 0 (out @ [NUL])))"

section \<open>URLDecode\<close>

definition chr_int :: "char \<Rightarrow> int" where "chr_int c = int (of_char c)"

fun url_loop :: "nat \<Rightarrow> int \<Rightarrow> string \<Rightarrow> string \<Rightarrow> nat \<Rightarrow> (int \<times> string) res" where
  \<comment> \<open>\<open>state\<close>, \<open>code\<close>, what is left of \<open>src\<close>, the block \<open>dst\<close> and the position of the pointer in it\<close>
  "url_loop state code [] dst pos = bindR (mem_write dst (int pos) [NUL]) (\<lambda>dst'. Inr (0, dst'))"
| "url_loop state code (c # cs) dst pos =
     (if state = 0 then
        if c = CHR ''%'' then url_loop 1 code cs dst pos
        else bindR (mem_write dst (int pos) [c]) (\<lambda>dst'. url_loop 0 code cs dst' (pos + 1))
      else if state = 1 then
        if \<not> isdigit c then Inr (-1, dst)
        else url_loop 2 (chr_int c - 48) cs dst pos
      else
        if \<not> isdigit c \<and> \<not> isalnum c then Inr (-1, dst)
        else bindR (mem_write dst (int pos) [char_of (nat ((code * 16 + chr_int c - (if isdigit c then 48 else 55)) mod 256))])
          (\<lambda>dst'. url_loop 0 code cs dst' (pos + 1)))"

definition URLDecode :: "string option \<Rightarrow> string \<Rightarrow> (int \<times> string) res" where
  "URLDecode src dst = (case src of None \<Rightarrow> Inr (-1, dst) | Some s \<Rightarrow> url_loop 0 0 s dst 0)"

section \<open>Bytes in network order\<close>

text \<open>\<open>m_iEqualNetworkByteOrder\<close> is \<open>GetByteOrder()\<close>: 0 on a little-endian machine, whose unions put the byte
  with the lowest address into the lowest bits.\<close>

definition host_int :: "bool \<Rightarrow> byte list \<Rightarrow> int" where
  "host_int big cs = horner_sum uint 256 (if big then rev cs else cs)"

definition GetByteOrder :: "bool \<Rightarrow> int" where
  "GetByteOrder big = (if (if big then [1, 2] else [2, 1]) ! 0 = (2 :: int) then 0 else 1)"

definition Get4Byte :: "bool \<Rightarrow> byte list \<Rightarrow> int \<Rightarrow> int res" where
  "Get4Byte big data pos =
     bindR (mem_read data pos 4) (\<lambda>d.
       let chars = (if GetByteOrder big = 0 then [d ! 3, d ! 2, d ! 1, d ! 0] else [d ! 0, d ! 1, d ! 2, d ! 3])
       in Inr (sint (word_of_int (host_int big chars) :: 32 word)))"

definition Get2Byte :: "bool \<Rightarrow> byte list \<Rightarrow> int \<Rightarrow> int res" where
  "Get2Byte big data pos =
     bindR (mem_read data pos 2) (\<lambda>d.
       let chars = (if GetByteOrder big = 0 then [d ! 1, d ! 0] else [d ! 0, d ! 1])
       in Inr (host_int big chars))"

section \<open>Cutting texts out of a response\<close>

definition CRLF2 :: string where "CRLF2 = [CHR 0x0D, CHR 0x0A, CHR 0x0D, CHR 0x0A]"

definition GetResultHtml :: "string \<Rightarrow> string \<Rightarrow> (int \<times> string) res" where
  "GetResultHtml pchSrc pchDst =
     (case strstr pchSrc CRLF2 of None \<Rightarrow> Inr (-1, pchDst)
      | Some p \<Rightarrow>
          let text = drop (p + 4) pchSrc in
          bindR (mem_write pchDst 0 (text @ [NUL])) (\<lambda>d.
          bindR (mem_write d (int (length text + 1)) [NUL]) (\<lambda>d'. Inr (int (length text), d'))))"

definition cut_between :: "string \<Rightarrow> nat \<Rightarrow> nat \<Rightarrow> string \<Rightarrow> (int \<times> string) res" where
  \<comment> \<open>\<open>strncpy(_pchURL, q + 1, r - q - 1)\<close>: no NUL is written\<close>
  "cut_between Data q len dst =
     bindR (mem_write dst 0 (take len (drop (q + 1) Data))) (\<lambda>d. Inr (0, d))"

definition GetQueryPage :: "string \<Rightarrow> string \<Rightarrow> (int \<times> string) res" where
  "GetQueryPage Data dst =
     (case strstr Data ''GET '' of None \<Rightarrow> Inr (-1, dst)
      | Some p \<Rightarrow> (case strchr (drop (p + 4) Data) (CHR ''/'') of None \<Rightarrow> Inr (-1, dst)
      | Some q \<Rightarrow> (case strstr (drop (p + 4 + q + 1) Data) '' HTTP'' of None \<Rightarrow> Inr (-1, dst)
      | Some r \<Rightarrow> cut_between Data (p + 4 + q) r dst)))"

definition GetURL :: "string \<Rightarrow> string \<Rightarrow> (int \<times> string) res" where
  "GetURL Data dst =
     (case strstr Data ''http:/'' of None \<Rightarrow> Inr (-1, dst)
      | Some p \<Rightarrow> (case strchr (drop (p + 6) Data) (CHR ''/'') of None \<Rightarrow> Inr (-1, dst)
      | Some q \<Rightarrow> (case strchr (drop (p + 6 + q + 1) Data) (CHR ''/'') of None \<Rightarrow> Inr (-1, dst)
      | Some r \<Rightarrow> cut_between Data (p + 6 + q) r dst)))"

definition DQUOTE :: char where "DQUOTE = CHR 0x22"

definition GetResultCode :: "string \<Rightarrow> string \<Rightarrow> int res" where
  \<comment> \<open>\<open>junk\<close> is the uninitialised array of 20 characters\<close>
  "GetResultCode junk Data =
     (case strstr Data ''Result Code'' of None \<Rightarrow> Inr (-1)
      | Some p \<Rightarrow> (case strchr (drop (p + 11) Data) DQUOTE of None \<Rightarrow> Inr (-1)
      | Some q \<Rightarrow> (case strchr (drop (p + 11 + q + 1) Data) DQUOTE of None \<Rightarrow> Inr (-1)
      | Some r \<Rightarrow>
          bindR (mem_write (take 20 junk) 0 (take r (drop (p + 11 + q + 1) Data))) (\<lambda>b.
          bindR (mem_write b (int r) [NUL]) (\<lambda>_. Inr 0)))))"

section \<open>Telephone numbers\<close>

text \<open>\<open>src\<close> is the block that holds the number; twelve characters are put together and, in one of the two
  branches, copied back.\<close>

definition phone_chars :: "string \<Rightarrow> int list \<Rightarrow> string res" where
  \<comment> \<open>the characters at these indices of the block\<close>
  "phone_chars src is = foldr (\<lambda>i r. bindR (mem_read src i 1) (\<lambda>c. bindR r (\<lambda>cs. Inr (c @ cs)))) is (Inr [])"

definition Change344To444FormatPhoneNumber :: "string \<Rightarrow> string res" where
  "Change344To444FormatPhoneNumber src =
     bindR (c_str src) (\<lambda>s.
       if take 2 s = ''10'' then
         (if length s = 9
          then bindR (phone_chars src [2, 3, 4, 5, 6, 7, 8]) (\<lambda>cs. Inr src)
          else bindR (phone_chars src [2, 3, 4, 5, 6, 7, 8, 9]) (\<lambda>cs. Inr src))
       else
         bindR (phone_chars src [0, 1, 2]) (\<lambda>h.
         bindR (if length s = 10
                then bindR (phone_chars src [3, 4, 5, 6, 7, 8, 9]) (\<lambda>cs. Inr (CHR ''0'' # cs))
                else phone_chars src [3, 4, 5, 6, 7, 8, 9, 10]) (\<lambda>t.
         let n = h @ CHR ''0'' # t; l = takeWhile (\<lambda>c. c \<noteq> NUL) n in
           mem_write src 0 (l @ replicate (12 - length l) NUL))))"

section \<open>Occurrences\<close>

lemma strstr_unfold:
  "strstr [] d = (if d = [] then Some 0 else None)"
  "take (length d) s = d \<Longrightarrow> strstr s d = Some 0"
  "take (length d) (c # cs) \<noteq> d \<Longrightarrow> strstr (c # cs) d = map_option Suc (strstr cs d)"
  by (simp_all add: strstr.simps [of "[]"] strstr.simps [of s] strstr.simps [of "c # cs"])

lemma strstr_Some:
  "strstr s d = Some i \<Longrightarrow> take (length d) (drop i s) = d \<and> i + length d \<le> length s"
proof (induction s arbitrary: i)
  case Nil
  then show ?case by (simp add: strstr_unfold split: if_splits)
next
  case (Cons c cs)
  show ?case
  proof (cases "take (length d) (c # cs) = d")
    case True
    then have "i = 0" using Cons.prems by (simp add: strstr_unfold)
    moreover have "length d \<le> length (c # cs)" using arg_cong [OF True, of length] by simp
    ultimately show ?thesis using True by simp
  next
    case False
    then obtain j where "strstr cs d = Some j" "i = Suc j" using Cons.prems by (auto simp: strstr_unfold)
    then show ?thesis using Cons.IH [of j] by simp
  qed
qed

lemma strstr_first:
  "strstr s d = Some i \<Longrightarrow> j < i \<Longrightarrow> take (length d) (drop j s) \<noteq> d"
proof (induction s arbitrary: i j)
  case Nil
  then show ?case by (simp add: strstr_unfold split: if_splits)
next
  case (Cons c cs)
  have ne: "take (length d) (c # cs) \<noteq> d" using Cons.prems by (auto simp: strstr_unfold)
  then obtain k where "strstr cs d = Some k" "i = Suc k" using Cons.prems by (auto simp: strstr_unfold)
  then show ?case using Cons.IH [of k "j - 1"] Cons.prems ne by (cases j) auto
qed

text \<open>The pieces of a string between the occurrences of \<open>d\<close>, and their inverse.\<close>

fun join :: "string \<Rightarrow> string list \<Rightarrow> string" where
  "join d [] = []"
| "join d [x] = x"
| "join d (x # y # ys) = x @ d @ join d (y # ys)"

function pieces :: "string \<Rightarrow> string \<Rightarrow> string list" where
  "pieces d s =
     (if d = [] then [s]
      else case strstr s d of None \<Rightarrow> [s] | Some i \<Rightarrow> take i s # pieces d (drop (i + length d) s))"
  by pat_completeness auto
termination
proof (relation "measure (\<lambda>(d, s). length s)", goal_cases)
  case (2 d s i)
  then show ?case using strstr_Some [of s d i] by (cases d) auto
qed simp

declare pieces.simps [simp del]

lemma join_Cons: "xs \<noteq> [] \<Longrightarrow> join d (x # xs) = x @ d @ join d xs"
  by (cases xs) auto

lemma pieces_not_Nil: "pieces d s \<noteq> []"
  by (subst pieces.simps) (auto split: option.split)

lemma join_pieces: "join d (pieces d s) = s"
proof (induction d s rule: pieces.induct)
  case (1 d s)
  show ?case
  proof (cases "d = [] \<or> strstr s d = None")
    case True
    then show ?thesis by (auto simp: pieces.simps [of d s])
  next
    case False
    then obtain i where i: "d \<noteq> []" "strstr s d = Some i" by auto
    have "take i s @ d @ drop (i + length d) s = s"
    proof -
      have "drop i s = d @ drop (i + length d) s"
        using append_take_drop_id [of "length d" "drop i s"] strstr_Some [OF i(2)] by (simp add: add.commute)
      then show ?thesis using append_take_drop_id [of i s] by simp
    qed
    then show ?thesis using 1 [OF i] i by (simp add: pieces.simps [of d s] join_Cons pieces_not_Nil)
  qed
qed

lemma strstr_take: "d \<noteq> [] \<Longrightarrow> strstr s d = Some i \<Longrightarrow> strstr (take i s) d = None"
proof (induction s arbitrary: i)
  case Nil
  then show ?case by (simp add: strstr_unfold)
next
  case (Cons c cs)
  show ?case
  proof (cases i)
    case 0
    then show ?thesis using Cons.prems by (simp add: strstr_unfold)
  next
    case (Suc k)
    then have ne: "take (length d) (c # cs) \<noteq> d" using Cons.prems by (auto simp: strstr_unfold)
    then have k: "strstr cs d = Some k" using Cons.prems Suc by (auto simp: strstr_unfold)
    have "take (length d) (c # take k cs) \<noteq> d"
    proof
      assume a: "take (length d) (c # take k cs) = d"
      have "length d = length (take (length d) (c # take k cs))" using a by simp
      also have "\<dots> \<le> length (c # take k cs)" by (simp only: length_take)
      also have "\<dots> \<le> Suc k" by simp
      finally have "length d \<le> Suc k" .
      then have "take (length d) (c # cs) = d" using a by (cases "length d") (simp_all add: min_def)
      then show False using ne by simp
    qed
    then show ?thesis using Cons.IH [OF Cons.prems(1) k] Suc by (simp add: strstr_unfold)
  qed
qed

lemma pieces_free: "d \<noteq> [] \<Longrightarrow> x \<in> set (pieces d s) \<Longrightarrow> strstr x d = None"
proof (induction d s rule: pieces.induct)
  case (1 d s)
  show ?case
    using 1 strstr_take [of d s] by (auto simp: pieces.simps [of d s] split: option.splits)
qed

lemma split_from_pieces:
  assumes "d \<noteq> []"
  shows "split_from s d pos res = Some (res @ pieces d (drop pos s))"
proof (induction "drop pos s" arbitrary: pos res rule: measure_induct_rule [of length])
  case less
  show ?case
  proof (cases "strstr (drop pos s) d")
    case None
    then show ?thesis
      using assms by (subst split_from.simps) (simp add: pieces.simps [of d "drop pos s"])
  next
    case (Some i)
    have "length (drop (pos + i + length d) s) < length (drop pos s)"
      using strstr_Some [OF Some] assms by (cases d) auto
    from less [OF this]
    show ?thesis
      using Some assms by (subst split_from.simps) (simp add: pieces.simps [of d "drop pos s"] ac_simps)
  qed
qed

lemma split_from_empty: "split_from s [] pos res = None"
proof -
  have False if "split_from s [] pos res = Some y" for y
  proof -
    have "([] :: string) \<noteq> []"
    proof (rule split_from.raw_induct [where P = "\<lambda>s d pos res y. d \<noteq> []", OF _ that])
    qed (auto simp: strstr_unfold split: option.splits)
    then show False by simp
  qed
  then show ?thesis by (cases "split_from s [] pos res") auto
qed

section \<open>replaceAll\<close>

lemma take_eq_length: "take (length d) s = d \<Longrightarrow> length d \<le> length s"
  by (metis length_take min.cobounded1)

lemma pieces_hit:
  assumes "d \<noteq> []" "take (length d) s = d"
  shows "pieces d s = [] # pieces d (drop (length d) s)"
  using assms by (simp add: pieces.simps [of d s] strstr_unfold)

lemma pieces_miss:
  assumes "d \<noteq> []" "take (length d) (c # cs) \<noteq> d"
  shows "pieces d (c # cs) = (c # hd (pieces d cs)) # tl (pieces d cs)"
  using assms by (simp add: pieces.simps [of d "c # cs"] pieces.simps [of d cs] strstr_unfold split: option.split)

lemma join_hit: "join n ([] # pieces d s) = n @ join n (pieces d s)"
  by (simp add: join_Cons pieces_not_Nil)

lemma join_miss: "xs \<noteq> [] \<Longrightarrow> join n ((c # hd xs) # tl xs) = c # join n xs"
  by (cases xs; cases "tl xs") auto

lemma replace_loop_pieces:
  assumes "olds \<noteq> []" "NUL \<notin> set olds" "NUL \<notin> set s" "length olds \<le> length pad + 2"
  shows "replace_loop olds news (s @ NUL # pad) out =
    (if s = [] \<or> length out + length (join news (pieces olds s)) \<le> 256
     then Inr (out @ join news (pieces olds s)) else Inl OutOfBounds)"
  using assms(3)
proof (induction s arbitrary: out rule: measure_induct_rule [of length])
  case (less s)
  note unfold = replace_loop.simps [of olds news "s @ NUL # pad" out]
  show ?case
  proof (cases s)
    case Nil
    have "pieces olds [] = [[]]" using assms(1) by (simp add: pieces.simps [of olds "[]"] strstr_unfold)
    then show ?thesis using Nil assms(1) unfold by simp
  next
    case (Cons c cs)
    have c: "c \<noteq> NUL" "NUL \<notin> set cs" using less.prems Cons by auto
    have room: "\<not> length (s @ NUL # pad) < length olds" using assms(4) Cons by simp
    have pre: "take (length olds) (s @ NUL # pad) = olds \<longleftrightarrow> take (length olds) s = olds"
    proof
      assume a: "take (length olds) (s @ NUL # pad) = olds"
      have "length olds \<le> length s"
      proof (rule ccontr)
        assume "\<not> length olds \<le> length s"
        then obtain k where "length olds - length s = Suc k" by (cases "length olds - length s") auto
        then have "NUL \<in> set (take (length olds) (s @ NUL # pad))" by simp
        then show False unfolding a using assms(2) by simp
      qed
      then show "take (length olds) s = olds" using a by simp
    next
      assume a: "take (length olds) s = olds"
      then have "length olds \<le> length s" by (rule take_eq_length)
      then show "take (length olds) (s @ NUL # pad) = olds" using a by simp
    qed
    show ?thesis
    proof (cases "take (length olds) s = olds")
      case True
      let ?s = "drop (length olds) s"
      have l: "length olds \<le> length s" by (rule take_eq_length [OF True])
      then have "drop (length olds) (s @ NUL # pad) = ?s @ NUL # pad" by simp
      moreover have "length ?s < length s" "NUL \<notin> set ?s"
        using assms(1) less.prems Cons by (auto dest: in_set_dropD)
      ultimately show ?thesis
        using less.IH [of ?s "out @ news"] unfold pre room True Cons c assms(1) pieces_hit [OF assms(1) True]
        by (cases "?s = []") (auto simp: join_hit pieces.simps [of olds "[]"] strstr_unfold)
    next
      case False
      have "pieces olds s = (c # hd (pieces olds cs)) # tl (pieces olds cs)"
        using pieces_miss [OF assms(1)] False Cons by simp
      then have j: "join news (pieces olds s) = c # join news (pieces olds cs)"
        by (simp add: join_miss pieces_not_Nil)
      with less.IH [of cs "out @ [c]"] show ?thesis
        using unfold pre room False Cons c assms(1)
        by (cases "cs = []") (auto simp: pieces.simps [of olds "[]"] strstr_unfold)
    qed
  qed
qed

section \<open>URLDecode\<close>

text \<open>Percent encoding with upper-case hexadecimal digits, of the characters that \<open>P\<close> picks and of \<open>%\<close> itself.\<close>

definition hex_digit :: "nat \<Rightarrow> char" where
  "hex_digit n = char_of (if n < 10 then 48 + n else 55 + n)"

definition url_char :: "(char \<Rightarrow> bool) \<Rightarrow> char \<Rightarrow> string" where
  "url_char P c =
     (if P c \<or> c = CHR ''%'' then [CHR ''%'', hex_digit (of_char c div 16), hex_digit (of_char c mod 16)] else [c])"

definition url_encode :: "(char \<Rightarrow> bool) \<Rightarrow> string \<Rightarrow> string" where
  "url_encode P s = concat (map (url_char P) s)"

lemma hex_digit_facts:
  assumes "n < 16"
  shows "isdigit (hex_digit n) \<longleftrightarrow> n < 10" "isalnum (hex_digit n)"
    "chr_int (hex_digit n) = (if n < 10 then 48 + int n else 55 + int n)"
  using assms by (auto simp: hex_digit_def isdigit_def isalnum_def chr_int_def of_char_of)

lemma mem_write_room:
  "pos < length dst \<Longrightarrow> mem_write dst (int pos) [c] = Inr (mem_put dst pos [c])"
  by (simp add: mem_write_def)

lemma url_loop_char:
  assumes "pos < length dst" "P c \<or> c = CHR ''%'' \<longrightarrow> (of_char c :: nat) < 160"
  shows "\<exists>code'. url_loop 0 code (url_char P c @ cs) dst pos = url_loop 0 code' cs (mem_put dst pos [c]) (pos + 1)"
proof (cases "P c \<or> c = CHR ''%''")
  case False
  then show ?thesis using mem_write_room [OF assms(1)] by (auto simp: url_char_def)
next
  case True
  let ?h = "(of_char c :: nat) div 16" and ?l = "(of_char c :: nat) mod 16"
  have h: "?h < 10" using assms(2) True by simp
  have hx: "isdigit (hex_digit ?h)" "chr_int (hex_digit ?h) = 48 + int ?h"
    using hex_digit_facts [of ?h] h by simp_all
  have lx: "isalnum (hex_digit ?l)" "chr_int (hex_digit ?l) = (if isdigit (hex_digit ?l) then 48 else 55) + int ?l"
    using hex_digit_facts [of ?l] by simp_all
  have "int ?h * 16 + int ?l = int (of_char c)" 
    by (metis div_mult_mod_eq of_nat_add of_nat_mult of_nat_numeral)
  then have v: "nat (((48 + int ?h - 48) * 16 + chr_int (hex_digit ?l) - (if isdigit (hex_digit ?l) then 48 else 55)) mod 256) = of_char c"
    unfolding lx(2) by simp
  show ?thesis
    using True hx lx(1) mem_write_room [OF assms(1), of c] v
    by (intro exI [of _ "48 + int ?h - 48"]) (simp add: url_char_def)
qed

lemma url_loop_bad:
  assumes "P c \<or> c = CHR ''%''" "160 \<le> (of_char c :: nat)"
  shows "url_loop 0 code (url_char P c @ cs) dst pos = Inr (-1, dst)"
proof -
  have "(of_char c :: nat) < 256" by (rule nat_of_char_less_256)
  then have "(of_char c :: nat) div 16 < 16" "\<not> (of_char c :: nat) div 16 < 10" using assms(2) by linarith+
  then show ?thesis using hex_digit_facts(1) assms(1) by (simp add: url_char_def)
qed

lemma url_loop_decodes:
  assumes "pos + length s < length dst" "\<forall>c \<in> set s. P c \<or> c = CHR ''%'' \<longrightarrow> (of_char c :: nat) < 160"
  shows "url_loop 0 code (url_encode P s) dst pos = Inr (0, mem_put dst pos (s @ [NUL]))"
  using assms
proof (induction s arbitrary: code dst pos)
  case Nil
  then show ?case by (simp add: url_encode_def mem_write_room)
next
  case (Cons c s)
  have e: "url_encode P (c # s) = url_char P c @ url_encode P s" by (simp add: url_encode_def)
  obtain code' where "url_loop 0 code (url_encode P (c # s)) dst pos =
      url_loop 0 code' (url_encode P s) (mem_put dst pos [c]) (pos + 1)"
    unfolding e using url_loop_char [of pos dst P c code "url_encode P s"] Cons.prems by auto
  also have "\<dots> = Inr (0, mem_put (mem_put dst pos [c]) (pos + 1) (s @ [NUL]))"
    using Cons.IH [of "pos + 1" "mem_put dst pos [c]" code'] Cons.prems by simp
  also have "mem_put (mem_put dst pos [c]) (pos + 1) (s @ [NUL]) = mem_put dst pos ((c # s) @ [NUL])"
    using mem_put_append [of pos "[c]" "s @ [NUL]" dst] Cons.prems by simp
  finally show ?case .
qed

lemma url_loop_refuses:
  assumes "pos + length s < length dst" "\<exists>c \<in> set s. (P c \<or> c = CHR ''%'') \<and> 160 \<le> (of_char c :: nat)"
  shows "\<exists>dst'. url_loop 0 code (url_encode P s) dst pos = Inr (-1, dst')"
  using assms
proof (induction s arbitrary: code dst pos)
  case (Cons c s)
  have e: "url_encode P (c # s) = url_char P c @ url_encode P s" by (simp add: url_encode_def)
  show ?case
  proof (cases "(P c \<or> c = CHR ''%'') \<and> 160 \<le> (of_char c :: nat)")
    case True
    then show ?thesis unfolding e using url_loop_bad by blast
  next
    case False
    then obtain code' where "url_loop 0 code (url_encode P (c # s)) dst pos =
        url_loop 0 code' (url_encode P s) (mem_put dst pos [c]) (pos + 1)"
      unfolding e using url_loop_char [of pos dst P c code "url_encode P s"] Cons.prems(1) by auto
    then show ?thesis using Cons.IH [of "pos + 1" "mem_put dst pos [c]" code'] Cons.prems False by auto
  qed
qed simp

section \<open>Bytes, URLs and telephone numbers\<close>

text \<open>On both kinds of machines the bytes are read in network order.\<close>

lemma Get4Byte_network:
  assumes "mem_read data pos 4 = Inr d"
  shows "Get4Byte big data pos = Inr (sint (word_of_int (horner_sum uint 256 (rev d)) :: 32 word))"
proof -
  have "length d = 4" using mem_read_length [OF assms] by simp
  then obtain a b c e where "d = [a, b, c, e]" by (auto simp: numeral_eq_Suc length_Suc_conv)
  then show ?thesis using assms by (simp add: Get4Byte_def GetByteOrder_def host_int_def)
qed

lemma Get4Byte_fault_iff:
  "Get4Byte big data pos = Inl e \<longleftrightarrow> e = OutOfBounds \<and> (pos < 0 \<or> int (length data) < pos + 4)"
  by (auto simp: Get4Byte_def bindR_Inl_iff mem_read_fault_iff Let_def)

lemma strchr_at: "c \<notin> set a \<Longrightarrow> strchr (a @ c # b) c = Some (length a)"
proof (induction a)
  case Nil
  then show ?case by (simp add: strchr_def strstr_unfold)
next
  case (Cons x a)
  then have "strchr (a @ c # b) c = Some (length a)" "take (length [c]) (x # a @ c # b) \<noteq> [c]" by auto
  then show ?case by (simp add: strchr_def strstr_unfold)
qed

text \<open>\<open>GetURL\<close> copies the host name, and no NUL behind it.\<close>

lemma GetURL_host:
  assumes "strstr Data ''http:/'' = Some p" "drop (p + 6) Data = CHR ''/'' # host @ CHR ''/'' # rest"
    and "CHR ''/'' \<notin> set host" "length host \<le> length dst"
  shows "GetURL Data dst = Inr (0, mem_put dst 0 host)"
proof -
  have "strchr (drop (p + 6) Data) (CHR ''/'') = Some 0" using strchr_at [of _ "[]"] assms(2) by simp
  moreover have "drop (p + 6 + 0 + 1) Data = drop 1 (drop (p + 6) Data)" by simp
  then have "drop (p + 6 + 0 + 1) Data = host @ CHR ''/'' # rest" unfolding assms(2) by simp
  ultimately show ?thesis
    using assms(1,3,4) strchr_at by (simp add: GetURL_def cut_between_def mem_write_def)
qed

text \<open>A result code of 20 characters or more overruns the array.\<close>

lemma GetResultCode_overrun:
  assumes "strstr Data ''Result Code'' = Some p" "drop (p + 11) Data = a @ DQUOTE # code @ DQUOTE # rest"
    and "DQUOTE \<notin> set a" "DQUOTE \<notin> set code" "length junk = 20"
  shows "GetResultCode junk Data = (if length code < 20 then Inr 0 else Inl OutOfBounds)"
proof -
  have q: "strchr (drop (p + 11) Data) DQUOTE = Some (length a)" using strchr_at assms(2,3) by simp
  have "drop (p + 11 + length a + 1) Data = drop (length a + 1) (drop (p + 11) Data)" by (simp add: ac_simps)
  then have d: "drop (p + 11 + length a + 1) Data = code @ DQUOTE # rest" unfolding assms(2) by simp
  have r: "strchr (drop (p + 11 + length a + 1) Data) DQUOTE = Some (length code)" unfolding d using strchr_at assms(4) by simp
  show ?thesis
    using assms(1,5) q r d by (simp add: GetResultCode_def mem_write_def)
qed

text \<open>A number that begins with \<open>10\<close> is formatted and then forgotten.\<close>

lemma phone_chars_cases: "(\<exists>cs. phone_chars src is = Inr cs) \<or> phone_chars src is = Inl OutOfBounds"
proof (induction "is")
  case (Cons i js)
  have "(\<exists>c. mem_read src i 1 = Inr c) \<or> mem_read src i 1 = Inl OutOfBounds" by (simp add: mem_read_def)
  then show ?case using Cons by (auto simp: phone_chars_def)
qed (simp add: phone_chars_def)

lemma phone_10_unchanged:
  assumes "c_str src = Inr s" "take 2 s = ''10''"
  shows "Change344To444FormatPhoneNumber src \<in> {Inr src, Inl OutOfBounds}"
proof -
  have "bindR (phone_chars src is) (\<lambda>cs. Inr src) \<in> {Inr src, Inl OutOfBounds}" for "is" :: "int list"
    using phone_chars_cases [of src "is"] by auto
  then show ?thesis using assms by (simp only: Change344To444FormatPhoneNumber_def bindR_simps if_True split: if_split) simp
qed

section \<open>Properties\<close>

text \<open>C26: \<open>split\<close> returns exactly when the delimiter is not empty, and then the pieces, put together again with the
  delimiter, are the string, there is at least one, and none contains the delimiter; with an empty
  delimiter it never returns.\<close>

theorem split_pieces:
  "case split s d of None \<Rightarrow> d = []
   | Some xs \<Rightarrow> d \<noteq> [] \<and> join d xs = s \<and> xs \<noteq> [] \<and> list_all (\<lambda>x. strstr x d = None) xs"
proof (cases "d = []")
  case True
  then show ?thesis by (simp add: split_def split_from_empty)
next
  case False
  then have "split s d = Some (pieces d s)" by (simp add: split_def split_from_pieces)
  then show ?thesis using False join_pieces pieces_not_Nil pieces_free by (simp add: list_all_iff)
qed

text \<open>C28: \<open>replaceAll\<close> puts the new string between the pieces that \<open>split\<close> gives for the old one, if the result has
  less than 256 characters and fits into the block with its NUL; otherwise it writes outside its array or
  the block. (The block needs room behind the NUL for \<open>memcmp\<close> to compare as many bytes as the old string
  has.)\<close>

theorem replaceAll_splits:
  assumes "olds \<noteq> []" "NUL \<notin> set olds" "NUL \<notin> set s" "length olds \<le> length pad + 2" "split s olds = Some xs"
  shows "replaceAll (s @ NUL # pad) olds news =
    (if length (join news xs) < 256 \<and> length (join news xs) < length (s @ NUL # pad)
     then Inr (mem_put (s @ NUL # pad) 0 (join news xs @ [NUL])) else Inl OutOfBounds)"
proof -
  have xs: "pieces olds s = xs" using assms(1,5) by (simp add: split_def split_from_pieces)
  have "pieces olds [] = [[]]" using assms(1) by (simp add: pieces.simps [of olds "[]"] strstr_unfold)
  then have "replace_loop olds news (s @ NUL # pad) [] =
      (if length (join news xs) \<le> 256 then Inr (join news xs) else Inl OutOfBounds)"
    using replace_loop_pieces [OF assms(1-4), of news "[]"] unfolding xs [symmetric] by (cases "s = []") simp_all
  then show ?thesis using assms(1) by (auto simp: replaceAll_def mem_write_def)
qed

theorem replaceAll_splits_witness:
  "replaceAll (''a+b+c'' @ NUL # replicate 9 NUL) ''+'' '' and '' = Inr (''a and b and c'' @ NUL # [NUL])"
proof -
  have "split ''a+b+c'' ''+'' = Some [''a'', ''b'', ''c'']"
    by (simp add: split_def split_from_pieces pieces.simps strstr.simps)
  from replaceAll_splits [OF _ _ _ _ this, of "replicate 9 NUL" "'' and ''"] show ?thesis
    by (simp add: NUL_def mem_put_def)
qed

text \<open>C27: \<open>URLDecode\<close> undoes percent encoding with upper-case digits exactly for texts whose encoded characters
  are all below 160: the first hexadecimal digit must be one of 0 to 9, so an encoded byte from
  \<open>%A0\<close> on (every multi-byte UTF-8 character has one) is refused with -1.\<close>

theorem URLDecode_roundtrip:
  assumes "length s < length dst"
  shows "if \<forall>c \<in> set s. P c \<or> c = CHR ''%'' \<longrightarrow> (of_char c :: nat) < 160
    then URLDecode (Some (url_encode P s)) dst = Inr (0, mem_put dst 0 (s @ [NUL]))
    else \<exists>dst'. URLDecode (Some (url_encode P s)) dst = Inr (-1, dst')"
proof (cases "\<forall>c \<in> set s. P c \<or> c = CHR ''%'' \<longrightarrow> (of_char c :: nat) < 160")
  case True
  have "url_loop 0 0 (url_encode P s) dst 0 = Inr (0, mem_put dst 0 (s @ [NUL]))"
    by (rule url_loop_decodes) (use assms True in simp_all)
  then show ?thesis unfolding if_P [OF True] by (simp add: URLDecode_def)
next
  case False
  then have "\<exists>c \<in> set s. (P c \<or> c = CHR ''%'') \<and> 160 \<le> (of_char c :: nat)" by (auto simp: not_less)
  from url_loop_refuses [OF _ this, of 0 dst 0] assms show ?thesis
    unfolding if_not_P [OF False] by (simp add: URLDecode_def)
qed

theorem URLDecode_roundtrip_witness:
  "URLDecode (Some ''a%2Bb'') ''xxxxx'' = Inr (0, ''a+b'' @ [NUL, CHR ''x''])"
proof -
  have "hex_digit 2 = CHR ''2''" "hex_digit 11 = CHR ''B''"
    by (simp_all add: hex_digit_def char_of_def bit_0)
  then show ?thesis
    using URLDecode_roundtrip [of "''a+b''" "''xxxxx''" "\<lambda>c. c = CHR ''+''"]
    by (simp add: url_encode_def url_char_def mem_put_def)
qed

end
