(* ===== verification/ProcessSpawn.thy ===== *)
theory ProcessSpawn
  imports ChatManagerProc
begin

text \<open>
  \<open>Process\<close> (src/Process.cpp) and \<open>ChatManager::DoFork\<close> (src/ChatManager.cpp): the manager opens its listening
  sockets, forks the chat servers and watches them. \<open>fork\<close> copies the heap of \<open>Process\<close> objects into a
  child, which changes its own copy and never comes back from \<open>Run\<close>. What \<open>fork\<close>, \<open>waitpid\<close>, \<open>pipe\<close> and the
  socket calls answer is an argument. The children with the kernel's view of them (dead but not waited
  for, stopped but not reported) are part of the state.
\<close>

section \<open>Process\<close>

record Process =
  m_iPipe_0 :: int
  m_iPipe_1 :: int
  m_PPid :: int
  m_Pid :: int
  m_IsStarted :: bool
  m_iSignalNo :: int
  m_pChild :: "nat option"

definition Process_new :: Process where
  "Process_new = \<lparr>m_iPipe_0 = -1, m_iPipe_1 = -1, m_PPid = 0, m_Pid = 0, m_IsStarted = False, m_iSignalNo = 0, m_pChild = None\<rparr>"
definition Process_GetStarted :: "Process \<Rightarrow> bool" where "Process_GetStarted p = m_IsStarted p"
definition Process_SetStarted :: "bool \<Rightarrow> Process \<Rightarrow> Process" where "Process_SetStarted b p = p\<lparr>m_IsStarted := b\<rparr>"
definition SetSignalNo :: "int \<Rightarrow> Process \<Rightarrow> Process" where "SetSignalNo n p = p\<lparr>m_iSignalNo := n\<rparr>"
definition GetSignalNo :: "Process \<Rightarrow> int" where "GetSignalNo p = m_iSignalNo p"
definition GetPPid :: "Process \<Rightarrow> int" where "GetPPid p = m_PPid p"
definition SetPPid :: "int \<Rightarrow> Process \<Rightarrow> Process" where "SetPPid n p = p\<lparr>m_PPid := n\<rparr>"
definition GetPid :: "Process \<Rightarrow> int" where "GetPid p = m_Pid p"
definition SetPid :: "int \<Rightarrow> Process \<Rightarrow> Process" where "SetPid n p = p\<lparr>m_Pid := n\<rparr>"
definition GetRecvPipe :: "Process \<Rightarrow> int" where "GetRecvPipe p = m_iPipe_0 p"
definition GetSendPipe :: "Process \<Rightarrow> int" where "GetSendPipe p = m_iPipe_1 p"
definition SetRecvPipe :: "int \<Rightarrow> Process \<Rightarrow> Process" where "SetRecvPipe n p = p\<lparr>m_iPipe_0 := n\<rparr>"
definition SetSendPipe :: "int \<Rightarrow> Process \<Rightarrow> Process" where "SetSendPipe n p = p\<lparr>m_iPipe_1 := n\<rparr>"

definition ESRCH :: int where "ESRCH = 3"
definition IsAliveProcess :: "int option \<Rightarrow> bool" where
  \<comment> \<open>the argument is the \<open>errno\<close> of a failed \<open>kill(pid, 0)\<close>\<close>
  "IsAliveProcess kill_errno = (kill_errno \<noteq> Some ESRCH)"

section \<open>The family of processes\<close>

type_synonym proc_heap = "nat \<rightharpoonup> Process"

record family =
  fam_heap :: proc_heap
  fam_alive :: "int \<rightharpoonup> proc_heap"
  fam_stops :: "int set"
  fam_dead :: "int set"

text \<open>A method call through a pointer in some heap; \<open>None\<close> if it crashes.\<close>

definition on_object :: "nat option \<Rightarrow> (Process \<Rightarrow> Process) \<Rightarrow> proc_heap \<Rightarrow> proc_heap option" where
  "on_object p g h =
     (case p of None \<Rightarrow> None
      | Some a \<Rightarrow> (case h a of None \<Rightarrow> None | Some obj \<Rightarrow> Some (h(a \<mapsto> g obj))))"

definition here :: "nat \<Rightarrow> (Process \<Rightarrow> Process) \<Rightarrow> family \<Rightarrow> family" where
  \<comment> \<open>a method of \<open>this\<close>, in the manager\<close>
  "here this g f = (case on_object (Some this) g (fam_heap f) of None \<Rightarrow> f | Some h \<Rightarrow> f\<lparr>fam_heap := h\<rparr>)"

definition forked :: "int \<Rightarrow> proc_heap option \<Rightarrow> family \<Rightarrow> family" where
  \<comment> \<open>the new child and its heap when it enters \<open>Run\<close>; a child that crashes on the way is dead\<close>
  "forked pid start f =
     (case start of None \<Rightarrow> f\<lparr>fam_dead := insert pid (fam_dead f)\<rparr>
      | Some h \<Rightarrow> f\<lparr>fam_alive := (fam_alive f)(pid \<mapsto> h)\<rparr>)"

text \<open>\<open>fork\<close> answers \<open>None\<close> for -1. \<open>Assert\<close> writes to a file and goes on.\<close>

definition parent_started :: "int \<Rightarrow> Process \<Rightarrow> Process" where
  \<comment> \<open>the parent's branch of the spawning methods\<close>
  "parent_started pid p = SetPid pid (Process_SetStarted True p)"

definition SpawnProcess :: "nat \<Rightarrow> int option \<Rightarrow> family \<Rightarrow> bool \<times> family" where
  "SpawnProcess this fk f =
     (case fk of None \<Rightarrow> (False, f)
      | Some pid \<Rightarrow>
          let f1 = forked pid (on_object (Some this) (SetPid pid) (fam_heap f)) f
          in (True, here this (parent_started pid) f1))"

definition child_of :: "nat \<Rightarrow> family \<Rightarrow> nat option" where
  "child_of this f = Option.bind (fam_heap f this) m_pChild"

definition SpawnChildProcess :: "nat \<Rightarrow> int option \<Rightarrow> family \<Rightarrow> bool \<times> family" where
  "SpawnChildProcess this fk f =
     (case fk of None \<Rightarrow> (False, f)
      | Some pid \<Rightarrow> (True, forked pid (on_object (child_of this f) (SetPid pid) (fam_heap f)) f))"

definition SpawnChildProcessWithPipe :: "nat \<Rightarrow> int option \<Rightarrow> family \<Rightarrow> bool \<times> family" where
  "SpawnChildProcessWithPipe this fk f =
     (case fk of None \<Rightarrow> (False, f)
      | Some pid \<Rightarrow>
          let send = (case fam_heap f this of None \<Rightarrow> -1 | Some p \<Rightarrow> GetSendPipe p)
          in (True, forked pid (on_object (child_of this f) (SetPid pid \<circ> SetSendPipe send) (fam_heap f)) f))"

text \<open>The loops of \<open>SpawnProcess(Process *, int)\<close> and \<open>SpawnProcessWithPipe\<close>: one answer of \<open>fork\<close> for each round.\<close>

fun spawn_loop :: "nat \<Rightarrow> nat option \<Rightarrow> (int \<Rightarrow> Process \<Rightarrow> Process) \<Rightarrow> (int \<Rightarrow> Process \<Rightarrow> Process) \<Rightarrow> int option list \<Rightarrow>
    family \<Rightarrow> bool \<times> family" where
  "spawn_loop this obj in_child in_parent [] f = (True, f)"
| "spawn_loop this obj in_child in_parent (None # forks) f = (False, f)"
| "spawn_loop this obj in_child in_parent (Some pid # forks) f =
     spawn_loop this obj in_child in_parent forks
       (here this (in_parent pid) (forked pid (on_object obj (in_child pid) (fam_heap f)) f))"

definition SpawnProcess_count :: "nat \<Rightarrow> nat option \<Rightarrow> int option list \<Rightarrow> family \<Rightarrow> bool \<times> family" where
  "SpawnProcess_count this obj forks f =
     spawn_loop this obj SetPid parent_started forks
       (here this (\<lambda>p. p\<lparr>m_pChild := obj\<rparr>) f)"

definition SpawnProcessWithPipe :: "nat \<Rightarrow> nat option \<Rightarrow> (int \<times> int) option \<Rightarrow> int option list \<Rightarrow> family \<Rightarrow> bool \<times> family" where
  \<comment> \<open>a failed \<open>pipe\<close> returns -1 from a function that returns \<open>bool\<close>\<close>
  "SpawnProcessWithPipe this obj pp forks f =
     (let f0 = here this (\<lambda>p. p\<lparr>m_pChild := obj\<rparr>) f in
      case pp of None \<Rightarrow> ((-1 :: int) \<noteq> 0, f0)
      | Some (r, w) \<Rightarrow>
          spawn_loop this obj (\<lambda>pid. SetPid pid \<circ> SetSendPipe w)
            (\<lambda>pid p. parent_started pid (SetSendPipe w (SetRecvPipe r p))) forks f0)"

section \<open>Watching\<close>

datatype wait_status = WExited | WSignaled | WStopped

text \<open>\<open>waitpid(-1, &status, WUNTRACED | WNOHANG)\<close>: \<open>None\<close> for a result up to 0.\<close>

definition WatchChildProcess :: "nat \<Rightarrow> (int \<times> wait_status) option \<Rightarrow> int option \<Rightarrow> family \<Rightarrow> bool \<times> family" where
  "WatchChildProcess this wt fk f =
     (case wt of None \<Rightarrow> (True, f)
      | Some _ \<Rightarrow> (case SpawnChildProcess this fk f of (ok, f') \<Rightarrow> if \<not> ok then (False, f') else (True, f')))"

definition WatchChildProcessWithPipe :: "nat \<Rightarrow> (int \<times> wait_status) option \<Rightarrow> int option \<Rightarrow> family \<Rightarrow> bool \<times> family" where
  "WatchChildProcessWithPipe this wt fk f =
     (case wt of None \<Rightarrow> (True, f)
      | Some _ \<Rightarrow> (case SpawnChildProcessWithPipe this fk f of (ok, f') \<Rightarrow> if \<not> ok then (False, f') else (True, f')))"

text \<open>What the kernel may answer, and how its view of the children changes.\<close>

definition waited :: "(int \<times> wait_status) option \<Rightarrow> family \<Rightarrow> family option" where
  "waited wt f =
     (case wt of None \<Rightarrow> Some f
      | Some (pid, WStopped) \<Rightarrow> if pid \<in> fam_stops f then Some (f\<lparr>fam_stops := fam_stops f - {pid}\<rparr>) else None
      | Some (pid, _) \<Rightarrow> if pid \<in> fam_dead f then Some (f\<lparr>fam_dead := fam_dead f - {pid}\<rparr>) else None)"

definition fork_fits :: "int option \<Rightarrow> family \<Rightarrow> bool" where
  \<comment> \<open>a new child has an id that no child has, not even a dead one\<close>
  "fork_fits fk f \<longleftrightarrow> (case fk of None \<Rightarrow> True | Some pid \<Rightarrow> pid \<notin> dom (fam_alive f) \<and> pid \<notin> fam_dead f)"

fun forks_fit :: "int option list \<Rightarrow> family \<Rightarrow> bool" where
  "forks_fit [] f \<longleftrightarrow> True"
| "forks_fit (None # forks) f \<longleftrightarrow> forks_fit forks f"
| "forks_fit (Some pid # forks) f \<longleftrightarrow> pid \<notin> dom (fam_alive f) \<and> pid \<notin> fam_dead f \<and> Some pid \<notin> set forks \<and> forks_fit forks f"

text \<open>The life of the family: children die, are stopped and continued, the manager watches. The number counts
  the reports of stopped children less the failed forks.\<close>

inductive fam_run :: "nat \<Rightarrow> nat \<Rightarrow> int option list \<Rightarrow> family \<Rightarrow> int \<Rightarrow> bool" for this obj forks where
  fork_all: "fam_heap f this = Some p \<Longrightarrow> fam_heap f obj = Some q \<Longrightarrow> this \<noteq> obj \<Longrightarrow>
     fam_alive f = Map.empty \<Longrightarrow> fam_dead f = {} \<Longrightarrow> fam_stops f = {} \<Longrightarrow> forks_fit forks f \<Longrightarrow>
     fam_run this obj forks (snd (SpawnProcess_count this (Some obj) forks f)) 0"
| dies: "fam_run this obj forks f d \<Longrightarrow> fam_alive f pid = Some h \<Longrightarrow>
     fam_run this obj forks (f\<lparr>fam_alive := (fam_alive f)(pid := None), fam_dead := insert pid (fam_dead f),
       fam_stops := fam_stops f - {pid}\<rparr>) d"
| stops: "fam_run this obj forks f d \<Longrightarrow> fam_alive f pid = Some h \<Longrightarrow>
     fam_run this obj forks (f\<lparr>fam_stops := insert pid (fam_stops f)\<rparr>) d"
| continues: "fam_run this obj forks f d \<Longrightarrow> fam_run this obj forks (f\<lparr>fam_stops := fam_stops f - {pid}\<rparr>) d"
| watch: "fam_run this obj forks f d \<Longrightarrow> waited wt f = Some f1 \<Longrightarrow> fork_fits fk f1 \<Longrightarrow>
     fam_run this obj forks (snd (WatchChildProcess this wt fk f1))
       (d + (case wt of Some (_, WStopped) \<Rightarrow> 1 | _ \<Rightarrow> 0)
          - (if wt \<noteq> None \<and> fk = None then 1 else 0))"

section \<open>The population\<close>

definition population :: "family \<Rightarrow> int" where
  "population f = int (card (dom (fam_alive f)) + card (fam_dead f))"

definition fam_wf :: "nat \<Rightarrow> nat \<Rightarrow> family \<Rightarrow> bool" where
  "fam_wf this obj f \<longleftrightarrow> finite (dom (fam_alive f)) \<and> finite (fam_dead f) \<and> dom (fam_alive f) \<inter> fam_dead f = {} \<and>
     fam_stops f \<subseteq> dom (fam_alive f) \<and> this \<noteq> obj \<and>
     (\<exists>p q. fam_heap f this = Some p \<and> m_pChild p = Some obj \<and> fam_heap f obj = Some q) \<and>
     (\<forall>pid h. fam_alive f pid = Some h \<longrightarrow> (\<exists>q. h obj = Some q \<and> m_Pid q = pid))"

definition forks_made :: "int option list \<Rightarrow> nat" where
  "forks_made forks = length (takeWhile (\<lambda>x. x \<noteq> None) forks)"

lemma forked_wf:
  assumes "fam_wf this obj f" "fork_fits (Some pid) f" "on_object (Some obj) (SetPid pid) (fam_heap f) = Some h"
  shows "fam_wf this obj (forked pid (Some h) f)" "population (forked pid (Some h) f) = population f + 1"
  using assms by (auto simp: fam_wf_def forked_def fork_fits_def on_object_def SetPid_def population_def split: option.splits)

lemma here_sel [simp]:
  "fam_alive (here this g f) = fam_alive f" "fam_dead (here this g f) = fam_dead f" "fam_stops (here this g f) = fam_stops f"
  by (simp_all add: here_def split: option.split)

lemma here_heap: "fam_heap f this = Some p \<Longrightarrow> fam_heap (here this g f) = (fam_heap f)(this \<mapsto> g p)"
  by (simp add: here_def on_object_def)

lemma here_wf:
  assumes "fam_wf this obj f" "\<And>p. m_pChild (g p) = m_pChild p"
  shows "fam_wf this obj (here this g f)" "population (here this g f) = population f"
proof -
  obtain p where "fam_heap f this = Some p" using assms(1) by (auto simp: fam_wf_def)
  then show "fam_wf this obj (here this g f)"
    using assms by (auto simp: fam_wf_def here_heap)
  show "population (here this g f) = population f" by (simp add: population_def)
qed

lemma forked_child:
  assumes "fam_wf this obj f"
  obtains h where "on_object (Some obj) (SetPid pid) (fam_heap f) = Some h"
  using assms by (auto simp: fam_wf_def on_object_def)

lemma forked_sel: "fam_alive (forked pid (Some h) f) = (fam_alive f)(pid \<mapsto> h)" "fam_dead (forked pid (Some h) f) = fam_dead f"
  by (simp_all add: forked_def)

lemma forks_fit_step:
  assumes "forks_fit forks f" "Some pid \<notin> set forks" "dom (fam_alive g) \<subseteq> insert pid (dom (fam_alive f))" "fam_dead g = fam_dead f"
  shows "forks_fit forks g"
  using assms
proof (induction forks)
  case (Cons x forks)
  then show ?case by (cases x) auto
qed simp

lemma forks_made_simps [simp]:
  "forks_made [] = 0" "forks_made (None # forks) = 0" "forks_made (Some pid # forks) = Suc (forks_made forks)"
  by (simp_all add: forks_made_def)

lemma spawn_loop_wf:
  assumes "fam_wf this obj f" "forks_fit forks f"
  shows "fam_wf this obj (snd (spawn_loop this (Some obj) SetPid parent_started forks f)) \<and>
    population (snd (spawn_loop this (Some obj) SetPid parent_started forks f)) =
      population f + int (forks_made forks)"
  using assms
proof (induction forks arbitrary: f)
  case (Cons x forks)
  show ?case
  proof (cases x)
    case (Some pid)
    obtain h where h: "on_object (Some obj) (SetPid pid) (fam_heap f) = Some h" by (rule forked_child [OF Cons.prems(1)])
    let ?f1 = "forked pid (Some h) f" and ?g = "parent_started pid"
    have fit: "fork_fits (Some pid) f" "Some pid \<notin> set forks" "forks_fit forks f"
      using Cons.prems(2) Some by (simp_all add: fork_fits_def)
    note w = forked_wf [OF Cons.prems(1) fit(1) h]
    have "m_pChild (?g p) = m_pChild p" for p by (simp add: parent_started_def SetPid_def Process_SetStarted_def)
    note w2 = here_wf [OF w(1) this]
    have "forks_fit forks (here this ?g ?f1)"
      by (rule forks_fit_step [OF fit(3,2)]) (auto simp: forked_sel)
    from Cons.IH [OF w2(1) this] show ?thesis using Some h w w2 by simp
  qed (use Cons.prems in simp)
qed simp

lemma watch_wf:
  assumes wf: "fam_wf this obj f" and w: "waited wt f = Some f1" and k: "fork_fits fk f1"
  shows "fam_wf this obj (snd (WatchChildProcess this wt fk f1))"
    "population (snd (WatchChildProcess this wt fk f1)) =
       population f + (case wt of Some (_, WStopped) \<Rightarrow> 1 | _ \<Rightarrow> 0) - (if wt \<noteq> None \<and> fk = None then 1 else 0)"
proof -
  have "fam_wf this obj f1 \<and> population f1 = population f - (case wt of None \<Rightarrow> 0 | Some (_, WStopped) \<Rightarrow> 0 | _ \<Rightarrow> 1)"
  proof (cases wt)
    case None
    then show ?thesis using wf w by (simp add: waited_def)
  next
    case (Some x)
    obtain pid st where x: "x = (pid, st)" by (cases x)
    show ?thesis
    proof (cases "st = WStopped")
      case True
      then have d: "f1 = f\<lparr>fam_stops := fam_stops f - {pid}\<rparr>"
        using w Some x by (simp add: waited_def split: if_splits)
      moreover have "fam_wf this obj f1" using wf d by (auto simp: fam_wf_def)
      ultimately show ?thesis using True Some x by (simp add: population_def)
    next
      case False
      then have d: "pid \<in> fam_dead f" "f1 = f\<lparr>fam_dead := fam_dead f - {pid}\<rparr>"
        using w Some x by (cases st; simp add: waited_def split: if_splits)+
      have "card (fam_dead f) = Suc (card (fam_dead f - {pid}))"
        using wf d(1) by (intro card.remove) (simp_all add: fam_wf_def)
      moreover have "fam_wf this obj f1" using wf d by (auto simp: fam_wf_def)
      ultimately show ?thesis using False d(2) Some x by (cases st) (auto simp: population_def)
    qed
  qed
  then have f1: "fam_wf this obj f1" "population f1 = population f - (case wt of None \<Rightarrow> 0 | Some (_, WStopped) \<Rightarrow> 0 | _ \<Rightarrow> 1)"
    by simp_all
  have child: "child_of this f1 = Some obj" using f1(1) by (auto simp: fam_wf_def child_of_def)
  define h where "h pid = the (on_object (Some obj) (SetPid pid) (fam_heap f1))" for pid
  have h: "on_object (Some obj) (SetPid pid) (fam_heap f1) = Some (h pid)" for pid
    by (rule forked_child [OF f1(1), of pid]) (simp add: h_def)
  have split: "(case wt of None \<Rightarrow> (0 :: int) | Some (_, WStopped) \<Rightarrow> 0 | _ \<Rightarrow> 1) + (case wt of Some (_, WStopped) \<Rightarrow> 1 | _ \<Rightarrow> 0) =
      (if wt = None then 0 else 1)"
    by (auto split: option.split wait_status.split)
  have "fam_wf this obj (snd (WatchChildProcess this wt fk f1)) \<and> population (snd (WatchChildProcess this wt fk f1)) =
      population f1 + (if wt \<noteq> None \<and> fk \<noteq> None then 1 else 0)"
    using f1(1) k child h
    by (cases wt; cases fk) (auto simp: WatchChildProcess_def SpawnChildProcess_def forked_wf [OF f1(1) _ h])
  with f1(2) split show "fam_wf this obj (snd (WatchChildProcess this wt fk f1))"
    "population (snd (WatchChildProcess this wt fk f1)) =
       population f + (case wt of Some (_, WStopped) \<Rightarrow> 1 | _ \<Rightarrow> 0) - (if wt \<noteq> None \<and> fk = None then 1 else 0)"
    by (auto split: if_splits)
qed

lemma fam_run_wf: "fam_run this obj forks f d \<Longrightarrow> fam_wf this obj f \<and> population f = int (forks_made forks) + d"
proof (induction rule: fam_run.induct)
  case (fork_all f p q)
  let ?f = "here this (\<lambda>p. p\<lparr>m_pChild := Some obj\<rparr>) f"
  have wf: "fam_wf this obj ?f" and pop: "population ?f = 0"
    using fork_all by (simp_all add: fam_wf_def here_heap population_def)
  have "forks_fit forks ?f"
    using fork_all.hyps(7)
    by (induction forks) (auto elim: forks_fit.elims split: option.splits simp: forks_fit.simps)
  from spawn_loop_wf [OF wf this] pop show ?case by (simp add: SpawnProcess_count_def)
next
  case (dies f d pid h)
  then have "card (dom (fam_alive f)) = Suc (card (dom (fam_alive f) - {pid}))"
    by (intro card.remove) (auto simp: fam_wf_def)
  moreover have "pid \<notin> fam_dead f" using dies by (auto simp: fam_wf_def)
  ultimately show ?case using dies by (auto simp: fam_wf_def population_def split: if_splits)
next
  case (watch f d wt f1 fk)
  then show ?case using watch_wf [of this obj f wt f1 fk] by simp
qed (auto simp: fam_wf_def population_def)

text \<open>C12: After \<open>SpawnProcess(p, n)\<close>, through any sequence of children dying, being stopped and continued, and
  rounds of the manager, there are as many children (alive or dead and not yet waited for) as the first
  forks made, plus one for every report of a stopped child (which restarts a child that is not dead) and
  minus one for every restart whose \<open>fork\<close> failed (nothing tries it again). Every live child runs on a
  \<open>Process\<close> object that carries the child's own id.\<close>

theorem children_supervised:
  assumes "fam_run this obj forks f d"
  shows "population f = int (forks_made forks) + d \<and>
    (\<forall>pid h. fam_alive f pid = Some h \<longrightarrow> (\<exists>q. h obj = Some q \<and> GetPid q = pid))"
  using fam_run_wf [OF assms] by (auto simp: fam_wf_def GetPid_def)

text \<open>Two children, the first killed and restarted, the second stopped: then there are three.\<close>

definition demo_family :: family where
  "demo_family = \<lparr>fam_heap = [0 \<mapsto> Process_new, 1 \<mapsto> Process_new], fam_alive = Map.empty, fam_stops = {}, fam_dead = {}\<rparr>"

definition demo_forks :: "int option list" where "demo_forks = [Some 10, Some 11]"

theorem children_supervised_witness:
  "\<exists>f. fam_run 0 1 demo_forks f 1 \<and> population f = 3"
proof -
  let ?f0 = "snd (SpawnProcess_count 0 (Some 1) demo_forks demo_family)"
  let ?f1 = "?f0\<lparr>fam_alive := (fam_alive ?f0)(10 := None), fam_dead := insert 10 (fam_dead ?f0), fam_stops := fam_stops ?f0 - {10}\<rparr>"
  let ?f2 = "snd (WatchChildProcess 0 (Some (10, WSignaled)) (Some 12) (?f1\<lparr>fam_dead := fam_dead ?f1 - {10}\<rparr>))"
  let ?f3 = "?f2\<lparr>fam_stops := insert 11 (fam_stops ?f2)\<rparr>"
  let ?f4 = "snd (WatchChildProcess 0 (Some (11, WStopped)) (Some 13) (?f3\<lparr>fam_stops := fam_stops ?f3 - {11}\<rparr>))"
  note ev = demo_forks_def demo_family_def SpawnProcess_count_def here_def on_object_def forked_def waited_def fork_fits_def
    WatchChildProcess_def SpawnChildProcess_def child_of_def parent_started_def SetPid_def Process_SetStarted_def Process_new_def
  have "fam_run 0 1 demo_forks ?f0 0"
    by (rule fam_run.fork_all) (simp_all add: demo_forks_def demo_family_def)
  then have r1: "fam_run 0 1 demo_forks ?f1 0" by (rule fam_run.dies) (simp add: ev)
  have "waited (Some (10, WSignaled)) ?f1 = Some (?f1\<lparr>fam_dead := fam_dead ?f1 - {10}\<rparr>)"
    and "fork_fits (Some 12) (?f1\<lparr>fam_dead := fam_dead ?f1 - {10}\<rparr>)" by (simp_all add: ev)
  from fam_run.watch [OF r1 this] have "fam_run 0 1 demo_forks ?f2 0" by simp
  then have r3: "fam_run 0 1 demo_forks ?f3 0" by (rule fam_run.stops) (simp add: ev)
  have "waited (Some (11, WStopped)) ?f3 = Some (?f3\<lparr>fam_stops := fam_stops ?f3 - {11}\<rparr>)"
    and "fork_fits (Some 13) (?f3\<lparr>fam_stops := fam_stops ?f3 - {11}\<rparr>)" by (simp_all add: ev)
  from fam_run.watch [OF r3 this] have r: "fam_run 0 1 demo_forks ?f4 1" by simp
  from r children_supervised [OF r] show ?thesis by (auto simp: demo_forks_def)
qed

end
