(* ===== verification/NPLog.thy ===== *)
theory NPLog
  imports NPUtilStr "HOL-Library.Sublist"
begin

text \<open>
  The log file (src/NPLog.cpp): rotation into the directory \<open>old_log\<close>, the log line, the hex dump. The file
  system is names, inodes and descriptors; what its calls answer and the clocks they are read with are a record,
  one for each call of the logger. \<open>vsprintf\<close> has done its work: a message is its formatted text. A path names
  a regular file; \<open>basename\<close> is the GNU one.
\<close>

section \<open>Numbers in decimal\<close>

fun dec :: "nat \<Rightarrow> string" where
  "dec n = (if n < 10 then [] else dec (n div 10)) @ [char_of (48 + n mod 10)]"

declare dec.simps [simp del]

definition zpad :: "nat \<Rightarrow> int \<Rightarrow> string" where
  \<comment> \<open>\<open>%0wd\<close>\<close>
  "zpad w n =
     (let s = dec (nat \<bar>n\<bar>); sign = (if n < 0 then ''-'' else '''')
      in sign @ replicate (w - length sign - length s) (CHR ''0'') @ s)"

section \<open>Files\<close>

record files =
  fl_names :: "(string \<times> nat) list"
  fl_dirs :: "string list"
  fl_data :: "nat \<Rightarrow> string"
  fl_next :: nat
  fl_fds :: "int \<rightharpoonup> nat \<times> nat"

definition fopen_w :: "int option \<Rightarrow> string \<Rightarrow> 'z files_scheme \<Rightarrow> (int \<times> 'z files_scheme) option" where
  \<comment> \<open>\<open>fopen(path, "w")\<close> and \<open>fileno\<close>: \<open>fd\<close> is the descriptor, or nothing on failure\<close>
  "fopen_w fd path f =
     (case fd of None \<Rightarrow> None
      | Some d \<Rightarrow>
          if path \<in> set (fl_dirs f) then None
          else let (i, f1) = (case map_of (fl_names f) path of Some i \<Rightarrow> (i, f)
                | None \<Rightarrow> (fl_next f, f\<lparr>fl_names := (path, fl_next f) # fl_names f, fl_next := Suc (fl_next f)\<rparr>))
          in Some (d, f1\<lparr>fl_data := (fl_data f1)(i := []), fl_fds := (fl_fds f1)(d \<mapsto> (i, 0))\<rparr>))"

definition file_close :: "int \<Rightarrow> 'z files_scheme \<Rightarrow> 'z files_scheme" where
  "file_close d f = f\<lparr>fl_fds := (fl_fds f)(d := None)\<rparr>"

definition file_write :: "nat option \<Rightarrow> int \<Rightarrow> string \<Rightarrow> 'z files_scheme \<Rightarrow> 'z files_scheme" where
  \<comment> \<open>\<open>n\<close> is how many bytes were taken, nothing if \<open>write\<close> failed\<close>
  "file_write n d s f =
     (case fl_fds f d of None \<Rightarrow> f
      | Some (i, off) \<Rightarrow> (case n of None \<Rightarrow> f
          | Some k \<Rightarrow>
              let bs = take k s; old = fl_data f i in
              f\<lparr>fl_data := (fl_data f)(i := take off old @ replicate (off - length old) NUL @ bs @ drop (off + length bs) old),
                fl_fds := (fl_fds f)(d \<mapsto> (i, off + length bs))\<rparr>))"

definition file_rename :: "bool \<Rightarrow> string \<Rightarrow> string \<Rightarrow> 'z files_scheme \<Rightarrow> 'z files_scheme" where
  "file_rename ok a b f =
     (case map_of (fl_names f) a of None \<Rightarrow> f
      | Some i \<Rightarrow> if \<not> ok \<or> b \<in> set (fl_dirs f) then f
          else f\<lparr>fl_names := (b, i) # filter (\<lambda>(q, _). q \<noteq> a \<and> q \<noteq> b) (fl_names f)\<rparr>)"

definition contents :: "'z files_scheme \<Rightarrow> string \<Rightarrow> string option" where
  "contents f path = map_option (fl_data f) (map_of (fl_names f) path)"

definition dir_entries :: "string \<Rightarrow> 'z files_scheme \<Rightarrow> string list" where
  "dir_entries d f =
     ''.'' # ''..'' # filter (\<lambda>e. CHR ''/'' \<notin> set e)
       (map (drop (length d + 1)) (filter (prefix (d @ ''/'')) (map fst (fl_names f) @ fl_dirs f)))"

section \<open>Names\<close>

definition basename :: "string \<Rightarrow> string" where
  "basename p = rev (takeWhile (\<lambda>c. c \<noteq> CHR ''/'') (rev p))"
definition dir_part :: "string \<Rightarrow> string" where
  "dir_part p = take (length p - length (basename p)) p"
definition old_log :: "string \<Rightarrow> string" where
  "old_log p = dir_part p @ ''old_log''"

section \<open>CNPLog\<close>

record CNPLog = files +
  m_iLogFd :: int
  m_iDay :: int
  m_pchFileName :: string

definition MAX_FILE_NAME :: nat where "MAX_FILE_NAME = 256"
definition MAX_LOGLINE_SIZE :: nat where "MAX_LOGLINE_SIZE = 1024"
definition MAX_LOG_FILE_SIZE :: "32 word" where "MAX_LOG_FILE_SIZE = 1000000000"

text \<open>What the environment answers: the clock (\<open>tm_year\<close>, \<open>tm_mon\<close>, \<open>tm_mday\<close> and the time of day), the two readings
  of \<open>GetCurDay\<close>, whether \<open>stat\<close> finds out whether the directory exists, \<open>mkdir\<close>, \<open>rename\<close>, \<open>fopen\<close> (twice) and \<open>write\<close>.\<close>

record log_env =
  lv_date :: "int \<times> int \<times> int"
  lv_time :: "int \<times> int \<times> int"
  lv_day1 :: int
  lv_day2 :: int
  lv_stat :: bool
  lv_mkdir :: bool
  lv_rename :: bool
  lv_open1 :: "int option"
  lv_open2 :: "int option"
  lv_write :: "nat option"

definition OpenFd :: "int option \<Rightarrow> CNPLog \<Rightarrow> (int \<times> CNPLog) res" where
  "OpenFd fd l =
     bindR (c_str (m_pchFileName l)) (\<lambda>path.
       Inr (case fopen_w fd path l of None \<Rightarrow> (-1, l) | Some (d, l') \<Rightarrow> (0, l'\<lparr>m_iLogFd := d\<rparr>)))"

definition FileSize :: "string \<Rightarrow> 'z files_scheme \<Rightarrow> int" where
  "FileSize path f =
     (case contents f path of None \<Rightarrow> -1 | Some s \<Rightarrow> sint (word_of_int (int (length s)) :: 32 word))"

definition FileCount :: "string \<Rightarrow> string \<Rightarrow> 'z files_scheme \<Rightarrow> nat" where
  "FileCount dir name f =
     (if dir \<in> set (fl_dirs f) then length (filter (prefix name) (dir_entries dir f)) else 0)"

definition date6 :: "log_env \<Rightarrow> string" where
  "date6 e = (case lv_date e of (y, m, d) \<Rightarrow> zpad 2 (y mod 100) @ zpad 2 (m + 1) @ zpad 2 d)"

definition backup_name :: "string \<Rightarrow> string \<Rightarrow> nat \<Rightarrow> string" where
  \<comment> \<open>the second \<open>sprintf\<close> appends the number to its own argument\<close>
  "backup_name path date n =
     old_log path @ ''/'' @ basename path @ ''.'' @ date @ (if n = 0 then '''' else ''_'' @ dec n)"

definition BackupLogFile :: "log_env \<Rightarrow> CNPLog \<Rightarrow> CNPLog res" where
  "BackupLogFile e l =
     bindR (c_str (m_pchFileName l)) (\<lambda>path.
       let old = old_log path; there = (old \<in> set (fl_dirs l) \<or> old \<in> fst ` set (fl_names l)) in
       if \<not> lv_stat e \<or> \<not> there \<and> \<not> lv_mkdir e then Inr l
       else
         let l1 = (if there then l else l\<lparr>fl_dirs := old # fl_dirs l\<rparr>);
             n = FileCount old (basename path @ ''.'' @ date6 e) l1
         in Inr (file_rename (lv_rename e \<and> old \<in> set (fl_dirs l1)) path (backup_name path (date6 e) n) l1))"

definition SetFileName :: "log_env \<Rightarrow> string \<Rightarrow> CNPLog \<Rightarrow> (int \<times> CNPLog) res" where
  "SetFileName e name l =
     bindR (strncpy (replicate MAX_FILE_NAME NUL) name MAX_FILE_NAME) (\<lambda>a.
     bindR (BackupLogFile e (l\<lparr>m_iDay := lv_day1 e, m_pchFileName := a\<rparr>)) (\<lambda>l'.
       OpenFd (lv_open1 e) l'))"

definition syslog_date_ch :: "log_env \<Rightarrow> CNPLog \<Rightarrow> CNPLog res" where
  "syslog_date_ch e l =
     bindR (c_str (m_pchFileName l)) (\<lambda>path.
       if m_iDay l \<noteq> lv_day1 e \<or> MAX_LOG_FILE_SIZE < word_of_int (FileSize path l)
       then bindR (BackupLogFile e ((file_close (m_iLogFd l) l)\<lparr>m_iDay := lv_day2 e, m_iLogFd := -1\<rparr>)) (\<lambda>l'.
         bindR (OpenFd (lv_open1 e) l') (\<lambda>(_, l''). Inr l''))
       else Inr l)"

definition log_date :: "log_env \<Rightarrow> string" where
  "log_date e = (case lv_date e of (y, m, d) \<Rightarrow> zpad 4 (y + 1900) @ zpad 2 (m + 1) @ zpad 2 d)"
definition log_time :: "log_env \<Rightarrow> string" where
  "log_time e = (case lv_time e of (h, m, s) \<Rightarrow> zpad 2 h @ zpad 2 m @ zpad 2 s)"

definition log_line :: "log_env \<Rightarrow> string \<Rightarrow> string" where
  "log_line e text = log_date e @ '' '' @ log_time e @ '' : '' @ text @ [CHR 0x0A]"

text \<open>The end of \<open>Log\<close> and \<open>LogWithOutLineFeed\<close>: a file that is gone is opened again, then one \<open>write\<close>.\<close>

definition log_write :: "log_env \<Rightarrow> string \<Rightarrow> CNPLog \<Rightarrow> CNPLog res" where
  "log_write e s l =
     bindR (c_str (m_pchFileName l)) (\<lambda>path.
     bindR (if m_iLogFd l \<le> 0 \<or> FileSize path l < 0 then bindR (OpenFd (lv_open2 e) l) (\<lambda>(_, l'). Inr l') else Inr l) (\<lambda>l'.
       Inr (file_write (lv_write e) (m_iLogFd l') s l')))"

definition Log :: "log_env \<Rightarrow> string \<Rightarrow> CNPLog \<Rightarrow> CNPLog res" where
  "Log e text l =
     (if m_iLogFd l < 0 then Inr l
      else bindR (syslog_date_ch e l) (\<lambda>l1.
        if 2 * MAX_LOGLINE_SIZE \<le> length text \<or> 20 \<le> length (log_date e) \<or> 20 \<le> length (log_time e) then Inl OutOfBounds
        else log_write e (log_line e text) l1))"

definition LogWithOutLineFeed :: "log_env \<Rightarrow> string \<Rightarrow> CNPLog \<Rightarrow> CNPLog res" where
  "LogWithOutLineFeed e text l =
     bindR (syslog_date_ch e l) (\<lambda>l1.
       if 2 * MAX_LOGLINE_SIZE \<le> length text then Inl OutOfBounds else log_write e text l1)"

definition BackupLogFile2 :: "string \<Rightarrow> string res" where
  \<comment> \<open>the command given to \<open>system\<close>; both arrays have \<open>PATH_MAX\<close> characters\<close>
  "BackupLogFile2 name =
     (let order = ''rm /root/thunder/'' @ dir_part name @ ''* > /dev/null 2>&1''
      in if 4096 \<le> length (dir_part name) \<or> 4096 \<le> length order then Inl OutOfBounds else Inr order)"

section \<open>Names of backups\<close>

lemma dec_value: "digits_value (dec n) = int n"
proof (induction n rule: dec.induct)
  case (1 n)
  have c: "int (of_char (char_of (48 + n mod 10) :: char)) = 48 + int (n mod 10)" by simp
  show ?case
  proof (cases "n < 10")
    case True
    then show ?thesis using c by (simp add: dec.simps [of n] digits_value_def)
  next
    case False
    have "10 * int (n div 10) + int (n mod 10) = int n" by (metis mult_div_mod_eq of_nat_add of_nat_mult of_nat_numeral)
    then show ?thesis using False 1 c by (simp add: dec.simps [of n] digits_value_snoc)
  qed
qed

lemma dec_inj: "dec m = dec n \<longleftrightarrow> m = n"
  by (metis dec_value of_nat_eq_iff)

lemma dec_length: "n < 10 ^ k \<Longrightarrow> 0 < k \<Longrightarrow> 1 \<le> length (dec n) \<and> length (dec n) \<le> k"
proof (induction k arbitrary: n)
  case (Suc k)
  show ?case
  proof (cases "n < 10")
    case False
    then have "n div 10 < 10 ^ k" "0 < k" using Suc.prems by (cases k; simp add: less_mult_imp_div_less mult.commute)+
    from Suc.IH [OF this] show ?thesis using False by (simp add: dec.simps [of n])
  qed (simp add: dec.simps [of n])
qed simp

lemma zpad_length: "0 \<le> n \<Longrightarrow> nat n < 10 ^ w \<Longrightarrow> 0 < w \<Longrightarrow> length (zpad w n) = w"
  using dec_length [of "nat n" w] by (simp add: zpad_def Let_def)

lemma basename_free: "CHR ''/'' \<notin> set (basename p)"
  by (auto simp: basename_def dest: set_takeWhileD)

lemma dir_part_basename: "dir_part p @ basename p = p"
proof -
  have "rev (dropWhile (\<lambda>c. c \<noteq> CHR ''/'') (rev p)) @ basename p = p"
    by (simp add: basename_def rev_append [symmetric] del: rev_append)
  then show ?thesis by (metis append_eq_conv_conj append_take_drop_id dir_part_def length_append add_diff_cancel_right' append_eq_append_conv)
qed

text \<open>The entries of the backup directory that belong to a day.\<close>

definition day_entries :: "string \<Rightarrow> string \<Rightarrow> 'z files_scheme \<Rightarrow> string list" where
  "day_entries path d f = filter (prefix (basename path @ ''.'' @ d)) (dir_entries (old_log path) f)"

definition entry_name :: "string \<Rightarrow> string \<Rightarrow> nat \<Rightarrow> string" where
  "entry_name path d n = basename path @ ''.'' @ d @ (if n = 0 then '''' else ''_'' @ dec n)"

text \<open>The backups of every day are numbered without gaps.\<close>

definition numbered :: "string \<Rightarrow> 'z files_scheme \<Rightarrow> bool" where
  "numbered path f \<longleftrightarrow> (\<forall>d. length d = 6 \<longrightarrow>
     set (day_entries path d f) = entry_name path d ` {..< length (day_entries path d f)})"

lemma entry_name_inj: "entry_name path d m = entry_name path d n \<longleftrightarrow> m = n"
  by (auto simp: entry_name_def dec_inj)

lemma backup_name_entry: "backup_name path d n = old_log path @ ''/'' @ entry_name path d n"
  by (simp add: backup_name_def entry_name_def)

lemma dec_digits: "c \<in> set (dec n) \<Longrightarrow> isdigit c"
proof (induction n rule: dec.induct)
  case (1 n)
  have "isdigit (char_of (48 + n mod 10))" by (simp add: isdigit_def)
  then show ?case using 1 by (auto simp: dec.simps [of n] split: if_splits)
qed

lemma slash_not_digit: "\<not> isdigit (CHR ''/'')" "\<not> isdigit (CHR ''_'')"
  by (simp_all add: isdigit_def)

lemma entry_name_free: "CHR ''/'' \<notin> set d \<Longrightarrow> CHR ''/'' \<notin> set (entry_name path d n)"
  using basename_free [of path] dec_digits [of "CHR ''/''" n] slash_not_digit by (auto simp: entry_name_def)

lemma in_dir_entries:
  "e \<in> set (dir_entries d f) \<longleftrightarrow> e = ''.'' \<or> e = ''..'' \<or>
     CHR ''/'' \<notin> set e \<and> d @ ''/'' @ e \<in> fst ` set (fl_names f) \<union> set (fl_dirs f)"
proof -
  have "e \<in> drop (length d + 1) ` {q \<in> A. prefix (d @ ''/'') q} \<longleftrightarrow> d @ ''/'' @ e \<in> A" for A :: "string set"
    by (force simp: prefix_def image_iff)
  from this [of "fst ` set (fl_names f) \<union> set (fl_dirs f)"] show ?thesis
    by (auto simp: dir_entries_def)
qed

text \<open>The number that \<open>FileCount\<close> gives is free.\<close>

lemma backup_name_fresh:
  assumes "numbered path f" "length d = 6" "CHR ''/'' \<notin> set d"
  shows "backup_name path d (length (day_entries path d f)) \<notin> fst ` set (fl_names f) \<union> set (fl_dirs f)"
proof
  let ?n = "length (day_entries path d f)"
  assume "backup_name path d ?n \<in> fst ` set (fl_names f) \<union> set (fl_dirs f)"
  then have "entry_name path d ?n \<in> set (dir_entries (old_log path) f)"
    using entry_name_free [OF assms(3)] by (simp add: in_dir_entries backup_name_entry)
  moreover have "prefix (basename path @ ''.'' @ d) (entry_name path d ?n)" by (simp add: entry_name_def)
  ultimately have "entry_name path d ?n \<in> set (day_entries path d f)" by (simp add: day_entries_def)
  then show False using assms(1,2) by (auto simp: numbered_def entry_name_inj)
qed

lemma path_outside: "\<not> prefix (old_log path @ ''/'') path"
proof
  assume "prefix (old_log path @ ''/'') path"
  then have "prefix (dir_part path @ ''old_log/'') (dir_part path @ basename path)"
    by (simp add: old_log_def dir_part_basename)
  then have "prefix ''old_log/'' (basename path)" by simp
  then show False using basename_free [of path] by (auto simp: prefix_def)
qed

lemma day_entries_rename:
  assumes i: "map_of (fl_names f) path = Some i" and n: "n = length (day_entries path d f)"
    and d: "length d = 6" "CHR ''/'' \<notin> set d" "length d' = 6" and num: "numbered path f"
  shows "day_entries path d' (file_rename True path (backup_name path d n) f) =
    (if d' = d then [entry_name path d n] else []) @ day_entries path d' f"
proof -
  let ?b = "backup_name path d n"
  have b: "?b \<notin> fst ` set (fl_names f) \<union> set (fl_dirs f)" using backup_name_fresh [OF num d(1,2)] n by simp
  have "filter (prefix (old_log path @ ''/'')) (map fst (filter (\<lambda>(q, _). q \<noteq> path \<and> q \<noteq> ?b) (fl_names f))) =
      filter (prefix (old_log path @ ''/'')) (map fst (fl_names f))"
    using b path_outside unfolding filter_map o_def filter_filter
    by (intro arg_cong [where f = "map fst"] filter_cong) (auto intro: rev_image_eqI)
  then have "dir_entries (old_log path) (file_rename True path ?b f) =
      ''.'' # ''..'' # entry_name path d n # drop 2 (dir_entries (old_log path) f)"
    using i b entry_name_free [OF d(2)] by (simp add: file_rename_def dir_entries_def backup_name_entry)
  moreover obtain es where es: "dir_entries (old_log path) f = ''.'' # ''..'' # es" by (simp add: dir_entries_def)
  ultimately have ren: "dir_entries (old_log path) (file_rename True path ?b f) = ''.'' # ''..'' # entry_name path d n # es" by simp
  have "\<not> prefix (basename path @ ''.'' @ d') ''.''" "\<not> prefix (basename path @ ''.'' @ d') ''..''"
    using d(3) by (auto simp: prefix_def dest!: arg_cong [where f = length])
  moreover have "prefix (basename path @ ''.'' @ d') (entry_name path d n) \<longleftrightarrow> d' = d"
    using d(1,3) by (auto simp: entry_name_def prefix_def append_eq_append_conv)
  ultimately show ?thesis by (auto simp: day_entries_def ren es)
qed

section \<open>A rotation\<close>

definition tm_ok :: "log_env \<Rightarrow> bool" where
  "tm_ok e \<longleftrightarrow> (case (lv_date e, lv_time e) of ((y, m, d), (h, mi, s)) \<Rightarrow>
     0 \<le> y \<and> y < 8100 \<and> 0 \<le> m \<and> m < 12 \<and> 0 < d \<and> d < 32 \<and> 0 \<le> h \<and> h < 24 \<and> 0 \<le> mi \<and> mi < 60 \<and> 0 \<le> s \<and> s < 61)"

lemma zpad_free: "CHR ''/'' \<notin> set (zpad w n)"
  using dec_digits [of "CHR ''/''"] slash_not_digit by (auto simp: zpad_def Let_def)

lemma date6_ok: "tm_ok e \<Longrightarrow> length (date6 e) = 6 \<and> CHR ''/'' \<notin> set (date6 e)"
  using zpad_free by (auto simp: tm_ok_def date6_def zpad_length split: prod.splits)

lemma log_stamp_fits: "tm_ok e \<Longrightarrow> length (log_date e) = 8 \<and> length (log_time e) = 6"
  by (auto simp: tm_ok_def log_date_def log_time_def zpad_length split: prod.splits)

text \<open>The file system below the log: names and inodes are unique, the backups are numbered.\<close>

definition files_ok :: "string \<Rightarrow> 'z files_scheme \<Rightarrow> bool" where
  "files_ok path f \<longleftrightarrow> path \<notin> set (fl_dirs f) \<and> old_log path \<notin> fst ` set (fl_names f) \<and> old_log path \<noteq> path \<and> numbered path f \<and>
     distinct (map fst (fl_names f)) \<and> distinct (map snd (fl_names f)) \<and> (\<forall>i \<in> snd ` set (fl_names f). i < fl_next f)"

lemma contents_cong: "fl_names f = fl_names g \<Longrightarrow> fl_data f = fl_data g \<Longrightarrow> contents f = contents g"
  by (rule ext) (simp add: contents_def)

lemma day_entries_dirs:
  "day_entries path d (f\<lparr>fl_dirs := old_log path # fl_dirs f\<rparr>) = day_entries path d f"
  by (simp add: day_entries_def dir_entries_def)

lemma map_of_filter_keys: "map_of (filter (\<lambda>(q, _). P q) xs) p = (if P p then map_of xs p else None)"
  by (induction xs) auto

lemma distinct_snd: "distinct (map snd xs) \<Longrightarrow> (a, i) \<in> set xs \<Longrightarrow> (b, i) \<in> set xs \<Longrightarrow> a = b"
  by (force simp: distinct_map inj_on_def)

lemma file_rename_ok:
  assumes ok: "files_ok path f" and d: "length d = 6" "CHR ''/'' \<notin> set d"
    and b: "b = backup_name path d (length (day_entries path d f))"
  shows "files_ok path (file_rename True path b f) \<and> map_of (fl_names (file_rename True path b f)) path = None \<and>
    (\<forall>p s. p \<noteq> path \<longrightarrow> contents f p = Some s \<longrightarrow> contents (file_rename True path b f) p = Some s) \<and>
    (\<forall>s. contents f path = Some s \<longrightarrow> contents f b = None \<and> contents (file_rename True path b f) b = Some s)"
    (is "files_ok path ?g \<and> _")
proof (cases "map_of (fl_names f) path")
  case None
  then show ?thesis using ok by (simp add: file_rename_def contents_def)
next
  case (Some i)
  have num: "numbered path f" using ok by (simp add: files_ok_def)
  note fresh = backup_name_fresh [OF num d, folded b]
  have bp: "b \<noteq> path" using path_outside [of path] unfolding b backup_name_entry by (metis append.assoc prefixI)
  have bo: "b \<noteq> old_log path" by (simp add: b backup_name_entry)
  have g: "?g = f\<lparr>fl_names := (b, i) # filter (\<lambda>(q, _). q \<noteq> path \<and> q \<noteq> b) (fl_names f)\<rparr>"
    using Some fresh by (simp add: file_rename_def)
  have m: "map_of (fl_names ?g) p = (if p = b then Some i else if p = path then None else map_of (fl_names f) p)" for p
    using map_of_filter_keys [of "\<lambda>q. q \<noteq> path \<and> q \<noteq> b" "fl_names f"] by (simp add: g)
  have "numbered path ?g"
    unfolding numbered_def
  proof (intro allI impI)
    fix d' :: string assume d': "length d' = 6"
    then have old: "set (day_entries path d' f) = entry_name path d' ` {..< length (day_entries path d' f)}"
      using num by (simp add: numbered_def)
    have e: "day_entries path d' ?g = (if d' = d then [entry_name path d (length (day_entries path d f))] else []) @ day_entries path d' f"
      unfolding b by (rule day_entries_rename [OF Some refl d d' num])
    show "set (day_entries path d' ?g) = entry_name path d' ` {..< length (day_entries path d' ?g)}"
    proof (cases "d' = d")
      case True
      have "set (day_entries path d' ?g) = insert (entry_name path d' (length (day_entries path d' f))) (set (day_entries path d' f))"
        unfolding e by (simp add: True)
      also have "\<dots> = entry_name path d' ` {..< Suc (length (day_entries path d' f))}"
        unfolding old by (simp only: lessThan_Suc image_insert)
      finally show ?thesis unfolding e by (simp add: True)
    next
      case False
      then have "day_entries path d' ?g = day_entries path d' f" unfolding e by simp
      then show ?thesis using old by (simp only:)
    qed
  qed
  moreover have mem: "(path, i) \<in> set (fl_names f)" using Some by (rule map_of_SomeD)
  have "q = path" if "(q, i) \<in> set (fl_names f)" for q
    by (rule distinct_snd [OF _ that mem]) (use ok in \<open>simp add: files_ok_def\<close>)
  then have "i \<notin> snd ` set (filter (\<lambda>(q, _). q \<noteq> path \<and> q \<noteq> b) (fl_names f))" by force
  moreover have "i < fl_next f" using ok mem by (force simp: files_ok_def)
  moreover have "distinct (map fst (filter P (fl_names f)))" "distinct (map snd (filter P (fl_names f)))" for P
    using ok by (auto simp: files_ok_def distinct_map inj_on_def)
  ultimately have "files_ok path ?g" using ok bo by (auto simp: files_ok_def g)
  moreover have "contents f b = None" using fresh by (auto simp: contents_def map_of_eq_None_iff)
  moreover have "fl_data ?g = fl_data f" by (simp add: g)
  ultimately show ?thesis using m bp Some by (auto simp: contents_def)
qed

section \<open>A logger at work\<close>

text \<open>The environment does what is asked: the backup is made, the file opened, the whole line written.\<close>

definition lv_works :: "log_env \<Rightarrow> string \<Rightarrow> bool" where
  "lv_works e text \<longleftrightarrow> tm_ok e \<and> lv_stat e \<and> lv_mkdir e \<and> lv_rename e \<and>
     (case lv_open1 e of None \<Rightarrow> False | Some d \<Rightarrow> 0 < d) \<and>
     (case lv_write e of None \<Rightarrow> False | Some k \<Rightarrow> length (log_line e text) \<le> k) \<and> length text < 2 * MAX_LOGLINE_SIZE"

text \<open>The logger writes at the end of the file at its path.\<close>

definition log_ready :: "string \<Rightarrow> string \<Rightarrow> CNPLog \<Rightarrow> bool" where
  "log_ready path cur l \<longleftrightarrow> c_str (m_pchFileName l) = Inr path \<and> 0 < m_iLogFd l \<and> files_ok path l \<and>
     (\<exists>i. map_of (fl_names l) path = Some i \<and> fl_data l i = cur \<and> fl_fds l (m_iLogFd l) = Some (i, length cur))"

text \<open>No file but the log changes.\<close>

definition others_kept :: "string \<Rightarrow> 'z files_scheme \<Rightarrow> 'z files_scheme \<Rightarrow> bool" where
  "others_kept path f g \<longleftrightarrow> (\<forall>p s. p \<noteq> path \<longrightarrow> contents f p = Some s \<longrightarrow> contents g p = Some s)"

text \<open>The log of \<open>f\<close>, if there is one, is a backup in \<open>g\<close>.\<close>

definition backed_up :: "string \<Rightarrow> 'z files_scheme \<Rightarrow> 'z files_scheme \<Rightarrow> bool" where
  "backed_up path f g \<longleftrightarrow> (\<forall>s. contents f path = Some s \<longrightarrow>
     (\<exists>b. b \<noteq> path \<and> prefix (old_log path @ ''/'') b \<and> contents f b = None \<and> contents g b = Some s))"

lemma BackupLogFile_ok:
  assumes "files_ok path l" "c_str (m_pchFileName l) = Inr path" "lv_works e text"
  obtains l' where "BackupLogFile e l = Inr l'" "files_ok path l'" "map_of (fl_names l') path = None"
    "others_kept path l l'" "backed_up path l l'" "m_pchFileName l' = m_pchFileName l"
proof -
  let ?l1 = "if old_log path \<in> set (fl_dirs l) then l else l\<lparr>fl_dirs := old_log path # fl_dirs l\<rparr>"
  let ?d = "date6 e"
  have d: "length ?d = 6" "CHR ''/'' \<notin> set ?d" using date6_ok assms(3) by (auto simp: lv_works_def)
  have de: "day_entries path d ?l1 = day_entries path d l" for d by (simp add: day_entries_dirs)
  have ok1: "files_ok path ?l1" using assms(1) by (auto simp: files_ok_def numbered_def de)
  let ?b = "backup_name path ?d (length (day_entries path ?d ?l1))"
  let ?l' = "file_rename True path ?b ?l1"
  note r = file_rename_ok [OF ok1 d refl]
  have c1: "contents ?l1 = contents l" by (rule contents_cong) simp_all
  have fc: "FileCount (old_log path) (basename path @ ''.'' @ ?d) ?l1 = length (day_entries path ?d ?l1)"
    by (simp add: FileCount_def day_entries_def)
  have no: "old_log path \<notin> fst ` set (fl_names l)" using assms(1) by (simp add: files_ok_def)
  show thesis
  proof (rule that [of ?l'])
    show "BackupLogFile e l = Inr ?l'"
      using assms(2,3) no fc by (simp add: BackupLogFile_def Let_def lv_works_def)
    show "m_pchFileName ?l' = m_pchFileName l" by (simp add: file_rename_def split: option.split)
    show "backed_up path l ?l'"
    proof -
      have "?b \<noteq> path" "prefix (old_log path @ ''/'') ?b"
        using path_outside [of path] unfolding backup_name_entry by (metis append.assoc prefixI)+
      then show ?thesis using r unfolding backed_up_def c1 by blast
    qed
  qed (use r in \<open>simp_all add: others_kept_def c1\<close>)
qed

lemma day_entries_cong:
  assumes "filter (prefix (old_log path @ ''/'')) (map fst (fl_names g)) = filter (prefix (old_log path @ ''/'')) (map fst (fl_names f))"
    "fl_dirs g = fl_dirs f"
  shows "day_entries path d g = day_entries path d f"
  using assms by (simp add: day_entries_def dir_entries_def)

lemma files_ok_cong:
  "fl_names g = fl_names f \<Longrightarrow> fl_dirs g = fl_dirs f \<Longrightarrow> fl_next g = fl_next f \<Longrightarrow> files_ok path g = files_ok path f"
  using day_entries_cong [of path g f] by (simp add: files_ok_def numbered_def)

lemma OpenFd_new:
  assumes ok: "files_ok path l" and path: "c_str (m_pchFileName l) = Inr path" "map_of (fl_names l) path = None" and d: "0 < d"
  obtains l' where "OpenFd (Some d) l = Inr (0, l')" "log_ready path [] l'" "others_kept path l l'" "m_pchFileName l' = m_pchFileName l"
proof -
  let ?n = "fl_next l"
  let ?l' = "l\<lparr>fl_names := (path, ?n) # fl_names l, fl_next := Suc ?n, fl_data := (fl_data l)(?n := []),
      fl_fds := (fl_fds l)(d \<mapsto> (?n, 0)), m_iLogFd := d\<rparr>"
  have below: "i < ?n" if "(p, i) \<in> set (fl_names l)" for p i using ok that by (force simp: files_ok_def)
  have de: "day_entries path d' ?l' = day_entries path d' l" for d'
    by (rule day_entries_cong) (simp_all add: path_outside)
  have "path \<notin> fst ` set (fl_names l)" using path(2) by (simp add: map_of_eq_None_iff)
  moreover have "?n \<notin> snd ` set (fl_names l)" using below by fastforce
  moreover have "\<forall>i \<in> snd ` set (fl_names l). i < Suc ?n" using below by fastforce
  ultimately have ok': "files_ok path ?l'" using ok by (auto simp: files_ok_def numbered_def de)
  show thesis
  proof (rule that [of ?l'])
    show "OpenFd (Some d) l = Inr (0, ?l')" using path ok by (simp add: OpenFd_def fopen_w_def files_ok_def)
    show "log_ready path [] ?l'" using path d ok' by (simp add: log_ready_def)
    show "others_kept path l ?l'"
      using below by (fastforce simp: others_kept_def contents_def dest: map_of_SomeD)
  qed simp
qed

lemma log_write_ok:
  assumes ready: "log_ready path cur l" and size: "0 \<le> FileSize path l" and k: "lv_write e = Some k" "length s \<le> k"
  obtains l' where "log_write e s l = Inr l'" "log_ready path (cur @ s) l'" "others_kept path l l'" "m_pchFileName l' = m_pchFileName l"
proof -
  obtain i where i: "c_str (m_pchFileName l) = Inr path" "0 < m_iLogFd l" "files_ok path l" "map_of (fl_names l) path = Some i"
      "fl_data l i = cur" "fl_fds l (m_iLogFd l) = Some (i, length cur)"
    using ready by (auto simp: log_ready_def)
  let ?l' = "l\<lparr>fl_data := (fl_data l)(i := cur @ s), fl_fds := (fl_fds l)(m_iLogFd l \<mapsto> (i, length (cur @ s)))\<rparr>"
  have ok': "files_ok path ?l'" using i(3) files_ok_cong [of ?l' l path] by simp
  have "p = path" if "map_of (fl_names l) p = Some i" for p
    by (rule distinct_snd [of "fl_names l" p i]) (use i(3,4) that in \<open>auto simp: files_ok_def dest: map_of_SomeD\<close>)
  then have kept: "others_kept path l ?l'" by (auto simp: others_kept_def contents_def)
  show thesis
  proof (rule that [of ?l'])
    show "log_write e s l = Inr ?l'" using i size k by (simp add: log_write_def file_write_def)
    show "log_ready path (cur @ s) ?l'" using i ok' by (simp add: log_ready_def)
  qed (use kept in simp_all)
qed

lemma others_kept_trans: "others_kept path f g \<Longrightarrow> others_kept path g h \<Longrightarrow> others_kept path f h"
  by (simp add: others_kept_def)

lemma backed_up_kept: "backed_up path f g \<Longrightarrow> others_kept path g h \<Longrightarrow> backed_up path f h"
  by (fastforce simp: backed_up_def others_kept_def)

lemma log_ready_contents: "log_ready path cur l \<Longrightarrow> contents l path = Some cur"
  by (auto simp: log_ready_def contents_def)

lemma small_file_size:
  assumes "\<not> MAX_LOG_FILE_SIZE < word_of_int (FileSize path l)" "contents l path = Some s"
  shows "0 \<le> FileSize path l"
proof -
  let ?w = "word_of_int (int (length s)) :: 32 word"
  have "FileSize path l = sint ?w" using assms(2) by (simp add: FileSize_def)
  moreover have "uint ?w \<le> 1000000000" using assms(1) calculation by (simp add: MAX_LOG_FILE_SIZE_def word_less_def)
  moreover from this have "sint ?w = uint ?w" unfolding sint_uint
    by (intro signed_take_bit_int_eq_self order_trans [OF _ uint_ge_0]) simp_all
  ultimately show ?thesis by simp
qed

lemma syslog_date_ch_ok:
  assumes ready: "log_ready path cur l" and works: "lv_works e text"
  obtains l' cur' where "syslog_date_ch e l = Inr l'" "log_ready path cur' l'" "others_kept path l l'" "0 \<le> FileSize path l'"
    "l' = l \<and> cur' = cur \<or> cur' = [] \<and> backed_up path l l'"
proof (cases "m_iDay l \<noteq> lv_day1 e \<or> MAX_LOG_FILE_SIZE < word_of_int (FileSize path l)")
  case False
  then show thesis
    using that [of l cur] ready small_file_size [OF _ log_ready_contents [OF ready]]
    by (auto simp: syslog_date_ch_def log_ready_def others_kept_def)
next
  case True
  let ?l0 = "(file_close (m_iLogFd l) l)\<lparr>m_iDay := lv_day2 e, m_iLogFd := -1\<rparr>"
  have path: "c_str (m_pchFileName l) = Inr path" "files_ok path l" using ready by (auto simp: log_ready_def)
  have l0: "files_ok path ?l0" "c_str (m_pchFileName ?l0) = Inr path" "contents ?l0 = contents l"
    using path files_ok_cong [of ?l0 l path] contents_cong [of ?l0 l] by (simp_all add: file_close_def)
  obtain l1 where l1: "BackupLogFile e ?l0 = Inr l1" "files_ok path l1" "map_of (fl_names l1) path = None"
    "others_kept path ?l0 l1" "backed_up path ?l0 l1" "m_pchFileName l1 = m_pchFileName ?l0"
    by (rule BackupLogFile_ok [OF l0(1,2) works])
  obtain d where d: "lv_open1 e = Some d" "0 < d" using works by (auto simp: lv_works_def split: option.splits)
  have p1: "c_str (m_pchFileName l1) = Inr path" using l1(6) l0(2) by simp
  obtain l2 where l2: "OpenFd (Some d) l1 = Inr (0, l2)" "log_ready path [] l2" "others_kept path l1 l2"
    by (rule OpenFd_new [OF l1(2) p1 l1(3) d(2)])
  have k: "others_kept path l l1" "backed_up path l l1" using l1(4,5) by (simp_all add: others_kept_def backed_up_def l0(3))
  have "FileSize path l2 = 0" using log_ready_contents [OF l2(2)] by (simp add: FileSize_def)
  then show thesis
    using that [of l2 "[]"] True path(1) l1(1) l2 d(1) others_kept_trans [OF k(1) l2(3)] backed_up_kept [OF k(2) l2(3)]
    by (simp add: syslog_date_ch_def)
qed

text \<open>One call of \<open>Log\<close>: the line is appended, or it starts a new file after the old one was kept.\<close>

lemma Log_ok:
  assumes ready: "log_ready path cur l" and works: "lv_works e text"
  obtains l' cur' where "Log e text l = Inr l'" "log_ready path (cur' @ log_line e text) l'" "others_kept path l l'"
    "cur' = cur \<or> cur' = [] \<and> backed_up path l l'"
proof -
  obtain l1 cur' where l1: "syslog_date_ch e l = Inr l1" "log_ready path cur' l1" "others_kept path l l1" "0 \<le> FileSize path l1"
    "l1 = l \<and> cur' = cur \<or> cur' = [] \<and> backed_up path l l1"
    by (rule syslog_date_ch_ok [OF ready works])
  obtain k where k: "lv_write e = Some k" "length (log_line e text) \<le> k"
    using works by (auto simp: lv_works_def split: option.splits)
  obtain l2 where l2: "log_write e (log_line e text) l1 = Inr l2" "log_ready path (cur' @ log_line e text) l2" "others_kept path l1 l2"
    by (rule log_write_ok [OF l1(2,4) k])
  show thesis
  proof (rule that [of l2 cur'])
    show "Log e text l = Inr l2"
      using ready works l1(1) l2(1) log_stamp_fits [of e] by (auto simp: Log_def lv_works_def log_ready_def)
    show "cur' = cur \<or> cur' = [] \<and> backed_up path l l2" using l1(5) backed_up_kept [OF _ l2(3)] by blast
  qed (use l2 others_kept_trans [OF l1(3) l2(3)] in simp_all)
qed

fun logs :: "(log_env \<times> string) list \<Rightarrow> CNPLog \<Rightarrow> CNPLog res" where
  "logs [] l = Inr l"
| "logs ((e, text) # calls) l = bindR (Log e text l) (logs calls)"

definition logged :: "(log_env \<times> string) list \<Rightarrow> string" where
  "logged calls = concat (map (\<lambda>(e, text). log_line e text) calls)"

definition is_backup :: "string \<Rightarrow> 'z files_scheme \<Rightarrow> string \<times> string \<Rightarrow> bool" where
  "is_backup path f b \<longleftrightarrow> fst b \<noteq> path \<and> prefix (old_log path @ ''/'') (fst b) \<and> contents f (fst b) = Some (snd b)"

lemma logs_ok:
  assumes "log_ready path cur l" "list_all (\<lambda>(e, text). lv_works e text) calls"
  shows "\<exists>l' bs cur'. logs calls l = Inr l' \<and> log_ready path cur' l' \<and> others_kept path l l' \<and>
    list_all (is_backup path l') bs \<and> list_all (\<lambda>b. contents l (fst b) = None) bs \<and> distinct (map fst bs) \<and>
    concat (map snd bs) @ cur' = cur @ logged calls"
  using assms
proof (induction calls arbitrary: cur l)
  case Nil
  then show ?case by (intro exI [of _ l] exI [of _ "[]"] exI [of _ cur]) (simp add: others_kept_def logged_def)
next
  case (Cons c calls)
  obtain e msg where c: "c = (e, msg)" by (cases c)
  obtain l1 cur1 where l1: "Log e msg l = Inr l1" "log_ready path (cur1 @ log_line e msg) l1" "others_kept path l l1"
    "cur1 = cur \<or> cur1 = [] \<and> backed_up path l l1"
    using Log_ok [OF Cons.prems(1), of e msg] Cons.prems(2) c by auto
  obtain l' bs cur' where r: "logs calls l1 = Inr l'" "log_ready path cur' l'" "others_kept path l1 l'"
    "list_all (is_backup path l') bs" "list_all (\<lambda>b. contents l1 (fst b) = None) bs" "distinct (map fst bs)"
    "concat (map snd bs) @ cur' = (cur1 @ log_line e msg) @ logged calls"
    using Cons.IH [OF l1(2)] Cons.prems(2) by auto
  have old: "list_all (\<lambda>b. contents l (fst b) = None) bs"
    unfolding list_all_iff
  proof
    fix b assume b: "b \<in> set bs"
    then have "contents l1 (fst b) = None" "fst b \<noteq> path" using r(4,5) by (auto simp: list_all_iff is_backup_def)
    then show "contents l (fst b) = None" using l1(3) by (cases "contents l (fst b)") (auto simp: others_kept_def)
  qed
  have kept: "others_kept path l l'" by (rule others_kept_trans [OF l1(3) r(3)])
  have run: "logs (c # calls) l = Inr l'" using l1(1) r(1) c by simp
  show ?case
  proof (cases "cur1 = cur")
    case True
    then show ?thesis using run r(2,4,6,7) kept old c by (intro exI [of _ l'] exI [of _ bs] exI [of _ cur']) (simp add: logged_def)
  next
    case False
    then have "cur1 = []" "backed_up path l l1" using l1(4) by auto
    then obtain b where b: "b \<noteq> path" "prefix (old_log path @ ''/'') b" "contents l b = None" "contents l1 b = Some cur"
      using log_ready_contents [OF Cons.prems(1)] by (auto simp: backed_up_def)
    have "b \<notin> set (map fst bs)" using b(4) r(5) by (auto simp: list_all_iff)
    moreover have "is_backup path l' (b, cur)" using b(1,2,4) r(3) by (simp add: others_kept_def is_backup_def)
    ultimately show ?thesis
      using run r(2,4,6,7) kept old c b \<open>cur1 = []\<close>
      by (intro exI [of _ l'] exI [of _ "(b, cur) # bs"] exI [of _ cur']) (simp add: logged_def)
  qed
qed

text \<open>C25: When the environment does what is asked, no logged line is ever lost, changed or written twice: after
  \<open>SetFileName\<close> and any number of calls of \<open>Log\<close>, across all the rotations that the clock and the size cause,
  the backups made on the way (different files in \<open>old_log\<close>, none of which existed before) followed by the
  log itself hold exactly the logged lines in order. A log that was there before is kept as a backup, and
  no other file changes.\<close>

theorem log_keeps_every_line:
  assumes name: "length path < MAX_FILE_NAME" "NUL \<notin> set path" and files: "files_ok path l"
    and works: "lv_works e0 msg0" "list_all (\<lambda>(e, text). lv_works e text) calls"
  shows "\<exists>l1 l' bs cur. SetFileName e0 path l = Inr (0, l1) \<and> logs calls l1 = Inr l' \<and>
    contents l' path = Some cur \<and> list_all (is_backup path l') bs \<and> distinct (map fst bs) \<and>
    list_all (\<lambda>b. contents l (fst b) = None) bs \<and> concat (map snd bs) @ cur = logged calls \<and>
    others_kept path l l' \<and> backed_up path l l'"
proof -
  let ?buf = "path @ replicate (MAX_FILE_NAME - length path) NUL"
  let ?l0 = "l\<lparr>m_iDay := lv_day1 e0, m_pchFileName := ?buf\<rparr>"
  have buf: "strncpy (replicate MAX_FILE_NAME NUL) path MAX_FILE_NAME = Inr ?buf" "c_str ?buf = Inr path"
    using strncpy_fits [of "replicate MAX_FILE_NAME NUL" MAX_FILE_NAME path] name by simp_all
  have l0: "files_ok path ?l0" "c_str (m_pchFileName ?l0) = Inr path" "contents ?l0 = contents l"
    using files buf(2) files_ok_cong [of ?l0 l path] contents_cong [of ?l0 l] by simp_all
  obtain l1 where l1: "BackupLogFile e0 ?l0 = Inr l1" "files_ok path l1" "map_of (fl_names l1) path = None"
    "others_kept path ?l0 l1" "backed_up path ?l0 l1" "m_pchFileName l1 = m_pchFileName ?l0"
    by (rule BackupLogFile_ok [OF l0(1,2) works(1)])
  obtain d where d: "lv_open1 e0 = Some d" "0 < d" using works(1) by (auto simp: lv_works_def split: option.splits)
  have p1: "c_str (m_pchFileName l1) = Inr path" using l1(6) l0(2) by simp
  obtain l2 where l2: "OpenFd (Some d) l1 = Inr (0, l2)" "log_ready path [] l2" "others_kept path l1 l2"
    by (rule OpenFd_new [OF l1(2) p1 l1(3) d(2)])
  have k: "others_kept path l l1" "backed_up path l l1" using l1(4,5) by (simp_all add: others_kept_def backed_up_def l0(3))
  have k2: "others_kept path l l2" "backed_up path l l2"
    using others_kept_trans [OF k(1) l2(3)] backed_up_kept [OF k(2) l2(3)] by simp_all
  have set: "SetFileName e0 path l = Inr (0, l2)" using buf(1) l1(1) l2(1) d(1) by (simp add: SetFileName_def)
  obtain l' bs cur where r: "logs calls l2 = Inr l'" "log_ready path cur l'" "others_kept path l2 l'"
    "list_all (is_backup path l') bs" "list_all (\<lambda>b. contents l2 (fst b) = None) bs" "distinct (map fst bs)"
    "concat (map snd bs) @ cur = [] @ logged calls"
    using logs_ok [OF l2(2) works(2)] by blast
  have "list_all (\<lambda>b. contents l (fst b) = None) bs"
    unfolding list_all_iff
  proof
    fix b assume "b \<in> set bs"
    then have "contents l2 (fst b) = None" "fst b \<noteq> path" using r(4,5) by (auto simp: list_all_iff is_backup_def)
    then show "contents l (fst b) = None" using k2(1) by (cases "contents l (fst b)") (auto simp: others_kept_def)
  qed
  then show ?thesis
    using set r log_ready_contents [OF r(2)] others_kept_trans [OF k2(1) r(3)] backed_up_kept [OF k2(2) r(3)]
    by (intro exI [of _ l2] exI [of _ l'] exI [of _ bs] exI [of _ cur]) simp
qed

text \<open>Two days: the first line is in the backup, the second in the log.\<close>

definition demo_lv :: "int \<Rightarrow> log_env" where
  "demo_lv day = \<lparr>lv_date = (125, 0, day), lv_time = (12, 0, 0), lv_day1 = day, lv_day2 = day, lv_stat = True, lv_mkdir = True,
     lv_rename = True, lv_open1 = Some 3, lv_open2 = Some 3, lv_write = Some 4096\<rparr>"

definition demo_log :: CNPLog where
  "demo_log = \<lparr>fl_names = [(''log/x'', 0)], fl_dirs = [''log''], fl_data = (\<lambda>_. ''old''), fl_next = 1, fl_fds = Map.empty,
     m_iLogFd = -1, m_iDay = 0, m_pchFileName = replicate 256 NUL\<rparr>"

lemma demo_log_ok: "files_ok ''log/x'' demo_log"
proof -
  have names: "basename ''log/x'' = ''x''" "old_log ''log/x'' = ''log/old_log''"
    by (simp_all add: basename_def old_log_def dir_part_def)
  have "day_entries ''log/x'' d demo_log = []" if "length d = 6" for d
    using that by (auto simp: day_entries_def dir_entries_def names demo_log_def prefix_def)
  then show ?thesis by (simp add: files_ok_def numbered_def names) (simp add: demo_log_def)
qed

lemma demo_lv_ok:
  assumes "0 < d" "d < 32" "length msg < 2048"
  shows "tm_ok (demo_lv d)" "length (log_line (demo_lv d) msg) \<le> 4096" "lv_works (demo_lv d) msg"
proof -
  show t: "tm_ok (demo_lv d)" using assms by (simp add: tm_ok_def demo_lv_def)
  show l: "length (log_line (demo_lv d) msg) \<le> 4096" using assms(3) log_stamp_fits [OF t] by (simp add: log_line_def)
  show "lv_works (demo_lv d) msg"
    using t l assms(3) by (simp add: lv_works_def MAX_LOGLINE_SIZE_def) (simp add: demo_lv_def)
qed

theorem log_keeps_every_line_witness:
  "\<exists>l1 l' bs cur. SetFileName (demo_lv 1) ''log/x'' demo_log = Inr (0, l1) \<and>
    logs [(demo_lv 1, ''a''), (demo_lv 2, ''b'')] l1 = Inr l' \<and> contents l' ''log/x'' = Some cur \<and>
    list_all (is_backup ''log/x'' l') bs \<and> concat (map snd bs) @ cur = logged [(demo_lv 1, ''a''), (demo_lv 2, ''b'')] \<and> backed_up ''log/x'' demo_log l'"
proof -
  have w: "files_ok ''log/x'' demo_log" "lv_works (demo_lv 1) ''''"
      "list_all (\<lambda>(e, text). lv_works e text) [(demo_lv 1, ''a''), (demo_lv 2, ''b'')]"
    using demo_log_ok demo_lv_ok(3) by simp_all
  have n: "length ''log/x'' < MAX_FILE_NAME" "NUL \<notin> set ''log/x''" by (simp_all add: MAX_FILE_NAME_def NUL_def)
  from log_keeps_every_line [OF n w] show ?thesis by blast
qed

section \<open>Rotations that fail\<close>

lemma file_rename_failed [simp]: "file_rename False a b f = f"
  by (simp add: file_rename_def split: option.split)

lemma BackupLogFile_fails:
  assumes "c_str (m_pchFileName l) = Inr path" "files_ok path l" "\<not> (lv_stat e \<and> lv_rename e)"
  obtains D where "BackupLogFile e l = Inr (l\<lparr>fl_dirs := D\<rparr>)" "path \<notin> set D"
proof -
  let ?there = "old_log path \<in> set (fl_dirs l) \<or> old_log path \<in> fst ` set (fl_names l)"
  have p: "path \<notin> set (fl_dirs l)" "path \<notin> set (old_log path # fl_dirs l)" using assms(2) by (auto simp: files_ok_def)
  show thesis
  proof (cases "lv_stat e \<and> \<not> ?there \<and> lv_mkdir e")
    case True
    then have "BackupLogFile e l = Inr (l\<lparr>fl_dirs := old_log path # fl_dirs l\<rparr>)"
      using assms(1,3) by (simp add: BackupLogFile_def Let_def)
    then show thesis using that p by blast
  next
    case False
    then have "BackupLogFile e l = Inr (l\<lparr>fl_dirs := fl_dirs l\<rparr>)"
      using assms(1,3) by (auto simp: BackupLogFile_def Let_def)
    then show thesis using that p by blast
  qed
qed

text \<open>C37: If the backup of a rotation fails (the directory cannot be looked at, or \<open>rename\<close> fails), the log is opened
  for writing all the same, and everything that it held is gone: it holds the new line only, and no other
  file has changed.\<close>

theorem failed_backup_erases_log:
  assumes ready: "log_ready path cur l" and due: "m_iDay l \<noteq> lv_day1 e" and fails: "\<not> (lv_stat e \<and> lv_rename e)"
    and rest: "tm_ok e" "length msg < 2 * MAX_LOGLINE_SIZE" "lv_open1 e = Some d" "0 < d" "lv_write e = Some k" "length (log_line e msg) \<le> k"
  shows "\<exists>l'. Log e msg l = Inr l' \<and> contents l' path = Some (log_line e msg) \<and> (\<forall>p. p \<noteq> path \<longrightarrow> contents l' p = contents l p)"
proof -
  obtain i where i: "c_str (m_pchFileName l) = Inr path" "0 < m_iLogFd l" "files_ok path l" "map_of (fl_names l) path = Some i"
    using ready by (auto simp: log_ready_def)
  let ?l0 = "(file_close (m_iLogFd l) l)\<lparr>m_iDay := lv_day2 e, m_iLogFd := -1\<rparr>"
  have l0: "c_str (m_pchFileName ?l0) = Inr path" "files_ok path ?l0"
    using i files_ok_cong [of ?l0 l path] by (simp_all add: file_close_def)
  obtain D where D: "BackupLogFile e ?l0 = Inr (?l0\<lparr>fl_dirs := D\<rparr>)" "path \<notin> set D"
    by (rule BackupLogFile_fails [OF l0 fails])
  let ?l1 = "?l0\<lparr>fl_dirs := D, fl_data := (fl_data l)(i := []), fl_fds := (fl_fds ?l0)(d \<mapsto> (i, 0)), m_iLogFd := d\<rparr>"
  let ?l2 = "?l1\<lparr>fl_data := (fl_data l)(i := log_line e msg), fl_fds := (fl_fds ?l1)(d \<mapsto> (i, length (log_line e msg)))\<rparr>"
  have "OpenFd (Some d) (?l0\<lparr>fl_dirs := D\<rparr>) = Inr (0, ?l1)"
    using i D(2) by (simp add: OpenFd_def fopen_w_def file_close_def)
  then have sys: "syslog_date_ch e l = Inr ?l1" using i(1) due D(1) rest(3) by (simp add: syslog_date_ch_def)
  have "log_write e (log_line e msg) ?l1 = Inr ?l2"
    using i rest(4,5,6) by (simp add: log_write_def file_close_def FileSize_def contents_def file_write_def Let_def)
  then have run: "Log e msg l = Inr ?l2"
    using i(2) sys rest(2) log_stamp_fits [OF rest(1)] by (simp add: Log_def)
  have "p = path" if "map_of (fl_names l) p = Some i" for p
    by (rule distinct_snd [of "fl_names l" p i]) (use i(3,4) that in \<open>auto simp: files_ok_def dest: map_of_SomeD\<close>)
  then have "contents ?l2 p = contents l p" if "p \<noteq> path" for p
    using that by (cases "map_of (fl_names l) p") (auto simp: contents_def file_close_def)
  then show ?thesis using run i(4) by (intro exI [of _ ?l2]) (simp add: contents_def file_close_def)
qed

text \<open>If the new file of a rotation cannot be opened, and not at the second attempt either, logging ends for good:
  that message and all later ones are dropped, whatever the environment does later.\<close>

theorem failed_open_ends_logging:
  assumes ready: "log_ready path cur l" and due: "m_iDay l \<noteq> lv_day1 e"
    and rest: "tm_ok e" "length msg < 2 * MAX_LOGLINE_SIZE" "lv_open1 e = None" "lv_open2 e = None" "fl_fds l (-1) = None"
  shows "\<exists>l'. Log e msg l = Inr l' \<and> fl_data l' = fl_data l \<and> (\<forall>calls. logs calls l' = Inr l')"
proof -
  let ?l0 = "(file_close (m_iLogFd l) l)\<lparr>m_iDay := lv_day2 e, m_iLogFd := -1\<rparr>"
  have path: "c_str (m_pchFileName l) = Inr path" "0 < m_iLogFd l" using ready by (auto simp: log_ready_def)
  obtain l1 where l1: "BackupLogFile e ?l0 = Inr l1" "m_iLogFd l1 = -1" "m_pchFileName l1 = m_pchFileName l"
      "fl_data l1 = fl_data l" "fl_fds l1 (-1) = None"
  proof (rule that)
    let ?r = "case BackupLogFile e ?l0 of Inr l1 \<Rightarrow> l1"
    show "BackupLogFile e ?l0 = Inr ?r" using path by (simp add: BackupLogFile_def file_close_def Let_def)
    show "m_iLogFd ?r = -1" "m_pchFileName ?r = m_pchFileName l" "fl_data ?r = fl_data l" "fl_fds ?r (-1) = None"
      using path rest(5) by (simp_all add: BackupLogFile_def file_close_def Let_def file_rename_def split: option.split)
  qed
  have "syslog_date_ch e l = Inr l1" using path l1 due rest(3) by (simp add: syslog_date_ch_def OpenFd_def fopen_w_def)
  moreover have "log_write e (log_line e msg) l1 = Inr l1"
    using path l1 rest(4) by (simp add: log_write_def OpenFd_def fopen_w_def file_write_def)
  ultimately have "Log e msg l = Inr l1" using path rest(2) log_stamp_fits [OF rest(1)] by (simp add: Log_def)
  moreover have "logs calls l1 = Inr l1" for calls
    by (induction calls) (auto simp: Log_def l1(2))
  ultimately show ?thesis using l1(4) by blast
qed

definition demo_open :: CNPLog where
  "demo_open = demo_log\<lparr>fl_fds := [3 \<mapsto> (0, 3)], m_iLogFd := 3, m_iDay := 1, m_pchFileName := ''log/x'' @ replicate 251 NUL\<rparr>"

lemma demo_open_ready: "log_ready ''log/x'' ''old'' demo_open"
proof -
  have "files_ok ''log/x'' demo_open"
    using demo_log_ok files_ok_cong [of demo_open demo_log "''log/x''"] by (simp add: demo_open_def)
  moreover have "c_str (m_pchFileName demo_open) = Inr ''log/x''" by (simp add: demo_open_def c_str_def NUL_def)
  ultimately show ?thesis by (simp add: log_ready_def) (simp add: demo_open_def demo_log_def)
qed

theorem failed_backup_erases_log_witness:
  "\<exists>l'. Log ((demo_lv 2)\<lparr>lv_rename := False\<rparr>) ''new'' demo_open = Inr l' \<and> contents demo_open ''log/x'' = Some ''old'' \<and>
     contents l' ''log/x'' = Some (log_line (demo_lv 2) ''new'')"
proof -
  let ?e = "(demo_lv 2)\<lparr>lv_rename := False\<rparr>"
  have e: "tm_ok ?e = tm_ok (demo_lv 2)" "log_line ?e ''new'' = log_line (demo_lv 2) ''new''"
    by (simp_all add: tm_ok_def log_line_def log_date_def log_time_def)
  have "m_iDay demo_open \<noteq> lv_day1 ?e" "lv_open1 ?e = Some 3" "lv_write ?e = Some 4096"
    by (simp_all add: demo_open_def demo_lv_def)
  from failed_backup_erases_log [OF demo_open_ready this(1) _ _ _ this(2) _ this(3), of "''new''"]
  show ?thesis using demo_lv_ok [of 2 "''new''"] log_ready_contents [OF demo_open_ready]
    by (auto simp: e MAX_LOGLINE_SIZE_def)
qed

theorem failed_open_ends_logging_witness:
  "\<exists>l'. Log ((demo_lv 2)\<lparr>lv_open1 := None, lv_open2 := None\<rparr>) ''new'' demo_open = Inr l' \<and>
     logs [(demo_lv 3, ''more'')] l' = Inr l'"
proof -
  let ?e = "(demo_lv 2)\<lparr>lv_open1 := None, lv_open2 := None\<rparr>"
  have e: "tm_ok ?e = tm_ok (demo_lv 2)" by (simp add: tm_ok_def)
  have "m_iDay demo_open \<noteq> lv_day1 ?e" "fl_fds demo_open (-1) = None" by (simp_all add: demo_open_def demo_lv_def)
  then have "\<exists>l'. Log ?e ''new'' demo_open = Inr l' \<and> fl_data l' = fl_data demo_open \<and> (\<forall>calls. logs calls l' = Inr l')"
    by (intro failed_open_ends_logging [OF demo_open_ready])
      (use demo_lv_ok(1) [of 2 "''new''"] in \<open>simp_all add: e MAX_LOGLINE_SIZE_def\<close>)
  then show ?thesis by blast
qed

section \<open>LogDump\<close>

text \<open>A row is built in \<open>pchLine\<close> (81 characters) with \<open>strcat\<close> and written when it is complete; the result is the
  list of the texts written. \<open>%s\<close> reads up to a NUL, also behind the sixteen bytes of the row.\<close>

definition strcat81 :: "string \<Rightarrow> string \<Rightarrow> string res" where
  "strcat81 l b = (if 81 \<le> length l + length b then Inl OutOfBounds else Inr (l @ b))"

definition hex2 :: "char \<Rightarrow> string" where
  "hex2 c = [hex_digit (of_char c div 16), hex_digit (of_char c mod 16)]"

definition dump_head :: "nat \<Rightarrow> string" where
  "dump_head i = [CHR 0x0A] @ zpad 5 (int i) @ ''      ''"

definition dump_pad :: "nat \<Rightarrow> string" where
  "dump_pad col = concat (map (\<lambda>c. ''   '' @ (if c = 7 then '' '' else '''')) [col ..< 16])"

definition dump_text :: "string \<Rightarrow> nat \<Rightarrow> nat \<Rightarrow> string res" where
  \<comment> \<open>\<open>memcpy\<close> of \<open>n\<close> bytes, then \<open>snprintf(b, n + 2, " %s", ...)\<close>\<close>
  "dump_text dat i n =
     bindR (mem_read dat (int i) (int n)) (\<lambda>_. bindR (c_str (drop i dat)) (\<lambda>s. Inr (take (n + 1) ('' '' @ s))))"

function dump_loop :: "string \<Rightarrow> nat \<Rightarrow> nat \<Rightarrow> nat \<Rightarrow> string \<Rightarrow> string list \<Rightarrow> string list res" where
  "dump_loop dat n idx col l rows =
     (if n \<le> idx then Inr rows
      else bindR (if col = 0 then strcat81 l (dump_head idx) else Inr l) (\<lambda>l1.
        bindR (mem_read dat (int idx) 1) (\<lambda>cs.
        bindR (strcat81 l1 (hex2 (hd cs) @ '' '')) (\<lambda>l2.
        bindR (if col = 15 then bindR (dump_text dat (idx - 15) 16) (\<lambda>t. bindR (strcat81 l2 t) (\<lambda>l3. Inr ([], rows @ [l3], 0)))
               else Inr (l2, rows, col + 1)) (\<lambda>(l3, rows3, col3).
          if n \<le> idx + 1
          then (if col3 = 0 then Inr rows3
                else bindR (strcat81 l3 (dump_pad col3)) (\<lambda>l4.
                  bindR (dump_text dat (n - n mod 16) (n mod 16)) (\<lambda>t.
                  bindR (strcat81 l4 t) (\<lambda>l5. Inr (rows3 @ [l5])))))
          else dump_loop dat n (idx + 1) col3 l3 rows3)))))"
  by pat_completeness auto
termination
  by (relation "measure (\<lambda>(dat, n, idx, col, l, rows). n - idx)") auto

declare dump_loop.simps [simp del]

definition LogDump :: "string \<Rightarrow> int \<Rightarrow> string list res" where
  "LogDump dat iSize = dump_loop dat (nat iSize) 0 0 [] []"

fun write_rows :: "nat option list \<Rightarrow> string list \<Rightarrow> CNPLog \<Rightarrow> CNPLog" where
  \<comment> \<open>one answer of \<open>write\<close> for each row; none left is a failure\<close>
  "write_rows ws [] l = l"
| "write_rows [] (r # rows) l = write_rows [] rows l"
| "write_rows (w # ws) (r # rows) l = write_rows ws rows (file_write w (m_iLogFd l) r l)"

definition LogDump_subject :: "(nat \<Rightarrow> log_env) \<Rightarrow> nat option list \<Rightarrow> string \<Rightarrow> string \<Rightarrow> int \<Rightarrow> CNPLog \<Rightarrow> CNPLog res" where
  "LogDump_subject e ws subject dat iSize l =
     (let bar = replicate 85 (CHR ''-'') in
      bindR (Log (e 0) (replicate 36 (CHR ''='') @ ''[ LogDump ]'' @ replicate 40 (CHR ''='')) l) (\<lambda>l1.
      bindR (Log (e 1) ('' Title=['' @ subject @ ''] Length=['' @ zpad 1 iSize @ '']'') l1) (\<lambda>l2.
      bindR (Log (e 2) bar l2) (\<lambda>l3.
      bindR (LogDump dat iSize) (\<lambda>rows. Log (e 3) ([CHR 0x0A] @ bar) (write_rows ws rows l3))))))"

text \<open>What a row should be: its offset, the bytes in hex, and the text that starts there.\<close>

definition text_at :: "string \<Rightarrow> nat \<Rightarrow> string" where
  "text_at dat i = takeWhile (\<lambda>c. c \<noteq> NUL) (drop i dat)"

definition dump_hex :: "string \<Rightarrow> nat \<Rightarrow> nat \<Rightarrow> string" where
  "dump_hex dat i k = concat (map (\<lambda>c. hex2 c @ '' '') (take k (drop i dat)))"

definition dump_row :: "string \<Rightarrow> nat \<Rightarrow> nat \<Rightarrow> string" where
  "dump_row dat i k = dump_head i @ dump_hex dat i k @ (if k = 16 then '''' else dump_pad k) @ '' '' @ take k (text_at dat i)"

definition dump_rows :: "string \<Rightarrow> nat \<Rightarrow> string list" where
  "dump_rows dat n = map (\<lambda>k. dump_row dat (16 * k) (min 16 (n - 16 * k))) [0 ..< (n + 15) div 16]"

lemma hex2_length [simp]: "length (hex2 c) = 2" by (simp add: hex2_def)

lemma dump_hex_length: "i + k \<le> length dat \<Longrightarrow> length (dump_hex dat i k) = 3 * k"
proof -
  have "length (concat (map (\<lambda>c. hex2 c @ '' '') cs)) = 3 * length cs" for cs by (induction cs) auto
  then show "i + k \<le> length dat \<Longrightarrow> ?thesis" by (simp add: dump_hex_def min_absorb2)
qed

lemma dump_hex_Suc: "i + k < length dat \<Longrightarrow> dump_hex dat i (Suc k) = dump_hex dat i k @ hex2 (dat ! (i + k)) @ '' ''"
  by (simp add: dump_hex_def take_Suc_conv_app_nth)

lemma dump_pad_length: "0 < k \<Longrightarrow> k \<le> 16 \<Longrightarrow> length (dump_pad k) = 3 * (16 - k) + (if k \<le> 7 then 1 else 0)"
proof -
  assume k: "0 < k" "k \<le> 16"
  then have "k \<in> {1, 2, 3, 4, 5, 6, 7, 8, 9, 10, 11, 12, 13, 14, 15, 16}" by (simp, arith)
  then show ?thesis by (elim insertE emptyE) (simp_all add: dump_pad_def upt_rec)
qed

lemma dump_head_length: "i < 10 ^ 8 \<Longrightarrow> 12 \<le> length (dump_head i) \<and> length (dump_head i) \<le> 15"
  using dec_length [of i 8] by (simp add: dump_head_def zpad_def Let_def, arith)

lemma dump_text_ok:
  "i + k \<le> length dat \<Longrightarrow> dump_text dat i k =
     (if NUL \<in> set (drop i dat) then Inr ('' '' @ take k (text_at dat i)) else Inl Unterminated)"
  by (simp add: dump_text_def mem_read_def c_str_def text_at_def)

definition cur_line :: "string \<Rightarrow> nat \<Rightarrow> nat \<Rightarrow> string" where
  "cur_line dat i j = (if j = 0 then [] else dump_head i @ dump_hex dat i j)"

lemma dump_cell:
  assumes i: "i < 10 ^ 8" and j: "j < 16" "i + j < length dat"
  shows "(if j = 0 then strcat81 (cur_line dat i j) (dump_head (i + j)) else Inr (cur_line dat i j)) = Inr (dump_head i @ dump_hex dat i j)"
    "mem_read dat (int (i + j)) 1 = Inr [dat ! (i + j)]"
    "strcat81 (dump_head i @ dump_hex dat i j) (hex2 (dat ! (i + j)) @ '' '') = Inr (cur_line dat i (Suc j))"
proof -
  have h: "length (dump_head i) \<le> 15" "length (dump_hex dat i j) = 3 * j"
    using dump_head_length [OF i] dump_hex_length [of i j dat] j by simp_all
  show "(if j = 0 then strcat81 (cur_line dat i j) (dump_head (i + j)) else Inr (cur_line dat i j)) = Inr (dump_head i @ dump_hex dat i j)"
    using h(1) by (simp add: cur_line_def strcat81_def dump_hex_def)
  show "mem_read dat (int (i + j)) 1 = Inr [dat ! (i + j)]"
    using j(2) by (simp add: mem_read_def take_Suc_conv_app_nth Cons_nth_drop_Suc [symmetric] nat_int_add)
  show "strcat81 (dump_head i @ dump_hex dat i j) (hex2 (dat ! (i + j)) @ '' '') = Inr (cur_line dat i (Suc j))"
    using h j(1) dump_hex_Suc [OF j(2)] by (simp add: strcat81_def cur_line_def)
qed

lemma dump_row_from:
  assumes i: "16 dvd i" "i < 10 ^ 8" "n \<le> length dat" and j: "j < 16" "i + j < n"
  shows "dump_loop dat n (i + j) j (cur_line dat i j) rows =
    (if NUL \<notin> set (drop i dat) then Inl Unterminated
     else if n \<le> i + 16 then Inr (rows @ [dump_row dat i (n - i)]) else dump_loop dat n (i + 16) 0 [] (rows @ [dump_row dat i 16]))"
  using j
proof (induction "15 - j" arbitrary: j)
  case 0
  have j: "j = 15" "i + 15 < length dat" using 0 i(3) by linarith+
  note c = dump_cell [OF i(2), of 15 dat]
  have "length (dump_head i) \<le> 15" "length (dump_hex dat i 16) = 48"
    using dump_head_length [OF i(2)] dump_hex_length [of i 16 dat] j(2) by simp_all
  then have "strcat81 (cur_line dat i 16) ('' '' @ take 16 (text_at dat i)) = Inr (dump_row dat i 16)"
    by (simp add: strcat81_def cur_line_def dump_row_def)
  moreover have "dump_text dat i 16 = (if NUL \<in> set (drop i dat) then Inr ('' '' @ take 16 (text_at dat i)) else Inl Unterminated)"
    by (rule dump_text_ok) (use j in simp)
  moreover have "Suc (i + 15) = i + 16" "n \<le> i + 16 \<Longrightarrow> n - i = 16" using j 0(3) by simp_all
  ultimately show ?case
    using c j 0(3) by (subst dump_loop.simps) (simp add: add.commute [of 16 i])
next
  case (Suc x)
  have j: "j < 15" "i + j < length dat" using Suc.hyps(2) Suc.prems i(3) by linarith+
  have h: "length (dump_head i) \<le> 15" "length (dump_hex dat i (Suc j)) = 3 * Suc j"
    using dump_head_length [OF i(2)] dump_hex_length [of i "Suc j" dat] j by simp_all
  note c = dump_cell [OF i(2) Suc.prems(1) j(2)]
  show ?case
  proof (cases "n \<le> i + j + 1")
    case False
    then show ?thesis
      using Suc.hyps(1) [of "Suc j"] Suc.hyps(2) Suc.prems c j
      by (subst dump_loop.simps) simp
  next
    case True
    then have n: "n = i + Suc j" using Suc.prems by simp
    obtain q where "i = 16 * q" using i(1) by (rule dvdE)
    then have m1: "n mod 16 = Suc j" using n j(1) mod_mult_self1 [of "Suc j" q 16] by (simp add: ac_simps)
    then have m: "n mod 16 = Suc j" "n - n mod 16 = i" using n by simp_all
    define r where "r = 16 - Suc j"
    have "length (dump_pad (Suc j)) \<le> 3 * r + 1" using dump_pad_length [of "Suc j"] j(1) by (simp add: r_def)
    moreover have "Suc j + r = 16" using j(1) by (simp add: r_def)
    ultimately have hp: "length (dump_hex dat i (Suc j)) + length (dump_pad (Suc j)) \<le> 49" unfolding h(2) by simp
    then have "strcat81 (cur_line dat i (Suc j)) (dump_pad (Suc j)) = Inr (dump_head i @ dump_hex dat i (Suc j) @ dump_pad (Suc j))"
      using h(1) by (simp add: strcat81_def cur_line_def)
    moreover have "dump_text dat i (Suc j) =
        (if NUL \<in> set (drop i dat) then Inr ('' '' @ take (Suc j) (text_at dat i)) else Inl Unterminated)"
      by (rule dump_text_ok) (use j in simp)
    moreover have "strcat81 (dump_head i @ dump_hex dat i (Suc j) @ dump_pad (Suc j)) ('' '' @ take (Suc j) (text_at dat i)) =
        Inr (dump_row dat i (Suc j))"
      using h(1) hp j(1) by (simp add: strcat81_def dump_row_def)
    ultimately show ?thesis
      using n m c j by (subst dump_loop.simps) simp
  qed
qed

lemma dump_loop_rows:
  assumes n: "n \<le> length dat" "n \<le> 10 ^ 8" and q: "16 * q < n"
  shows "dump_loop dat n (16 * q) 0 [] rows =
    (if NUL \<in> set (drop (16 * ((n - 1) div 16)) dat)
     then Inr (rows @ map (\<lambda>k. dump_row dat (16 * k) (min 16 (n - 16 * k))) [q ..< (n + 15) div 16])
     else Inl Unterminated)"
  using q
proof (induction "n - 16 * q" arbitrary: q rows rule: less_induct)
  case less
  have qd: "q \<le> (n - 1) div 16" using less.prems by linarith
  then have sub: "set (drop (16 * ((n - 1) div 16)) dat) \<subseteq> set (drop (16 * q) dat)" by (intro set_drop_subset_set_drop) simp
  have row: "dump_loop dat n (16 * q) 0 [] rows =
      (if NUL \<notin> set (drop (16 * q) dat) then Inl Unterminated
       else if n \<le> 16 * q + 16 then Inr (rows @ [dump_row dat (16 * q) (n - 16 * q)])
       else dump_loop dat n (16 * q + 16) 0 [] (rows @ [dump_row dat (16 * q) 16]))"
    using dump_row_from [of "16 * q" n dat 0 rows] n less.prems by (simp add: cur_line_def)
  show ?case
  proof (cases "n \<le> 16 * q + 16")
    case True
    then have "(n + 15) div 16 = Suc q" "(n - 1) div 16 = q" using less.prems by linarith+
    then show ?thesis using row True by simp
  next
    case False
    have "dump_loop dat n (16 * Suc q) 0 [] (rows @ [dump_row dat (16 * q) 16]) =
        (if NUL \<in> set (drop (16 * ((n - 1) div 16)) dat)
         then Inr ((rows @ [dump_row dat (16 * q) 16]) @ map (\<lambda>k. dump_row dat (16 * k) (min 16 (n - 16 * k))) [Suc q ..< (n + 15) div 16])
         else Inl Unterminated)"
      by (rule less.hyps) (use False in simp_all)
    moreover have "q < (n + 15) div 16" using less.prems by linarith
    then have "[q ..< (n + 15) div 16] = q # [Suc q ..< (n + 15) div 16]" by (rule upt_conv_Cons)
    ultimately show ?thesis using row False sub by (auto simp: add.commute)
  qed
qed

text \<open>C38: \<open>LogDump\<close> of \<open>n\<close> bytes writes one row for every sixteen bytes and one for the rest, each with its offset, the
  bytes in hex and the text from its first byte up to a NUL, if the block has a NUL at or behind the start of the
  last row; the line buffer is never overrun for offsets of at most eight digits. Without such a NUL it reads past
  the block.\<close>

theorem LogDump_rows:
  assumes n: "0 < n" "n \<le> int (length dat)" "n \<le> 10 ^ 8"
  shows "LogDump dat n =
    (if NUL \<in> set (drop (16 * ((nat n - 1) div 16)) dat) then Inr (dump_rows dat (nat n)) else Inl Unterminated)"
  using dump_loop_rows [of "nat n" dat 0 "[]"] n by (simp add: LogDump_def dump_rows_def)

theorem LogDump_rows_witness:
  "LogDump [CHR ''a'', CHR ''b'', NUL] 2 = Inr (dump_rows [CHR ''a'', CHR ''b'', NUL] 2) \<and> LogDump ''ab'' 2 = Inl Unterminated"
  using LogDump_rows [of 2 "[CHR ''a'', CHR ''b'', NUL]"] LogDump_rows [of 2 "''ab''"] by (simp add: NUL_def)

text \<open>A name of 256 or more characters leaves the array without a terminator.\<close>

lemma SetFileName_long: "MAX_FILE_NAME \<le> length name \<Longrightarrow> NUL \<notin> set name \<Longrightarrow> SetFileName e name l = Inl Unterminated"
  using strncpy_unterminated [of "replicate MAX_FILE_NAME NUL" MAX_FILE_NAME name]
  by (simp add: SetFileName_def BackupLogFile_def strncpy_def)

end
