(* ===== verification/Startup.thy ===== *)
theory Startup
  imports ProcessSpawn Threads NPUtilStr NPLog
begin

text \<open>
  How the processes come up: \<open>ChatManager::DoFork\<close> with the listening sockets, the forks and the loop of
  \<open>ChatManager::Run\<close> (src/ChatManager.cpp), and the start of \<open>ChatServer::Run\<close> with its threads
  (src/ChatServer.cpp). What \<open>socket\<close>, \<open>bind\<close>, \<open>listen\<close>, \<open>fcntl\<close> and \<open>setsockopt\<close> answer is a record, one for
  each socket.
\<close>

section \<open>Listening sockets\<close>

record ServerSocket = TcpSocket +
  m_Type :: ENUM_SERVERSOCKET_TYPE

record listen_env =
  le_fd :: int
  le_bind :: bool
  le_listen :: bool
  le_nonblock :: bool
  le_linger :: bool

definition ServerSocket_new :: "ENUM_SERVERSOCKET_TYPE \<Rightarrow> int \<Rightarrow> ServerSocket" where
  \<comment> \<open>\<open>fd\<close> is what \<open>socket\<close> returned\<close>
  "ServerSocket_new ty fd = TcpSocket.extend (TcpSocket_new fd) \<lparr>m_Type = ty\<rparr>"

definition ServerSocket_GetType :: "ServerSocket \<Rightarrow> ENUM_SERVERSOCKET_TYPE" where
  "ServerSocket_GetType s = m_Type s"

text \<open>From the constructor to \<open>SetLinger\<close>; the calls fail on a descriptor that could not be opened. What
  \<open>SetLinger\<close> returns is not looked at.\<close>

definition open_listener :: "ENUM_SERVERSOCKET_TYPE \<Rightarrow> int \<Rightarrow> listen_env \<Rightarrow> bool \<times> ServerSocket" where
  "open_listener ty port e =
     (let s0 = ServerSocket_new ty (le_fd e);
          (b, s1) = ServerSocket_Bind (0 \<le> le_fd e \<and> le_bind e) s0 port in
      if b < 0 then (False, s1)
      else if ServerSocket_Listen (le_listen e) < 0 then (False, s1)
      else let (n, s2) = Socket_SetNonBlock (le_nonblock e) s1 in
        if n < 0 then (False, s2)
        else (True, snd (Socket_SetLinger (le_linger e) s2)))"

section \<open>DoFork\<close>

text \<open>The manager before and after: its own state, the listening socket objects and the \<open>ClientServer\<close>s
  around them by pointer, the \<open>m_pDNServerSocket\<close> of the \<open>ChatServer\<close> to be forked, the processes.\<close>

record startup =
  su_mgr :: ChatManager
  su_socks :: "nat \<rightharpoonup> ServerSocket"
  su_servers :: "nat \<rightharpoonup> ClientServer"
  su_dn :: "nat option"
  su_fam :: family

definition open_server :: "ENUM_SERVERSOCKET_TYPE \<Rightarrow> int \<Rightarrow> listen_env \<Rightarrow> startup \<Rightarrow> nat option \<times> startup" where
  \<comment> \<open>the pointer of the socket, or nothing when \<open>DoFork\<close> returns; the object is not deleted then\<close>
  "open_server ty port e st =
     (let m = su_mgr st; p = cm_next m; (ok, s) = open_listener ty port e;
          m1 = m\<lparr>cm_next := Suc p, n_socks := (n_socks m)(p \<mapsto> le_fd e),
                n_kern := (if 0 \<le> le_fd e then (n_kern m)(le_fd e \<mapsto> Socket.truncate s) else n_kern m)\<rparr>
      in (if ok then Some p else None, st\<lparr>su_mgr := m1, su_socks := (su_socks st)(p \<mapsto> s)\<rparr>))"

definition new_ClientServer :: "(nat \<Rightarrow> byte) \<Rightarrow> int \<Rightarrow> nat \<Rightarrow> startup \<Rightarrow> nat \<times> startup" where
  "new_ClientServer junk now p st =
     (let a = cm_next (su_mgr st) in
      (a, st\<lparr>su_mgr := (su_mgr st)\<lparr>cm_next := Suc a\<rparr>, su_servers := (su_servers st)(a \<mapsto> ClientServer_new junk now (Some p))\<rparr>))"

fun open_ports :: "(ENUM_SERVERSOCKET_TYPE \<Rightarrow> listen_env) \<Rightarrow> (nat \<Rightarrow> byte) \<Rightarrow> int \<Rightarrow> (ENUM_SERVERSOCKET_TYPE, int) std_map \<Rightarrow>
    startup \<Rightarrow> (bool \<times> startup) res" where
  "open_ports env junk now [] st = Inr (True, st)"
| "open_ports env junk now ((ty, port) # rest) st =
     (case open_server ty port (env ty) st of (None, st1) \<Rightarrow> Inr (False, st1)
      | (Some p, st1) \<Rightarrow>
          let (a, st2) = new_ClientServer junk now p st1 in
          bindR (IOMP_EPoll_AddClient (su_mgr st2) a (Some p) EPOLLIN) (\<lambda>(_, m3).
            open_ports env junk now rest (st2\<lparr>su_mgr := m3\<rparr>)))"

text \<open>\<open>DoFork\<close> up to the call of \<open>Run\<close>: whether it gets there. \<open>forks i\<close> is what the \<open>i\<close>-th \<open>fork\<close> answers.\<close>

definition DoFork :: "nat \<Rightarrow> nat \<Rightarrow> (ENUM_SERVERSOCKET_TYPE \<Rightarrow> listen_env) \<Rightarrow> listen_env \<Rightarrow> (nat \<Rightarrow> int option) \<Rightarrow>
    (nat \<Rightarrow> byte) \<Rightarrow> int \<Rightarrow> startup \<Rightarrow> (bool \<times> startup) res" where
  "DoFork this proc env dn_env forks junk now st =
     (let info = m_pServerInfo (su_mgr st) in
      bindR (open_ports env junk now (mgr_GetPortMap info) st) (\<lambda>(ok, st1).
        if \<not> ok then Inr (False, st1)
        else case open_server SERVER_PORT (mgr_GetDNPort info) dn_env st1 of (None, st2) \<Rightarrow> Inr (False, st2)
          | (Some p, st2) \<Rightarrow>
              let (a, st3) = new_ClientServer junk now p st2;
                  (_, fam) = SpawnProcess_count this (Some proc) (map forks [0..<nat (mgr_GetDNCnt info)]) (su_fam st3)
              in Inr (True, st3\<lparr>su_dn := Some a, su_fam := fam\<rparr>)))"

section \<open>What DoFork sets up\<close>

definition opens :: "listen_env \<Rightarrow> bool" where
  "opens e \<longleftrightarrow> 0 \<le> le_fd e \<and> le_bind e \<and> le_listen e \<and> le_nonblock e"

text \<open>The \<open>ClientServer\<close> at \<open>a\<close> holds a non-blocking socket of this type, bound to this port.\<close>

definition listens_on :: "startup \<Rightarrow> nat \<Rightarrow> ENUM_SERVERSOCKET_TYPE \<Rightarrow> int \<Rightarrow> int \<Rightarrow> bool" where
  "listens_on st a ty port fd \<longleftrightarrow>
     (\<exists>c p s k. su_servers st a = Some c \<and> m_eType c = CLIENT_SERVER \<and> m_cSocket c = Some p \<and>
        n_socks (su_mgr st) p = Some fd \<and> su_socks st p = Some s \<and> ServerSocket_GetType s = ty \<and>
        sin_port (m_ServerAddr s) = swap16 (word_of_int port) \<and>
        n_kern (su_mgr st) fd = Some k \<and> so_flags k = O_NDELAY)"

definition su_fresh :: "startup \<Rightarrow> bool" where
  "su_fresh st \<longleftrightarrow> (\<forall>p. cm_next (su_mgr st) \<le> p \<longrightarrow> su_servers st p = None \<and> su_socks st p = None \<and> n_socks (su_mgr st) p = None)"

lemma open_listener_ok:
  "fst (open_listener ty port e) = opens e" "m_Type (snd (open_listener ty port e)) = ty"
  "sin_port (m_ServerAddr (snd (open_listener ty port e))) = swap16 (word_of_int port)"
  "opens e \<Longrightarrow> so_flags (snd (open_listener ty port e)) = O_NDELAY"
  by (auto simp: open_listener_def ServerSocket_new_def opens_def ServerSocket_Bind_def ServerSocket_Listen_def so_defs
      Socket_SetLinger_def TcpSocket.defs Let_def)

text \<open>A new server: what listened before still does, and it does too.\<close>

lemma open_server_ok:
  assumes fresh: "su_fresh st" and ok: "opens e" and fd: "\<And>p. n_socks (su_mgr st) p = Some (le_fd e) \<Longrightarrow> False"
  obtains p st1 a st2 where "open_server ty port e st = (Some p, st1)" "new_ClientServer junk now p st1 = (a, st2)"
    "su_fresh st2" "listens_on st2 a ty port (le_fd e)" "su_fam st2 = su_fam st" "su_dn st2 = su_dn st"
    "m_pServerInfo (su_mgr st2) = m_pServerInfo (su_mgr st)" "n_epoll (su_mgr st2) = n_epoll (su_mgr st)"
    "n_socks (su_mgr st2) p = Some (le_fd e)" "n_kern (su_mgr st2) (le_fd e) \<noteq> None"
    "\<forall>b ty' port' fd'. listens_on st b ty' port' fd' \<longrightarrow> listens_on st2 b ty' port' fd'"
    "\<forall>q f. n_socks (su_mgr st2) q = Some f \<longrightarrow> f = le_fd e \<or> n_socks (su_mgr st) q = Some f"
proof -
  obtain s where s: "open_listener ty port e = (True, s)" "m_Type s = ty"
    "sin_port (m_ServerAddr s) = swap16 (word_of_int port)" "so_flags s = O_NDELAY"
    using open_listener_ok [where ty = ty and port = port and e = e] ok by (metis prod.collapse)
  let ?m = "su_mgr st" and ?p = "cm_next (su_mgr st)" and ?fd = "le_fd e"
  let ?c = "ClientServer_new junk now (Some ?p)"
  let ?st1 = "st\<lparr>su_mgr := ?m\<lparr>cm_next := Suc ?p, n_socks := (n_socks ?m)(?p \<mapsto> ?fd),
      n_kern := (n_kern ?m)(?fd \<mapsto> Socket.truncate s)\<rparr>, su_socks := (su_socks st)(?p \<mapsto> s)\<rparr>"
  let ?st2 = "?st1\<lparr>su_mgr := (su_mgr ?st1)\<lparr>cm_next := Suc (Suc ?p)\<rparr>, su_servers := (su_servers st)(Suc ?p \<mapsto> ?c)\<rparr>"
  have c: "m_eType ?c = CLIENT_SERVER" "m_cSocket ?c = Some ?p"
    by (simp_all add: ClientServer_new_def Client.defs Client_new_socket_def)
  show thesis
  proof (rule that [of ?p ?st1 "Suc ?p" ?st2])
    show "open_server ty port e st = (Some ?p, ?st1)" using s(1) ok by (simp add: open_server_def Let_def opens_def)
    show "listens_on ?st2 (Suc ?p) ty port ?fd"
      using c s by (simp add: listens_on_def ServerSocket_GetType_def Socket.truncate_def)
    show "\<forall>b ty' port' fd'. listens_on st b ty' port' fd' \<longrightarrow> listens_on ?st2 b ty' port' fd'"
    proof (intro allI impI)
      fix b ty' port' fd' assume l: "listens_on st b ty' port' fd'"
      obtain d q t k where d: "su_servers st b = Some d" "m_eType d = CLIENT_SERVER" "m_cSocket d = Some q"
        "n_socks ?m q = Some fd'" "su_socks st q = Some t" "ServerSocket_GetType t = ty'"
        "sin_port (m_ServerAddr t) = swap16 (word_of_int port')" "n_kern ?m fd' = Some k" "so_flags k = O_NDELAY"
        using l by (auto simp: listens_on_def)
      have "b \<noteq> Suc ?p" "q \<noteq> ?p" using fresh d(1,4) by (auto simp: su_fresh_def)
      moreover have "fd' \<noteq> ?fd" using fd d(4) by auto
      ultimately show "listens_on ?st2 b ty' port' fd'" using d by (simp add: listens_on_def)
    qed
  qed (use fresh in \<open>auto simp: new_ClientServer_def Let_def su_fresh_def split: if_splits\<close>)
qed

lemma open_server_fails:
  assumes "\<not> opens e"
  obtains st1 where "open_server ty port e st = (None, st1)" "su_fam st1 = su_fam st" "su_dn st1 = su_dn st"
    "n_epoll (su_mgr st1) = n_epoll (su_mgr st)" "m_pServerInfo (su_mgr st1) = m_pServerInfo (su_mgr st)"
proof (rule that)
  show "open_server ty port e st = (None, snd (open_server ty port e st))"
    using open_listener_ok(1) [where ty = ty and port = port and e = e] assms
    by (cases "open_listener ty port e") (simp add: open_server_def Let_def)
qed (simp_all add: open_server_def Let_def split: prod.split)

text \<open>A descriptor that the kernel has just given.\<close>

definition unused_fd :: "startup \<Rightarrow> int \<Rightarrow> bool" where
  "unused_fd st fd \<longleftrightarrow> (\<forall>p. n_socks (su_mgr st) p \<noteq> Some fd) \<and> n_epoll (su_mgr st) fd = None"

definition all_open :: "(ENUM_SERVERSOCKET_TYPE \<Rightarrow> listen_env) \<Rightarrow> (ENUM_SERVERSOCKET_TYPE, int) std_map \<Rightarrow> bool" where
  "all_open env ports = list_all (\<lambda>(ty, _). opens (env ty)) ports"

definition port_fds :: "(ENUM_SERVERSOCKET_TYPE \<Rightarrow> listen_env) \<Rightarrow> (ENUM_SERVERSOCKET_TYPE, int) std_map \<Rightarrow> int list" where
  "port_fds env ports = map (\<lambda>(ty, _). le_fd (env ty)) ports"

text \<open>Every port is watched through a client that listens on it.\<close>

definition watched :: "startup \<Rightarrow> (ENUM_SERVERSOCKET_TYPE \<Rightarrow> listen_env) \<Rightarrow> ENUM_SERVERSOCKET_TYPE \<times> int \<Rightarrow> bool" where
  "watched st env tp = (case tp of (ty, port) \<Rightarrow>
     (\<exists>a. n_epoll (su_mgr st) (le_fd (env ty)) = Some (EPOLLIN, a) \<and> listens_on st a ty port (le_fd (env ty))))"

lemma listens_on_epoll: "listens_on (st\<lparr>su_mgr := (su_mgr st)\<lparr>n_epoll := E\<rparr>\<rparr>) a ty port fd = listens_on st a ty port fd"
  by (simp add: listens_on_def)

lemma open_ports_ok:
  assumes "su_fresh st" "distinct (port_fds env ports)" "\<forall>fd \<in> set (port_fds env ports). unused_fd st fd"
  shows "\<exists>st'. open_ports env junk now ports st = Inr (all_open env ports, st') \<and>
    su_fam st' = su_fam st \<and> su_dn st' = su_dn st \<and>
    (all_open env ports \<longrightarrow> su_fresh st' \<and> m_pServerInfo (su_mgr st') = m_pServerInfo (su_mgr st) \<and>
      list_all (watched st' env) ports \<and>
      (\<forall>fd. fd \<notin> set (port_fds env ports) \<longrightarrow> n_epoll (su_mgr st') fd = n_epoll (su_mgr st) fd) \<and>
      (\<forall>p fd. n_socks (su_mgr st') p = Some fd \<longrightarrow> fd \<in> set (port_fds env ports) \<or> n_socks (su_mgr st) p = Some fd) \<and>
      (\<forall>a ty port fd. listens_on st a ty port fd \<longrightarrow> listens_on st' a ty port fd))"
  using assms
proof (induction ports arbitrary: st)
  case Nil
  then show ?case by (simp add: all_open_def)
next
  case (Cons tp ports)
  obtain ty port where tp: "tp = (ty, port)" by (cases tp)
  let ?e = "env ty"
  show ?case
  proof (cases "opens ?e")
    case False
    obtain st1 where "open_server ty port ?e st = (None, st1)" "su_fam st1 = su_fam st" "su_dn st1 = su_dn st"
      by (rule open_server_fails [OF False])
    then show ?thesis using False by (simp add: tp all_open_def)
  next
    case True
    have fds: "port_fds env (tp # ports) = le_fd ?e # port_fds env ports" by (simp add: port_fds_def tp)
    have un: "unused_fd st (le_fd ?e)" using Cons.prems(3) fds by simp
    then have nofd: "n_socks (su_mgr st) p = Some (le_fd ?e) \<Longrightarrow> False" for p by (simp add: unused_fd_def)
    obtain p st1 a st2 where o: "open_server ty port ?e st = (Some p, st1)" "new_ClientServer junk now p st1 = (a, st2)"
      "su_fresh st2" "listens_on st2 a ty port (le_fd ?e)" "su_fam st2 = su_fam st" "su_dn st2 = su_dn st"
      "m_pServerInfo (su_mgr st2) = m_pServerInfo (su_mgr st)" "n_epoll (su_mgr st2) = n_epoll (su_mgr st)"
      "n_socks (su_mgr st2) p = Some (le_fd ?e)" "n_kern (su_mgr st2) (le_fd ?e) \<noteq> None"
      "\<forall>b ty' port' fd'. listens_on st b ty' port' fd' \<longrightarrow> listens_on st2 b ty' port' fd'"
      "\<forall>q f. n_socks (su_mgr st2) q = Some f \<longrightarrow> f = le_fd ?e \<or> n_socks (su_mgr st) q = Some f"
      by (rule open_server_ok [where ty = ty and port = port and junk = junk and now = now, OF Cons.prems(1) True nofd])
    let ?E = "(n_epoll (su_mgr st2))(le_fd ?e \<mapsto> (EPOLLIN, a))"
    let ?st3 = "st2\<lparr>su_mgr := (su_mgr st2)\<lparr>n_epoll := ?E\<rparr>\<rparr>"
    have add: "IOMP_EPoll_AddClient (su_mgr st2) a (Some p) EPOLLIN = Inr (0, (su_mgr st2)\<lparr>n_epoll := ?E\<rparr>)"
      using o(8,9,10) un by (simp add: IOMP_EPoll_AddClient_def unused_fd_def)
    have "unused_fd ?st3 fd" if "fd \<in> set (port_fds env ports)" for fd
      using that Cons.prems(2,3) fds o(8,12) by (fastforce simp: unused_fd_def)
    then obtain st' where st': "open_ports env junk now ports ?st3 = Inr (all_open env ports, st')"
        "su_fam st' = su_fam ?st3" "su_dn st' = su_dn ?st3"
        "all_open env ports \<Longrightarrow> su_fresh st' \<and> m_pServerInfo (su_mgr st') = m_pServerInfo (su_mgr ?st3) \<and>
          list_all (watched st' env) ports \<and>
          (\<forall>fd. fd \<notin> set (port_fds env ports) \<longrightarrow> n_epoll (su_mgr st') fd = n_epoll (su_mgr ?st3) fd) \<and>
          (\<forall>p fd. n_socks (su_mgr st') p = Some fd \<longrightarrow> fd \<in> set (port_fds env ports) \<or> n_socks (su_mgr ?st3) p = Some fd) \<and>
          (\<forall>a ty port fd. listens_on ?st3 a ty port fd \<longrightarrow> listens_on st' a ty port fd)"
      using Cons.IH [of ?st3] Cons.prems(2) fds o(3) by (auto simp: su_fresh_def)
    have "open_ports env junk now (tp # ports) st = Inr (all_open env (tp # ports), st')"
      using True st'(1) by (simp add: tp o(1,2) add all_open_def)
    moreover have "watched st' env tp" if "all_open env ports"
      using st'(4) [OF that] o(4) Cons.prems(2) fds by (auto simp: watched_def tp listens_on_epoll)
    ultimately show ?thesis
      using True st'(2,3) st'(4) o(5,6,7,8,11,12) fds
      by (auto simp: all_open_def tp listens_on_epoll) blast
  qed
qed

text \<open>The socket for the chat servers is opened behind the manager's own ports and is not watched.\<close>

lemma open_dn_ok:
  assumes fr: "su_fresh st1" and un: "unused_fd st1 (le_fd dn_env)" and ok: "opens dn_env" and ports: "list_all (watched st1 env) ports"
  obtains p1 st2 a st3 where "open_server SERVER_PORT port dn_env st1 = (Some p1, st2)" "new_ClientServer junk now p1 st2 = (a, st3)"
    "su_fam st3 = su_fam st1" "n_epoll (su_mgr st3) (le_fd dn_env) = None"
    "\<forall>fam. listens_on (st3\<lparr>su_dn := Some a, su_fam := fam\<rparr>) a SERVER_PORT port (le_fd dn_env) \<and>
      list_all (watched (st3\<lparr>su_dn := Some a, su_fam := fam\<rparr>) env) ports"
proof -
  have nofd: "n_socks (su_mgr st1) p = Some (le_fd dn_env) \<Longrightarrow> False" for p using un by (simp add: unused_fd_def)
  obtain p1 st2 a st3 where o: "open_server SERVER_PORT port dn_env st1 = (Some p1, st2)"
    "new_ClientServer junk now p1 st2 = (a, st3)" "su_fresh st3"
    "listens_on st3 a SERVER_PORT port (le_fd dn_env)" "su_fam st3 = su_fam st1" "su_dn st3 = su_dn st1"
    "m_pServerInfo (su_mgr st3) = m_pServerInfo (su_mgr st1)" "n_epoll (su_mgr st3) = n_epoll (su_mgr st1)"
    "n_socks (su_mgr st3) p1 = Some (le_fd dn_env)" "n_kern (su_mgr st3) (le_fd dn_env) \<noteq> None"
    "\<forall>b ty' port' fd'. listens_on st1 b ty' port' fd' \<longrightarrow> listens_on st3 b ty' port' fd'"
    "\<forall>q f. n_socks (su_mgr st3) q = Some f \<longrightarrow> f = le_fd dn_env \<or> n_socks (su_mgr st1) q = Some f"
    by (rule open_server_ok [where ty = SERVER_PORT and port = port and junk = junk and now = now, OF fr ok nofd])
  have lst: "listens_on (st3\<lparr>su_dn := d, su_fam := fam\<rparr>) b ty port fd = listens_on st3 b ty port fd" for b ty port fd d fam
    by (simp add: listens_on_def)
  have "watched (st3\<lparr>su_dn := d, su_fam := fam\<rparr>) env tp" if "watched st1 env tp" for tp d fam
    using that o(8,11) by (auto simp: watched_def lst)
  then have "list_all (watched (st3\<lparr>su_dn := Some a, su_fam := fam\<rparr>) env) ports" for fam using ports by (auto simp: list_all_iff)
  moreover have "n_epoll (su_mgr st3) (le_fd dn_env) = None" using un o(8) by (simp add: unused_fd_def)
  ultimately show thesis using that o(1,2,4,5) by (simp add: lst)
qed

text \<open>\<open>DoFork\<close> goes on to \<open>Run\<close> exactly if the socket of every configured port, and the one of the chat
  servers, can be opened, bound, set to listen and made non-blocking. Then every configured port is
  watched with \<open>EPOLLIN\<close> through a \<open>CLIENT_SERVER\<close> client whose non-blocking socket is bound to that port, the
  chat servers' socket is open too but left for them to watch, and as many children run as \<open>fork\<close> made
  of the configured number before its first failure. Otherwise no process is forked at all.\<close>

theorem DoFork_listens:
  assumes ports: "ports = mgr_GetPortMap (m_pServerInfo (su_mgr st))"
    and fresh: "su_fresh st" and proc: "this \<noteq> proc" "fam_heap (su_fam st) this = Some p" "fam_heap (su_fam st) proc = Some q"
    and alone: "fam_alive (su_fam st) = Map.empty" "fam_dead (su_fam st) = {}" "fam_stops (su_fam st) = {}"
    and pids: "forks_fit (map forks [0..<nat (mgr_GetDNCnt (m_pServerInfo (su_mgr st)))]) (su_fam st)"
    and fds: "distinct (le_fd dn_env # port_fds env ports)" "\<forall>fd \<in> set (le_fd dn_env # port_fds env ports). unused_fd st fd"
  shows "\<exists>st'. DoFork this proc env dn_env forks junk now st = Inr (all_open env ports \<and> opens dn_env, st') \<and>
    (if all_open env ports \<and> opens dn_env
     then list_all (watched st' env) ports \<and>
       (\<exists>a. su_dn st' = Some a \<and>
          listens_on st' a SERVER_PORT (mgr_GetDNPort (m_pServerInfo (su_mgr st))) (le_fd dn_env)) \<and>
       n_epoll (su_mgr st') (le_fd dn_env) = None \<and>
       population (su_fam st') = int (forks_made (map forks [0..<nat (mgr_GetDNCnt (m_pServerInfo (su_mgr st)))]))
     else su_fam st' = su_fam st)"
proof -
  let ?info = "m_pServerInfo (su_mgr st)"
  have d: "distinct (port_fds env ports)" "\<forall>fd \<in> set (port_fds env ports). unused_fd st fd" using fds by simp_all
  obtain st1 where st1: "open_ports env junk now ports st = Inr (all_open env ports, st1)" "su_fam st1 = su_fam st"
      "all_open env ports \<Longrightarrow> su_fresh st1 \<and> m_pServerInfo (su_mgr st1) = ?info \<and> list_all (watched st1 env) ports \<and>
        (\<forall>fd. fd \<notin> set (port_fds env ports) \<longrightarrow> n_epoll (su_mgr st1) fd = n_epoll (su_mgr st) fd) \<and>
        (\<forall>p fd. n_socks (su_mgr st1) p = Some fd \<longrightarrow> fd \<in> set (port_fds env ports) \<or> n_socks (su_mgr st) p = Some fd)"
    using open_ports_ok [OF fresh d, of junk now] by blast
  show ?thesis
  proof (cases "all_open env ports")
    case False
    then show ?thesis using st1 by (simp add: DoFork_def Let_def ports [symmetric])
  next
    case True
    note s = st1(3) [OF True]
    show ?thesis
    proof (cases "opens dn_env")
      case False
      obtain st2 where "open_server SERVER_PORT (mgr_GetDNPort ?info) dn_env st1 = (None, st2)" "su_fam st2 = su_fam st1"
        by (rule open_server_fails [OF False])
      then show ?thesis using False True st1(1,2) by (simp add: DoFork_def Let_def ports [symmetric])
    next
      case open_dn: True
      let ?fs = "map forks [0..<nat (mgr_GetDNCnt ?info)]"
      have fr1: "su_fresh st1" and ps: "list_all (watched st1 env) ports" using s by blast+
      have un: "unused_fd st1 (le_fd dn_env)" using s fds by (auto simp: unused_fd_def) blast
      obtain p1 st2 a st3 where o: "open_server SERVER_PORT (mgr_GetDNPort ?info) dn_env st1 = (Some p1, st2)"
        "new_ClientServer junk now p1 st2 = (a, st3)" "su_fam st3 = su_fam st1" "n_epoll (su_mgr st3) (le_fd dn_env) = None"
        "\<forall>fam. listens_on (st3\<lparr>su_dn := Some a, su_fam := fam\<rparr>) a SERVER_PORT (mgr_GetDNPort ?info) (le_fd dn_env) \<and>
          list_all (watched (st3\<lparr>su_dn := Some a, su_fam := fam\<rparr>) env) ports"
        by (rule open_dn_ok [where port = "mgr_GetDNPort ?info" and junk = junk and now = now, OF fr1 un open_dn ps])
      let ?fam = "snd (SpawnProcess_count this (Some proc) ?fs (su_fam st))"
      let ?st' = "st3\<lparr>su_dn := Some a, su_fam := ?fam\<rparr>"
      have "DoFork this proc env dn_env forks junk now st = Inr (True, ?st')"
        using st1(1,2) True o(1-3) by (simp add: DoFork_def Let_def ports [symmetric] split: prod.split)
      moreover have "population ?fam = int (forks_made ?fs)"
        using fam_run_wf [OF fam_run.fork_all [OF proc(2,3,1) alone(1,2,3) pids]] by simp
      ultimately show ?thesis using True open_dn o(4,5) by auto
    qed
  qed
qed

definition demo_info :: ServerInfoDNMgr where
  "demo_info = (ServerInfoDNMgr_new undefined)\<lparr>mgr_mapServerPort := [(SERVER_PORT, 5222)], mgr_iDNPort := 8000, mgr_iDNCnt := 2\<rparr>"

definition demo_startup :: startup where
  "demo_startup = \<lparr>su_mgr = net.extend \<lparr>n_socks = Map.empty, n_kern = Map.empty, n_epoll = Map.empty\<rparr>
       \<lparr>cm_iConnCount = 0, m_pServerInfo = demo_info, m_pWorkQueue = CircularQueue_new (\<lambda>_. 0),
        m_lstChatServer = [], cm_clients = Map.empty, cm_next = 0\<rparr>,
     su_socks = Map.empty, su_servers = Map.empty, su_dn = None, su_fam = demo_family\<rparr>"

definition demo_listen :: "int \<Rightarrow> listen_env" where
  "demo_listen fd = \<lparr>le_fd = fd, le_bind = True, le_listen = True, le_nonblock = True, le_linger = True\<rparr>"

lemma demo_startup_sel [simp]:
  "m_pServerInfo (su_mgr demo_startup) = demo_info" "n_socks (su_mgr demo_startup) = Map.empty"
  "n_epoll (su_mgr demo_startup) = Map.empty" "su_servers demo_startup = Map.empty" "su_socks demo_startup = Map.empty"
  "su_fam demo_startup = demo_family" "mgr_GetPortMap demo_info = [(SERVER_PORT, 5222)]" "mgr_GetDNCnt demo_info = 2"
  by (simp_all add: demo_startup_def demo_info_def net.defs mgr_GetPortMap_def mgr_GetDNCnt_def)

theorem DoFork_listens_witness:
  "\<exists>st'. DoFork 0 1 (\<lambda>_. demo_listen 3) (demo_listen 4) (\<lambda>i. Some (int i + 100)) (\<lambda>_. 0) 0 demo_startup = Inr (True, st') \<and>
    n_epoll (su_mgr st') 3 \<noteq> None \<and> n_epoll (su_mgr st') 4 = None \<and> population (su_fam st') = 2"
proof -
  have up: "[0..<2] = [0, 1 :: nat]" by (simp add: upt_rec)
  have "su_fresh demo_startup" by (simp add: su_fresh_def)
  moreover have "forks_fit (map (\<lambda>i. Some (int i + 100)) [0..<nat 2]) demo_family" by (simp add: up demo_family_def)
  moreover have "opens (demo_listen fd) \<longleftrightarrow> 0 \<le> fd" "le_fd (demo_listen fd) = fd" for fd
    by (simp_all add: demo_listen_def opens_def)
  ultimately show ?thesis
    using DoFork_listens [of "[(SERVER_PORT, 5222)]" demo_startup 0 1 Process_new Process_new "\<lambda>i. Some (int i + 100)"
        "demo_listen 4" "\<lambda>_. demo_listen 3" "\<lambda>_. 0" 0]
    by (auto simp: demo_family_def port_fds_def unused_fd_def all_open_def watched_def up)
qed

section \<open>The loop of ChatManager::Run\<close>

text \<open>One polled event: for a server socket what \<open>accept\<close> gives and the value that the uninitialised identifier of
  the new object has, for a connection what \<open>cm_event\<close> does.\<close>

record polled =
  po_event :: "32 word"
  po_client :: nat
  po_accept :: "(int \<times> Socket) option"
  po_uid :: "64 word"

definition listener_type :: "startup \<Rightarrow> ClientServer \<Rightarrow> ENUM_SERVERSOCKET_TYPE res" where
  "listener_type st c =
     (case m_cSocket c of None \<Rightarrow> Inl NullDeref
      | Some p \<Rightarrow> (case su_socks st p of None \<Rightarrow> Inl UseAfterFree | Some s \<Rightarrow> Inr (ServerSocket_GetType s)))"

definition manager_event :: "build \<Rightarrow> (nat \<Rightarrow> byte) \<Rightarrow> int \<Rightarrow> startup \<Rightarrow> polled \<Rightarrow> startup res" where
  "manager_event bd junk now st e =
     (case su_servers st (po_client e) of
        Some c \<Rightarrow>
          bindR (if po_accept e = None then Inr SERVER_PORT else listener_type st c) (\<lambda>ty.
          bindR (cm_accept bd junk (po_uid e) now ty (su_mgr st) (po_accept e)) (\<lambda>m. Inr (st\<lparr>su_mgr := m\<rparr>)))
      | None \<Rightarrow> bindR (cm_event bd now (su_mgr st) (po_event e) (po_client e)) (\<lambda>m. Inr (st\<lparr>su_mgr := m\<rparr>)))"

fun manager_events :: "build \<Rightarrow> (nat \<Rightarrow> byte) \<Rightarrow> int \<Rightarrow> startup \<Rightarrow> polled list \<Rightarrow> startup res" where
  "manager_events bd junk now st [] = Inr st"
| "manager_events bd junk now st (e # es) =
     bindR (manager_event bd junk now st e) (\<lambda>st'. manager_events bd junk now st' es)"

text \<open>One round of the loop; nothing ever clears the flag that would end it.\<close>

definition manager_round :: "build \<Rightarrow> nat \<Rightarrow> (int \<times> wait_status) option \<Rightarrow> int option \<Rightarrow> (nat \<Rightarrow> byte) \<Rightarrow> int \<Rightarrow>
    polled list \<Rightarrow> startup \<Rightarrow> startup res" where
  "manager_round bd this wt fk junk now es st =
     manager_events bd junk now (st\<lparr>su_fam := snd (WatchChildProcess this wt fk (su_fam st))\<rparr>) es"

lemma cm_accept_listed:
  assumes kern: "fresh_fd m fd" "n_epoll m fd = None" and room: "cm_iConnCount m < cm_GetMaxUser m"
  shows "\<exists>m'. cm_accept bd junk uid now SERVER_PORT m (Some (fd, s)) = Inr m' \<and>
    m_lstChatServer m' = m_lstChatServer m @ [Suc (cm_next m)] \<and> cm_iConnCount m' = cm_iConnCount m + 1 \<and>
    n_epoll m' = (n_epoll m)(fd \<mapsto> (cm_flags bd, Suc (cm_next m))) \<and>
    n_socks m' = (n_socks m)(cm_next m \<mapsto> fd) \<and> (\<forall>g. g \<noteq> fd \<longrightarrow> n_kern m' g = n_kern m g) \<and>
    (\<exists>c. cm_clients m' (Suc (cm_next m)) = Some c \<and> m_cSocket c = Some (cm_next m) \<and> m_pMainProcess c = Some ProcChatManager)"
  using assms
  by (simp add: cm_accept_def cm_socket_new_def Let_def cm_GetMaxUser_def IOMP_EPoll_AddClient_def
      ClientChatServer_new_def Client.defs Client_new_socket_def SetMainProcess_def SetState_def)

text \<open>C14: A chat server that connects to a manager with room for it is registered: the event \<open>epoll\<close> reports for
  the configured port makes one round of the loop accept the connection, append the new client to the list,
  count it and watch its descriptor with the manager's flags; the configured port is still watched.\<close>

theorem manager_takes_connection:
  assumes port: "watched st env (SERVER_PORT, port)" and fresh: "su_fresh st"
    and new: "fresh_fd (su_mgr st) fd" "n_epoll (su_mgr st) fd = None"
    and room: "cm_iConnCount (su_mgr st) < cm_GetMaxUser (su_mgr st)"
  shows "\<exists>a st'. IOMP_EPoll_Polling (su_mgr st) [(le_fd (env SERVER_PORT), EPOLLIN)] = [(EPOLLIN, a)] \<and>
    manager_round bd this None fk junk now [\<lparr>po_event = EPOLLIN, po_client = a, po_accept = Some (fd, s), po_uid = uid\<rparr>] st = Inr st' \<and>
    m_lstChatServer (su_mgr st') = m_lstChatServer (su_mgr st) @ [Suc (cm_next (su_mgr st))] \<and>
    cm_iConnCount (su_mgr st') = cm_iConnCount (su_mgr st) + 1 \<and>
    n_epoll (su_mgr st') fd = Some (cm_flags bd, Suc (cm_next (su_mgr st))) \<and>
    (\<exists>c. cm_clients (su_mgr st') (Suc (cm_next (su_mgr st))) = Some c \<and> m_pMainProcess c = Some ProcChatManager) \<and>
    watched st' env (SERVER_PORT, port)"
proof -
  let ?l = "le_fd (env SERVER_PORT)"
  obtain a c p sk k where w: "n_epoll (su_mgr st) ?l = Some (EPOLLIN, a)" "su_servers st a = Some c" "m_eType c = CLIENT_SERVER"
    "m_cSocket c = Some p" "n_socks (su_mgr st) p = Some ?l" "su_socks st p = Some sk" "ServerSocket_GetType sk = SERVER_PORT"
    "sin_port (m_ServerAddr sk) = swap16 (word_of_int port)" "n_kern (su_mgr st) ?l = Some k" "so_flags k = O_NDELAY"
    using port by (auto simp: watched_def listens_on_def)
  obtain m' where m': "cm_accept bd junk uid now SERVER_PORT (su_mgr st) (Some (fd, s)) = Inr m'"
    "m_lstChatServer m' = m_lstChatServer (su_mgr st) @ [Suc (cm_next (su_mgr st))]" "cm_iConnCount m' = cm_iConnCount (su_mgr st) + 1"
    "n_epoll m' = (n_epoll (su_mgr st))(fd \<mapsto> (cm_flags bd, Suc (cm_next (su_mgr st))))"
    "n_socks m' = (n_socks (su_mgr st))(cm_next (su_mgr st) \<mapsto> fd)" "\<forall>g. g \<noteq> fd \<longrightarrow> n_kern m' g = n_kern (su_mgr st) g"
    "\<exists>c. cm_clients m' (Suc (cm_next (su_mgr st))) = Some c \<and> m_cSocket c = Some (cm_next (su_mgr st)) \<and> m_pMainProcess c = Some ProcChatManager"
    using cm_accept_listed [OF new room, of bd junk uid now s] by blast
  let ?st' = "st\<lparr>su_mgr := m'\<rparr>"
  let ?e = "\<lparr>po_event = EPOLLIN, po_client = a, po_accept = Some (fd, s), po_uid = uid\<rparr>"
  have "IOMP_EPoll_Polling (su_mgr st) [(?l, EPOLLIN)] = [(EPOLLIN, a)]"
    using w(1) by (simp add: IOMP_EPoll_Polling_def EPOLL_SIZE_def List.map_filter_def)
  moreover have "manager_round bd this None fk junk now [?e] st = Inr ?st'"
    using w m'(1) by (simp add: manager_round_def WatchChildProcess_def manager_event_def listener_type_def)
  moreover have "fd \<noteq> ?l" "p \<noteq> cm_next (su_mgr st)"
    using w(1,6) new(2) fresh by (auto simp: su_fresh_def)
  then have "watched ?st' env (SERVER_PORT, port)"
    using w m'(4,5,6) by (simp add: watched_def listens_on_def)
  ultimately show ?thesis using m' by (intro exI [of _ a] exI [of _ ?st']) auto
qed

definition demo_up :: startup where
  "demo_up = demo_startup\<lparr>su_mgr := (su_mgr demo_startup)\<lparr>n_socks := [0 \<mapsto> 3],
       n_kern := [3 \<mapsto> (Socket_new 3 [] [])\<lparr>so_flags := O_NDELAY\<rparr>], n_epoll := [3 \<mapsto> (EPOLLIN, 1)], cm_next := 2\<rparr>,
     su_socks := [0 \<mapsto> snd (open_listener SERVER_PORT 5222 (demo_listen 3))],
     su_servers := [1 \<mapsto> ClientServer_new (\<lambda>_. 0) 0 (Some 0)]\<rparr>"

theorem manager_takes_connection_witness:
  "\<exists>a st'. manager_round BuildET 0 None None (\<lambda>_. 0) 0
      [\<lparr>po_event = EPOLLIN, po_client = a, po_accept = Some (7, Socket_new 7 [] []), po_uid = 0\<rparr>] demo_up = Inr st' \<and>
    m_lstChatServer (su_mgr st') = [3] \<and> n_epoll (su_mgr st') 7 = Some (cm_flags BuildET, 3)"
proof -
  have w: "watched demo_up (\<lambda>_. demo_listen 3) (SERVER_PORT, 5222)"
    by (simp add: watched_def listens_on_def demo_up_def demo_listen_def ServerSocket_GetType_def open_listener_ok
        ClientServer_new_def Client.defs Client_new_socket_def)
  have m: "cm_GetMaxUser (su_mgr demo_up) = mgr_GetMaxUser demo_info + 2" "cm_iConnCount (su_mgr demo_up) = 0"
      "m_lstChatServer (su_mgr demo_up) = []" "cm_next (su_mgr demo_up) = 2"
    by (simp_all add: demo_up_def cm_GetMaxUser_def demo_startup_def net.defs)
  have "su_fresh demo_up" by (auto simp: su_fresh_def demo_up_def)
  moreover have "fresh_fd (su_mgr demo_up) 7" "n_epoll (su_mgr demo_up) 7 = None"
    by (auto simp: demo_up_def fresh_fd_def split: if_splits)
  moreover have "mgr_GetMaxUser demo_info = 0" by (simp add: mgr_GetMaxUser_def demo_info_def ServerInfoDNMgr_new_def)
  ultimately show ?thesis
    using manager_takes_connection [OF w, of 7 BuildET 0 None "\<lambda>_. 0" 0 "Socket_new 7 [] []" 0] by (auto simp: m)
qed

section \<open>The start of ChatServer::Run\<close>

text \<open>\<open>ConnectToMgr\<close> from the settings: one attempt for each piece of the configured list. \<open>env\<close> is what happens
  when that server is called at that port.\<close>

definition ConnectToMgr_configured :: "(nat \<Rightarrow> int) \<Rightarrow> int \<Rightarrow> (string \<Rightarrow> int \<Rightarrow> mgr_env) \<Rightarrow> ServerInfoDN \<Rightarrow> ChatServer \<Rightarrow>
    (string list \<times> ChatServer) res" where
  "ConnectToMgr_configured now pid env info w =
     (let port = dn_GetPort info SERVER_PORT_MGR in
      bindR (dn_GetManagerIpAddresses info) (\<lambda>s.
        case split s '','' of None \<Rightarrow> Inl Blocks
        | Some v \<Rightarrow> bindR (ConnectToMgr now pid (map (\<lambda>server. env server port) v) w) (\<lambda>w'. Inr (v, w'))))"

datatype thread_kind = KAcceptor | KReceiver | KBroadcaster | KWorker

text \<open>\<open>new ThreadX(this)\<close> and \<open>Spawn\<close>, one after the other: the pointers with the kind of each object, and the
  thread manager. \<open>created i\<close> is what \<open>pthread_create\<close> answers for the \<open>i\<close>-th.\<close>

fun spawn_threads :: "(nat \<Rightarrow> int option) \<Rightarrow> nat \<Rightarrow> thread_kind list \<Rightarrow> ThreadManager \<Rightarrow> ((nat \<times> thread_kind) list \<times> ThreadManager) res" where
  "spawn_threads created a [] tm = Inr ([], tm)"
| "spawn_threads created a (k # ks) tm =
     (let tm1 = tm\<lparr>tm_threads := (tm_threads tm)(a \<mapsto> (if k = KAcceptor then Thread_SetStarted Thread_new True else Thread_new))\<rparr> in
      bindR (ThreadManager_Spawn (created a) (ThreadManager_GetInstance tm1) a) (\<lambda>(_, tm2).
      bindR (spawn_threads created (Suc a) ks tm2) (\<lambda>(ts, tm3). Inr ((a, k) # ts, tm3))))"

definition server_kinds :: "ServerInfoDN \<Rightarrow> thread_kind list" where
  "server_kinds info = KAcceptor # replicate (nat (dn_GetThreadCount info THREAD_RECEIVER)) KReceiver
     @ replicate (nat (dn_GetThreadCount info THREAD_BROADCASTER)) KBroadcaster"

definition manager_kinds :: "ServerInfoDNMgr \<Rightarrow> thread_kind list" where
  "manager_kinds info = replicate (nat (mgr_GetThreadCount info THREAD_WORKER)) KWorker"

text \<open>\<open>ChatServer::Run\<close> up to its loop: the process object, the threads, the server.\<close>

definition ChatServer_start :: "build \<Rightarrow> (nat \<Rightarrow> byte) \<Rightarrow> (nat \<Rightarrow> int) \<Rightarrow> int \<Rightarrow> int \<Rightarrow> int \<Rightarrow> (string \<Rightarrow> int \<Rightarrow> mgr_env) \<Rightarrow>
    (nat \<Rightarrow> int option) \<Rightarrow> ServerInfoDN \<Rightarrow> Process \<Rightarrow> ThreadManager \<Rightarrow> ChatServer \<Rightarrow>
    (Process \<times> (nat \<times> thread_kind) list \<times> ThreadManager \<times> ChatServer) res" where
  "ChatServer_start bd junk clock now pid ppid env created info pr tm w =
     (let pr1 = SetPPid ppid (Process_SetStarted True pr) in
      bindR (ConnectToMgr_configured clock pid env info w) (\<lambda>(_, w1).
      bindR (spawn_threads created 0 (server_kinds info) tm) (\<lambda>(ts, tm1).
      bindR (RegisterManager bd junk now w1) (\<lambda>w2. Inr (pr1, ts, tm1, w2)))))"

lemma NegotiationWithManager_keeps_list:
  "NegotiationWithManager now pid e w = Inr (p, w') \<Longrightarrow> m_lstChatManagerSocket w' = m_lstChatManagerSocket w"
  by (auto simp: NegotiationWithManager_def socket_new_def Let_def delete_socket_def write_at_def SetMaxUser_def bindR_def
      split: if_splits option.splits sum.splits)

lemma ConnectToMgr_length:
  "ConnectToMgr now pid es w = Inr w' \<Longrightarrow> length (m_lstChatManagerSocket w') = length (m_lstChatManagerSocket w) + length es"
proof (induction es arbitrary: w)
  case (Cons e es)
  obtain p w1 where n: "NegotiationWithManager (now (length es)) pid e w = Inr (p, w1)"
    "ConnectToMgr now pid es (w1\<lparr>m_lstChatManagerSocket := m_lstChatManagerSocket w1 @ [p]\<rparr>) = Inr w'"
    using Cons.prems by (auto simp: bindR_def split: sum.splits)
  show ?case using Cons.IH [OF n(2)] NegotiationWithManager_keeps_list [OF n(1)] by simp
qed simp

text \<open>One entry of the list of manager sockets for each piece of the setting, connected or NULL.\<close>

lemma one_entry_per_manager:
  assumes "ConnectToMgr_configured now pid env info w = Inr (v, w')" "dn_GetManagerIpAddresses info = Inr s"
  shows "join '','' v = s" "length (m_lstChatManagerSocket w') = length (m_lstChatManagerSocket w) + length v"
proof -
  have "split s '','' = Some (pieces '','' s)" by (simp add: split_def split_from_pieces)
  then have "v = pieces '','' s" "ConnectToMgr now pid (map (\<lambda>server. env server (dn_GetPort info SERVER_PORT_MGR)) v) w = Inr w'"
    using assms by (auto simp: ConnectToMgr_configured_def Let_def bindR_def split: sum.splits)
  then show "join '','' v = s" "length (m_lstChatManagerSocket w') = length (m_lstChatManagerSocket w) + length v"
    using ConnectToMgr_length by (fastforce simp: join_pieces)+
qed

text \<open>Every thread is handed to the thread manager, whether or not it could be created.\<close>

lemma spawn_threads_all:
  "\<exists>tm'. spawn_threads created a ks tm = Inr (zip [a ..< a + length ks] ks, tm') \<and> (ks \<noteq> [] \<longrightarrow> m_SelfInstance tm') \<and>
     m_lstThreadHandle tm' = (if m_SelfInstance tm \<or> ks = [] then m_lstThreadHandle tm else []) @ [a ..< a + length ks]"
proof (induction ks arbitrary: a tm)
  case (Cons k ks)
  let ?tm1 = "tm\<lparr>tm_threads := (tm_threads tm)(a \<mapsto> (if k = KAcceptor then Thread_SetStarted Thread_new True else Thread_new))\<rparr>"
  let ?g = "ThreadManager_GetInstance ?tm1"
  let ?tm2 = "?g\<lparr>tm_threads := (tm_threads ?g)(a \<mapsto> snd (Thread_Spawn (created a) (the (tm_threads ?g a)))),
      m_lstThreadHandle := m_lstThreadHandle ?g @ [a]\<rparr>"
  have sp: "ThreadManager_Spawn (created a) ?g a = Inr (True, ?tm2)"
    by (simp add: ThreadManager_Spawn_def ThreadManager_GetInstance_def)
  have self: "m_SelfInstance ?tm2" by (simp add: ThreadManager_GetInstance_def)
  obtain tm3 where "spawn_threads created (Suc a) ks ?tm2 = Inr (zip [Suc a ..< Suc a + length ks] ks, tm3)"
    "ks \<noteq> [] \<longrightarrow> m_SelfInstance tm3" "m_lstThreadHandle tm3 = m_lstThreadHandle ?tm2 @ [Suc a ..< Suc a + length ks]"
    "ks = [] \<longrightarrow> tm3 = ?tm2"
    using Cons.IH [of "Suc a" ?tm2] self by (cases "ks = []") auto
  moreover have "[a ..< a + length (k # ks)] = a # [Suc a ..< Suc a + length ks]" by (subst upt_conv_Cons) simp_all
  ultimately show ?case using sp self by (auto simp: ThreadManager_GetInstance_def Let_def)
qed simp

section \<open>An event on the server socket in ChatServer::Run\<close>

definition server_socket_event :: "build \<Rightarrow> (nat \<Rightarrow> byte) \<Rightarrow> int \<Rightarrow> ENUM_SERVERSOCKET_TYPE \<Rightarrow> ChatServer \<Rightarrow>
    (int \<times> Socket) option \<Rightarrow> ChatServer res" where
  "server_socket_event bd junk now type w kern =
     (case kern of None \<Rightarrow> Inr w
      | Some (fd, s) \<Rightarrow>
          let (p, w1) = socket_new w fd s;
              w2 = (case n_kern w1 fd of None \<Rightarrow> w1
                    | Some s' \<Rightarrow> w1\<lparr>n_kern := (n_kern w1)(fd \<mapsto> s'\<lparr>so_flags := O_NDELAY\<rparr>)\<rparr>)
          in if GetCurrentUserCount w2 \<ge> GetMaxUser w2 then delete_socket w2 (Some p)
             else if type = SERVER_PORT then AcceptClient bd junk now w2 (Some p) CLIENT_USER
             else delete_socket w2 (Some p))"

text \<open>The main thread and the accept thread do the same with a connection to the users' port.\<close>

lemma server_socket_event_is_accept_round:
  "server_socket_event bd junk now SERVER_PORT w kern = accept_round bd junk now w kern"
  by (auto simp: server_socket_event_def accept_round_def socket_new_def Let_def delete_socket_def GetCurrentUserCount_def
      GetMaxUser_def split: option.split)

section \<open>The log of a chat server\<close>

text \<open>The name that \<open>ChatServer::Run\<close> gives to its log, and the log from there. The first goes into an array of
  1024 characters, but the logger keeps 256.\<close>

definition server_log_name :: "ServerInfoDN \<Rightarrow> int \<Rightarrow> string res" where
  "server_log_name info pid =
     bindR (dn_GetLogFileName info) (\<lambda>name.
       let s = name @ ''_'' @ zpad 1 pid in if 1024 \<le> length s then Inl OutOfBounds else Inr s)"

definition open_server_log :: "log_env \<Rightarrow> ServerInfoDN \<Rightarrow> int \<Rightarrow> CNPLog \<Rightarrow> (int \<times> CNPLog) res" where
  "open_server_log e info pid l = bindR (server_log_name info pid) (\<lambda>name. SetFileName e name l)"

lemma zpad_no_NUL: "NUL \<notin> set (zpad w n)"
  using dec_digits [of NUL] by (auto simp: zpad_def Let_def NUL_def isdigit_def)

lemma open_server_log_long:
  assumes "dn_GetLogFileName info = Inr name" "length name < 256" "0 \<le> pid" "pid < 2 ^ 31" "255 \<le> length name + length (zpad 1 pid)"
  shows "server_log_name info pid = Inr (name @ ''_'' @ zpad 1 pid)" "open_server_log e info pid l = Inl Unterminated"
proof -
  have "nat pid < 10 ^ 10" using assms(3,4) by simp
  then have "length (zpad 1 pid) \<le> 10" using dec_length [of "nat pid" 10] assms(3) by (simp add: zpad_def Let_def)
  then show n: "server_log_name info pid = Inr (name @ ''_'' @ zpad 1 pid)"
    using assms(1,2) by (simp add: server_log_name_def)
  have "NUL \<notin> set name"
    using assms(1) by (auto simp: dn_GetLogFileName_def c_str_def split: if_splits dest: set_takeWhileD)
  then have "NUL \<notin> set (name @ ''_'' @ zpad 1 pid)" using zpad_no_NUL by (simp add: NUL_def)
  then show "open_server_log e info pid l = Inl Unterminated"
    using SetFileName_long [of "name @ ''_'' @ zpad 1 pid" e l] n assms(5) by (simp add: open_server_log_def MAX_FILE_NAME_def)
qed

text \<open>The start of \<open>ChatManager::Run\<close>: it returns if the log cannot be opened, and the children go on without a manager.\<close>

definition manager_start :: "log_env \<Rightarrow> (nat \<Rightarrow> int option) \<Rightarrow> ServerInfoDNMgr \<Rightarrow> ThreadManager \<Rightarrow> CNPLog \<Rightarrow>
    (bool \<times> (nat \<times> thread_kind) list \<times> ThreadManager \<times> CNPLog) res" where
  "manager_start e created info tm l =
     bindR (mgr_GetLogFileName info) (\<lambda>name.
     bindR (SetFileName e name l) (\<lambda>(r, l').
       if r \<noteq> 0 then Inr (False, [], tm, l')
       else bindR (spawn_threads created 0 (manager_kinds info) tm) (\<lambda>(ts, tm'). Inr (True, ts, tm', l'))))"

end
