(* ===== verification/ManagerRace.thy ===== *)
theory ManagerRace
  imports ManagerRelay
begin

text \<open>
  The loop of \<open>ChatManager::MessageBroadcast\<close> (src/ChatManager.cpp) takes no lock, while \<open>Run\<close> and the other
  workers append to \<open>m_lstChatServer\<close> and \<open>CloseClient\<close> removes from it. Here the loop is cut into its rounds and
  the other threads act between them. An iterator of the list is the client its node holds, or nothing for
  \<open>end()\<close>; one whose node has been removed cannot be read.
\<close>

section \<open>The loop in rounds\<close>

datatype race_step = Visit | CloseBy nat | AcceptBy "(int \<times> Socket) option"

fun after :: "nat \<Rightarrow> nat list \<Rightarrow> nat option" where
  "after a [] = None"
| "after a (b # bs) = (if a = b then (case bs of [] \<Rightarrow> None | c # _ \<Rightarrow> Some c) else after a bs)"

definition list_begin :: "nat list \<Rightarrow> nat option" where
  "list_begin as = (case as of [] \<Rightarrow> None | a # _ \<Rightarrow> Some a)"

definition broadcast_round :: "T_PACKET \<Rightarrow> ChatManager \<Rightarrow> nat option \<Rightarrow> (ChatManager \<times> nat option) res" where
  "broadcast_round p m iter =
     (case iter of None \<Rightarrow> Inr (m, None)
      | Some a \<Rightarrow>
          if a \<notin> set (m_lstChatServer m) then Inl BadIterator
          else bindR (cm_broadcast m [a] p) (\<lambda>m'. Inr (m', after a (m_lstChatServer m'))))"

text \<open>What the others may do between two rounds, and a whole schedule.\<close>

definition other_step :: "(ChatManager \<Rightarrow> (int \<times> Socket) option \<Rightarrow> ChatManager res) \<Rightarrow> ChatManager \<Rightarrow> race_step \<Rightarrow>
    ChatManager res" where
  "other_step acc m st = (case st of Visit \<Rightarrow> Inr m | CloseBy a \<Rightarrow> cm_CloseClient m a | AcceptBy kern \<Rightarrow> acc m kern)"

fun race :: "(ChatManager \<Rightarrow> (int \<times> Socket) option \<Rightarrow> ChatManager res) \<Rightarrow> T_PACKET \<Rightarrow> race_step list \<Rightarrow> ChatManager \<Rightarrow>
    nat option \<Rightarrow> (ChatManager \<times> nat option) res" where
  "race acc p [] m iter = Inr (m, iter)"
| "race acc p (Visit # sts) m iter = bindR (broadcast_round p m iter) (\<lambda>(m', iter'). race acc p sts m' iter')"
| "race acc p (st # sts) m iter = bindR (other_step acc m st) (\<lambda>m'. race acc p sts m' iter)"

definition race_broadcast :: "(ChatManager \<Rightarrow> (int \<times> Socket) option \<Rightarrow> ChatManager res) \<Rightarrow> T_PACKET \<Rightarrow> race_step list \<Rightarrow>
    ChatManager \<Rightarrow> ChatManager res" where
  "race_broadcast acc p sts m = bindR (race acc p sts m (list_begin (m_lstChatServer m))) (\<lambda>(m', _). Inr m')"

text \<open>The others close what is listed and accept what the kernel gives.\<close>

fun race_legal :: "(ChatManager \<Rightarrow> (int \<times> Socket) option \<Rightarrow> ChatManager res) \<Rightarrow> T_PACKET \<Rightarrow> race_step list \<Rightarrow> ChatManager \<Rightarrow>
    nat option \<Rightarrow> bool" where
  "race_legal acc p [] m iter \<longleftrightarrow> True"
| "race_legal acc p (Visit # sts) m iter \<longleftrightarrow>
     (case broadcast_round p m iter of Inl _ \<Rightarrow> True | Inr (m', iter') \<Rightarrow> race_legal acc p sts m' iter')"
| "race_legal acc p (st # sts) m iter \<longleftrightarrow>
     (case st of Visit \<Rightarrow> True | CloseBy a \<Rightarrow> a \<in> set (m_lstChatServer m) | AcceptBy kern \<Rightarrow> cm_accept_ok m kern) \<and>
     (case other_step acc m st of Inl _ \<Rightarrow> True | Inr m' \<Rightarrow> race_legal acc p sts m' iter)"

section \<open>Without pointers\<close>

text \<open>The connections still to be served; nothing when the one the loop stands at has been removed.\<close>

fun rest_after_close :: "nat \<Rightarrow> nat list option \<Rightarrow> nat list option" where
  "rest_after_close a (Some (b # bs)) = (if a = b then None else Some (b # removeAll a bs))"
| "rest_after_close a rest = rest"

fun rest_after_accept :: "nat list \<Rightarrow> nat list option \<Rightarrow> nat list option" where
  "rest_after_accept new (Some (b # bs)) = Some (b # bs @ new)"
| "rest_after_accept new rest = rest"

fun serve :: "(ChatManager \<Rightarrow> (int \<times> Socket) option \<Rightarrow> ChatManager res) \<Rightarrow> T_PACKET \<Rightarrow> race_step list \<Rightarrow> ChatManager \<Rightarrow>
    nat list option \<Rightarrow> (ChatManager \<times> nat list option) res" where
  "serve acc p [] m rest = Inr (m, rest)"
| "serve acc p (Visit # sts) m rest =
     (case rest of None \<Rightarrow> Inl BadIterator
      | Some [] \<Rightarrow> serve acc p sts m rest
      | Some (a # as) \<Rightarrow> bindR (cm_broadcast m [a] p) (\<lambda>m'. serve acc p sts m' (Some as)))"
| "serve acc p (CloseBy a # sts) m rest =
     bindR (cm_CloseClient m a) (\<lambda>m'. serve acc p sts m' (rest_after_close a rest))"
| "serve acc p (AcceptBy kern # sts) m rest =
     bindR (acc m kern) (\<lambda>m'.
       serve acc p sts m' (rest_after_accept (drop (length (m_lstChatServer m)) (m_lstChatServer m')) rest))"

definition stands :: "ChatManager \<Rightarrow> nat list option \<Rightarrow> nat option \<Rightarrow> bool" where
  "stands m rest iter \<longleftrightarrow>
     (case rest of None \<Rightarrow> (\<exists>a. iter = Some a \<and> a \<notin> set (m_lstChatServer m) \<and> a < cm_next m)
      | Some as \<Rightarrow> iter = list_begin as \<and> (\<exists>done. m_lstChatServer m = done @ as))"

lemma after_append: "distinct (xs @ a # ys) \<Longrightarrow> after a (xs @ a # ys) = list_begin ys"
  by (induction xs) (auto simp: list_begin_def)

lemma cm_broadcast_kern: "cm_broadcast m as p = Inr m' \<Longrightarrow> kern_change m m'"
proof (induction m as p rule: cm_broadcast.induct)
  case (2 m a as p)
  obtain c where c: "cm_client m a = Inr c" using "2.prems" by (auto simp: bindR_Inr_iff)
  show ?case
  proof (cases "scast (cc_GetUniqId c) = packet_uid p")
    case True
    then show ?thesis using 2 c by simp
  next
    case False
    then obtain r m1 where "write_at m (Client_GetSocket c) (T_PACKET_bytes p)
          (int PDUHEADERSIZE + uint (hdr_length (pkt_header p))) = Inr (r, m1)" "cm_broadcast m1 as p = Inr m'"
      using "2.prems" c by (auto simp: bindR_Inr_iff)
    then show ?thesis using "2.IH"(1) [of c] False write_kern(1) kern_change_trans by blast
  qed
qed (simp add: kern_change_refl)

lemma cm_wf_kern_change: "kern_change m m' \<Longrightarrow> cm_wf m \<Longrightarrow> cm_wf m'"
  using cm_wf_kern by (auto simp: kern_change_def)

text \<open>What an accepted connection does to the list.\<close>

abbreviation new_conns :: "ChatManager \<Rightarrow> ChatManager \<Rightarrow> nat list" where
  "new_conns m m' \<equiv> drop (length (m_lstChatServer m)) (m_lstChatServer m')"

lemma cm_accept_list:
  "cm_accept bd junk uid now type m kern = Inr m' \<Longrightarrow>
     cm_next m \<le> cm_next m' \<and> m_lstChatServer m' = m_lstChatServer m @ new_conns m m' \<and>
     (\<forall>a \<in> set (new_conns m m'). cm_next m \<le> a)"
  by (auto simp: cm_accept_def cm_socket_new_def Let_def delete_socket_def cm_delete_client_def bindR_Inr_iff
      IOMP_EPoll_AddClient_def split: option.splits if_splits)

section \<open>The pointer and the list agree\<close>

lemma stands_Some: "stands m (Some as) iter \<longleftrightarrow> iter = list_begin as \<and> (\<exists>front. m_lstChatServer m = front @ as)"
  by (simp add: stands_def)

lemma stands_None: "stands m None iter \<longleftrightarrow> (\<exists>a. iter = Some a \<and> a \<notin> set (m_lstChatServer m) \<and> a < cm_next m)"
  by (simp add: stands_def)

lemma rest_cases [case_names gone all_served left]:
  assumes "rest = None \<Longrightarrow> P" "rest = Some [] \<Longrightarrow> P" "\<And>b bs. rest = Some (b # bs) \<Longrightarrow> P"
  shows P
  using assms by (metis list.exhaust option.exhaust)

lemma stands_visit:
  assumes "cm_wf m" "stands m (Some (a # as)) iter" "cm_broadcast m [a] p = Inr m'"
  shows "broadcast_round p m iter = Inr (m', list_begin as)" "stands m' (Some as) (list_begin as)" "cm_wf m'"
proof -
  obtain K where K: "m' = m\<lparr>n_kern := K\<rparr>" and kc: "kern_change m m'"
    using cm_broadcast_kern [OF assms(3)] by (auto simp: kern_change_def)
  obtain front where f: "iter = Some a" "m_lstChatServer m = front @ a # as"
    using assms(2) by (auto simp: stands_Some list_begin_def)
  have "after a (m_lstChatServer m') = list_begin as"
    using after_append [of front a as] cm_wf_distinct [OF assms(1)] f(2) K by simp
  then show "broadcast_round p m iter = Inr (m', list_begin as)" using f assms(3) by (simp add: broadcast_round_def)
  show "stands m' (Some as) (list_begin as)" using f(2) K by (auto simp: stands_Some intro: exI [of _ "front @ [a]"])
  show "cm_wf m'" by (rule cm_wf_kern_change [OF kc assms(1)])
qed

lemma stands_close:
  assumes "cm_wf m" "stands m rest iter" "a \<in> set (m_lstChatServer m)" "cm_CloseClient m a = Inr m'"
  shows "stands m' (rest_after_close a rest) iter" "cm_wf m'"
proof -
  obtain c p fd where cl: "cm_clients m a = Some c" "cm_CloseClient m a = Inr (cm_closed m a p fd)" "cm_wf (cm_closed m a p fd)"
    by (rule cm_CloseClient_ok [OF assms(1,3)])
  then have m': "m' = cm_closed m a p fd" using assms(4) by simp
  show "cm_wf m'" using cl(3) m' by simp
  have next_a: "a < cm_next m"
    using cs_wf_below(1) [of "cm_view m" a "view_user c"] assms(1) cl(1) by (simp add: cm_wf_def)
  have sel [simp]: "m_lstChatServer m' = removeAll a (m_lstChatServer m)" "cm_next m' = cm_next m"
    by (simp_all add: m' cm_closed_def)
  show "stands m' (rest_after_close a rest) iter"
  proof (cases rest rule: rest_cases)
    case (left b bs)
    then obtain front where f: "iter = Some b" "m_lstChatServer m = front @ b # bs" "rest = Some (b # bs)"
      using assms(2) by (auto simp: stands_Some list_begin_def)
    show ?thesis
    proof (cases "a = b")
      case True
      then show ?thesis using f next_a by (simp add: stands_None)
    next
      case False
      then have "removeAll a (m_lstChatServer m) = removeAll a front @ b # removeAll a bs" using f(2) by simp
      then show ?thesis using f False by (auto simp: stands_Some list_begin_def)
    qed
  next
    case gone
    then show ?thesis using assms(2) by (auto simp: stands_None)
  next
    case all_served
    then show ?thesis using assms(2) by (auto simp: stands_Some)
  qed
qed

lemma stands_accept:
  assumes "cm_wf m" "stands m rest iter" "cm_accept_ok m kern" "cm_accept bd junk uid now type m kern = Inr m'"
  shows "stands m' (rest_after_accept (new_conns m m') rest) iter" "cm_wf m'"
proof -
  show "cm_wf m'" using cm_accept_round [OF assms(1,3), where bd = bd and junk = junk and uid = uid and now = now and type = type]
    assms(4) by auto
  have l: "cm_next m \<le> cm_next m'" "m_lstChatServer m' = m_lstChatServer m @ new_conns m m'"
    "\<forall>a \<in> set (new_conns m m'). cm_next m \<le> a"
    using cm_accept_list [OF assms(4)] by auto
  show "stands m' (rest_after_accept (new_conns m m') rest) iter"
  proof (cases rest rule: rest_cases)
    case (left b bs)
    then obtain front where "iter = Some b" "m_lstChatServer m = front @ b # bs" "rest = Some (b # bs)"
      using assms(2) by (auto simp: stands_Some list_begin_def)
    then show ?thesis using l(2) by (auto simp: stands_Some list_begin_def intro!: exI [of _ front])
  next
    case gone
    then obtain a where a: "iter = Some a" "a \<notin> set (m_lstChatServer m)" "a < cm_next m" using assms(2) by (auto simp: stands_None)
    obtain new where "m_lstChatServer m' = m_lstChatServer m @ new" "\<forall>b \<in> set new. cm_next m \<le> b" using l(2,3) by blast
    then have "a \<notin> set (m_lstChatServer m')" using a by auto
    then show ?thesis using gone a l(1) by (simp add: stands_None)
  next
    case all_served
    then show ?thesis using assms(2) by (auto simp: stands_Some)
  qed
qed

section \<open>The whole race\<close>

text \<open>The loop with its iterator does what the walk over the remaining connections does.\<close>

lemma race_serves:
  assumes "cm_wf m" "stands m rest iter" "race_legal (cm_accept bd junk uid now type) p sts m iter"
  shows "bindR (race (cm_accept bd junk uid now type) p sts m iter) (\<lambda>(m', _). Inr m') =
    bindR (serve (cm_accept bd junk uid now type) p sts m rest) (\<lambda>(m', _). Inr m')"
  using assms
proof (induction sts arbitrary: m rest iter)
  case (Cons st sts)
  note wf = Cons.prems(1) and st = Cons.prems(2) and legal = Cons.prems(3)
  show ?case
  proof (cases st)
    case Visit
    show ?thesis
    proof (cases rest rule: rest_cases)
      case gone
      then show ?thesis using st Visit by (auto simp: stands_None broadcast_round_def)
    next
      case all_served
      then have "iter = None" using st by (simp add: stands_Some list_begin_def)
      then show ?thesis using Cons.IH [OF wf st] legal Visit all_served by (simp add: broadcast_round_def)
    next
      case (left a as)
      show ?thesis
      proof (cases "cm_broadcast m [a] p")
        case (Inl e)
        obtain front where "iter = Some a" "m_lstChatServer m = front @ a # as" using st left by (auto simp: stands_Some list_begin_def)
        then show ?thesis using Inl Visit left by (simp add: broadcast_round_def del: cm_broadcast.simps)
      next
        case (Inr m')
        note v = stands_visit [OF wf _ Inr, of as iter]
        show ?thesis
          using v Cons.IH [of m' "Some as" "list_begin as"] Inr Visit left st legal by (simp del: cm_broadcast.simps)
      qed
    qed
  next
    case (CloseBy a)
    show ?thesis
    proof (cases "cm_CloseClient m a")
      case (Inr m')
      then show ?thesis using stands_close [OF wf st _ Inr] Cons.IH [of m'] legal CloseBy by (simp add: other_step_def)
    qed (simp add: CloseBy other_step_def)
  next
    case (AcceptBy kern)
    show ?thesis
    proof (cases "cm_accept bd junk uid now type m kern")
      case (Inr m')
      then show ?thesis using stands_accept [OF wf st _ Inr] Cons.IH [of m'] legal AcceptBy by (simp add: other_step_def)
    qed (simp add: AcceptBy other_step_def)
  qed
qed simp

text \<open>Rounds with nobody in between.\<close>

lemma serve_visits:
  "k \<le> length as \<Longrightarrow> serve acc p (replicate k Visit @ sts) m (Some as) =
    bindR (cm_broadcast m (take k as) p) (\<lambda>m'. serve acc p sts m' (Some (drop k as)))"
proof (induction k arbitrary: m as)
  case (Suc k)
  obtain a as' where as: "as = a # as'" using Suc.prems by (cases as) auto
  have k: "k \<le> length as'" using Suc.prems by (simp add: as)
  have step: "cm_broadcast m (a # take k as') p = bindR (cm_broadcast m [a] p) (\<lambda>m'. cm_broadcast m' (take k as') p)"
    by (cases "cm_client m a") (simp_all add: bindR_assoc split_def)
  have "serve acc p (replicate (Suc k) Visit @ sts) m (Some as) =
      bindR (cm_broadcast m [a] p) (\<lambda>m'. serve acc p (replicate k Visit @ sts) m' (Some as'))"
    by (simp add: as del: cm_broadcast.simps)
  also have "\<dots> = bindR (cm_broadcast m [a] p) (\<lambda>m'. bindR (cm_broadcast m' (take k as') p) (\<lambda>m''. serve acc p sts m'' (Some (drop k as'))))"
    by (simp only: Suc.IH [OF k])
  also have "\<dots> = bindR (cm_broadcast m (take (Suc k) as) p) (\<lambda>m'. serve acc p sts m' (Some (drop (Suc k) as)))"
    by (simp only: as take_Suc_Cons drop_Suc_Cons step bindR_assoc)
  finally show ?case .
qed simp

lemma serve_visits_end: "serve acc p (replicate k Visit) m (Some []) = Inr (m, Some [])"
  by (induction k) simp_all

lemma visits_legal:
  "(\<And>m' iter'. race acc p (replicate k Visit) m iter = Inr (m', iter') \<Longrightarrow> race_legal acc p sts m' iter') \<Longrightarrow>
    race_legal acc p (replicate k Visit @ sts) m iter"
  by (induction k arbitrary: m iter) (auto split: sum.split)

text \<open>The other connections of a manager when one has been closed.\<close>

lemma relay_fd_closed:
  assumes wf: "cm_wf m" and b: "cm_clients m b = Some c" "m_cSocket c = Some q" "n_socks m q = Some g" and a: "a \<noteq> b"
  shows "relay_fd (cm_closed m b q g) uid a = relay_fd m uid a" "relay_fd m uid a \<noteq> Some g"
proof -
  have v: "cs_wf (cm_view m)" using wf by (simp add: cm_wf_def)
  have "m_cSocket d \<noteq> Some q" if "cm_clients m a = Some d" for d
    using cs_wf_sock_inj [OF v, of a "view_user d" b "view_user c"] that b a by auto
  then show "relay_fd (cm_closed m b q g) uid a = relay_fd m uid a"
    using a by (cases "cm_clients m a"; cases "m_cSocket (the (cm_clients m a))") (simp_all add: relay_fd_def cm_closed_def)
  show "relay_fd m uid a \<noteq> Some g"
    using relay_fd_client [of m uid a g] cs_wf_fd_inj [OF v, of q g] b a cs_wf_sock_inj [OF v, of a _ b "view_user c"]
    by (metis cm_view_sel(1,8) option.simps(9) view_user_sel)
qed

lemma in_relay_part: "fd \<in> set (List.map_filter (relay_fd m uid) as) \<longleftrightarrow> (\<exists>a \<in> set as. relay_fd m uid a = Some fd)"
  by (force simp: List.map_filter_def)

lemma relay_fd_kern [simp]: "relay_fd (m\<lparr>n_kern := K\<rparr>) uid a = relay_fd m uid a"
  by (cases "cm_clients m a") (simp_all add: relay_fd_def)

text \<open>\<open>k\<close> rounds, one connection is closed, the rest of the rounds.\<close>

lemma close_between_rounds:
  assumes wf: "cm_wf m" "kern_ok m" and p: "pkt_ok p"
    and resp: "\<And>fd. fd \<in> set (relay_fds m (packet_uid p)) \<Longrightarrow> responsive m fd (pkt_wire p)"
    and k: "k < length (m_lstChatServer m)" and b: "b \<in> set (m_lstChatServer m)"
  obtains m1 m2 where "cm_broadcast m (take k (m_lstChatServer m)) p = Inr m1" "cm_CloseClient m1 b = Inr m2" "cm_wf m2" "kern_ok m2"
    "m_lstChatServer m2 = removeAll b (m_lstChatServer m)"
    "\<And>a. a \<noteq> b \<Longrightarrow> relay_fd m2 (packet_uid p) a = relay_fd m (packet_uid p) a"
    "\<And>a fd. a \<in> set (take k (m_lstChatServer m)) \<Longrightarrow> a \<noteq> b \<Longrightarrow> relay_fd m (packet_uid p) a = Some fd \<Longrightarrow> delivered m m2 fd (pkt_wire p)"
    "\<And>a fd. a \<in> set (drop k (m_lstChatServer m)) \<Longrightarrow> a \<noteq> b \<Longrightarrow> relay_fd m (packet_uid p) a = Some fd \<Longrightarrow> n_kern m2 fd = n_kern m fd"
proof -
  let ?as = "m_lstChatServer m" and ?uid = "packet_uid p"
  have d: "distinct ?as" by (rule cm_wf_distinct [OF wf(1)])
  have front: "distinct (take k ?as)" "set (take k ?as) \<subseteq> set ?as" using d by (auto dest: in_set_takeD)
  have "responsive m fd (pkt_wire p)" if "fd \<in> set (List.map_filter (relay_fd m ?uid) (take k ?as))" for fd
    using resp [of fd] that front(2) unfolding relay_fds_def in_relay_part by blast
  then obtain K where K: "cm_broadcast m (take k ?as) p = Inr (m\<lparr>n_kern := K\<rparr>)" "cm_wf (m\<lparr>n_kern := K\<rparr>)" "kern_ok (m\<lparr>n_kern := K\<rparr>)"
    "\<And>fd. fd \<in> set (List.map_filter (relay_fd m ?uid) (take k ?as)) \<Longrightarrow> delivered m (m\<lparr>n_kern := K\<rparr>) fd (pkt_wire p)"
    "\<And>fd. fd \<notin> set (List.map_filter (relay_fd m ?uid) (take k ?as)) \<Longrightarrow> K fd = n_kern m fd"
    using cm_broadcast_deliver [OF wf p front] by blast
  let ?m1 = "m\<lparr>n_kern := K\<rparr>"
  have "b \<in> set (m_lstChatServer ?m1)" using b by simp
  then obtain c q g where c: "cm_clients ?m1 b = Some c" "m_cSocket c = Some q" "n_socks ?m1 q = Some g"
    "cm_CloseClient ?m1 b = Inr (cm_closed ?m1 b q g)" "cm_wf (cm_closed ?m1 b q g)"
    by (rule cm_CloseClient_ok [OF K(2)])
  let ?m2 = "cm_closed ?m1 b q g"
  note other = relay_fd_closed [OF K(2) c(1-3)]
  have kern: "n_kern ?m2 fd = K fd" if "a \<noteq> b" "relay_fd m ?uid a = Some fd" for a fd
    using other(2) [OF that(1), of ?uid] that(2) by (simp add: cm_closed_def)
  show thesis
  proof (rule that [OF K(1) c(4,5)])
    show "kern_ok ?m2" using K(3) by (auto simp: kern_ok_def cm_closed_def split: if_splits)
    show "m_lstChatServer ?m2 = removeAll b ?as" by (simp add: cm_closed_def)
    show "relay_fd ?m2 ?uid a = relay_fd m ?uid a" if "a \<noteq> b" for a using other(1) [OF that, of ?uid] by simp
    show "delivered m ?m2 fd (pkt_wire p)" if "a \<in> set (take k ?as)" "a \<noteq> b" "relay_fd m ?uid a = Some fd" for a fd
      using K(4) [of fd] kern [OF that(2,3)] that(1,3) delivered_same(2) [of ?m2 fd ?m1] unfolding in_relay_part by auto
    show "n_kern ?m2 fd = n_kern m fd" if a: "a \<in> set (drop k ?as)" "a \<noteq> b" "relay_fd m ?uid a = Some fd" for a fd
    proof -
      have "a \<notin> set (take k ?as)" using a(1) d by (metis append_take_drop_id distinct_append disjoint_iff)
      then have "fd \<notin> set (List.map_filter (relay_fd m ?uid) (take k ?as))"
        using relay_fd_inj [OF wf(1) a(3)] unfolding in_relay_part by blast
      then show ?thesis using K(5) kern [OF a(2,3)] by simp
    qed
  qed
qed

lemma race_visits_list:
  "race acc p (replicate k Visit) m iter = Inr (m', iter') \<Longrightarrow> m_lstChatServer m' = m_lstChatServer m"
proof (induction k arbitrary: m iter)
  case (Suc k)
  then obtain m1 i1 where r: "broadcast_round p m iter = Inr (m1, i1)" "race acc p (replicate k Visit) m1 i1 = Inr (m', iter')"
    by (auto simp: bindR_Inr_iff)
  have "kern_change m m1"
    using r(1) cm_broadcast_kern by (fastforce simp: broadcast_round_def bindR_Inr_iff kern_change_refl split: option.splits if_splits
        simp del: cm_broadcast.simps)
  then have "m_lstChatServer m1 = m_lstChatServer m" by (auto simp: kern_change_def)
  then show ?case using Suc.IH [OF r(2)] by simp
qed simp

lemma close_schedule_legal:
  assumes "b \<in> set (m_lstChatServer m)"
  shows "race_legal acc p (replicate k Visit @ CloseBy b # replicate n Visit) m iter"
proof (rule visits_legal)
  fix m' iter' assume "race acc p (replicate k Visit) m iter = Inr (m', iter')"
  then have "b \<in> set (m_lstChatServer m')" using race_visits_list assms by simp
  moreover have "race_legal acc p (replicate n Visit) m'' iter'" for m''
    using visits_legal [of acc p n m'' iter' "[]"] by simp
  ultimately show "race_legal acc p (CloseBy b # replicate n Visit) m' iter'" by (auto split: sum.split)
qed

text \<open>The rounds that are left, undisturbed.\<close>

lemma remaining_rounds:
  assumes wf: "cm_wf m" "kern_ok m" and p: "pkt_ok p" and rs: "distinct rs" "set rs \<subseteq> set (m_lstChatServer m)"
    and resp: "\<And>fd. fd \<in> set (List.map_filter (relay_fd m (packet_uid p)) rs) \<Longrightarrow> responsive m fd (pkt_wire p)"
    and n: "length rs \<le> n"
  obtains K where "serve acc p (replicate n Visit) m (Some rs) = Inr (m\<lparr>n_kern := K\<rparr>, Some [])" "cm_wf (m\<lparr>n_kern := K\<rparr>)"
    "\<And>fd. fd \<in> set (List.map_filter (relay_fd m (packet_uid p)) rs) \<Longrightarrow> delivered m (m\<lparr>n_kern := K\<rparr>) fd (pkt_wire p)"
    "\<And>fd. fd \<notin> set (List.map_filter (relay_fd m (packet_uid p)) rs) \<Longrightarrow> K fd = n_kern m fd"
proof -
  obtain K where K: "cm_broadcast m rs p = Inr (m\<lparr>n_kern := K\<rparr>)" "cm_wf (m\<lparr>n_kern := K\<rparr>)"
    "\<And>fd. fd \<in> set (List.map_filter (relay_fd m (packet_uid p)) rs) \<Longrightarrow> delivered m (m\<lparr>n_kern := K\<rparr>) fd (pkt_wire p)"
    "\<And>fd. fd \<notin> set (List.map_filter (relay_fd m (packet_uid p)) rs) \<Longrightarrow> K fd = n_kern m fd"
    using cm_broadcast_deliver [OF wf p rs resp] by blast
  have "serve acc p (replicate n Visit) m (Some rs) = Inr (m\<lparr>n_kern := K\<rparr>, Some [])"
    using serve_visits [of "length rs" rs acc p "replicate (n - length rs) Visit" m] K(1) n
    by (simp add: serve_visits_end flip: replicate_add del: cm_broadcast.simps serve.simps replicate.simps)
  then show thesis using that K(2-4) by blast
qed

text \<open>The walk that is left when a connection it does not stand at has been closed.\<close>

lemma rest_after_other_close:
  assumes "distinct as" "k < length as" "j < length as" "j \<noteq> k"
  shows "rest_after_close (as ! j) (Some (drop k as)) = Some (removeAll (as ! j) (drop k as))"
proof -
  have "drop k as = as ! k # drop (Suc k) as" using assms(2) by (rule Cons_nth_drop_Suc [symmetric])
  moreover have "as ! k \<noteq> as ! j" using assms by (simp add: nth_eq_iff_index_eq)
  ultimately show ?thesis by simp
qed

lemma in_front_or_back:
  assumes "distinct as" "i < length as"
  shows "as ! i \<in> set (take k as) \<longleftrightarrow> as ! i \<notin> set (drop k as)"
proof -
  have "set (take k as) \<inter> set (drop k as) = {}" "as ! i \<in> set (take k as) \<union> set (drop k as)"
    using assms by (metis append_take_drop_id distinct_append) (metis append_take_drop_id assms(2) nth_mem set_append)
  then show ?thesis by blast
qed

text \<open>The schedule of one close after \<open>k\<close> rounds, seen as a walk.\<close>

lemma close_schedule_walk:
  assumes wf: "cm_wf m" and k: "k < length (m_lstChatServer m)" and b: "b \<in> set (m_lstChatServer m)"
    and m: "cm_broadcast m (take k (m_lstChatServer m)) p = Inr m1" "cm_CloseClient m1 b = Inr m2"
  shows "race_broadcast (cm_accept bd junk uid now type) p (replicate k Visit @ CloseBy b # replicate n Visit) m =
    bindR (serve (cm_accept bd junk uid now type) p (replicate n Visit) m2
      (rest_after_close b (Some (drop k (m_lstChatServer m))))) (\<lambda>(m', _). Inr m')"
  unfolding race_broadcast_def
  by (subst race_serves [OF wf _ close_schedule_legal [OF b], of "Some (m_lstChatServer m)"])
    (use k m in \<open>auto simp: stands_Some serve_visits\<close>)

text \<open>The rounds after the close, when the loop does not stand at the closed connection.\<close>

lemma rounds_after_close:
  assumes wf: "cm_wf m" and p: "pkt_ok p"
    and resp: "\<And>fd. fd \<in> set (relay_fds m (packet_uid p)) \<Longrightarrow> responsive m fd (pkt_wire p)"
    and j: "j < length (m_lstChatServer m)" and n: "length (m_lstChatServer m) \<le> k + n"
    and m: "cm_wf m2" "kern_ok m2" "m_lstChatServer m2 = removeAll (m_lstChatServer m ! j) (m_lstChatServer m)"
    "\<And>a. a \<noteq> m_lstChatServer m ! j \<Longrightarrow> relay_fd m2 (packet_uid p) a = relay_fd m (packet_uid p) a"
    "\<And>a fd. a \<in> set (take k (m_lstChatServer m)) \<Longrightarrow> a \<noteq> m_lstChatServer m ! j \<Longrightarrow>
      relay_fd m (packet_uid p) a = Some fd \<Longrightarrow> delivered m m2 fd (pkt_wire p)"
    "\<And>a fd. a \<in> set (drop k (m_lstChatServer m)) \<Longrightarrow> a \<noteq> m_lstChatServer m ! j \<Longrightarrow>
      relay_fd m (packet_uid p) a = Some fd \<Longrightarrow> n_kern m2 fd = n_kern m fd"
  obtains K where "serve acc p (replicate n Visit) m2 (Some (removeAll (m_lstChatServer m ! j) (drop k (m_lstChatServer m)))) =
      Inr (m2\<lparr>n_kern := K\<rparr>, Some [])" "cm_wf (m2\<lparr>n_kern := K\<rparr>)"
    "\<And>i fd. i < length (m_lstChatServer m) \<Longrightarrow> i \<noteq> j \<Longrightarrow> relay_fd m (packet_uid p) (m_lstChatServer m ! i) = Some fd \<Longrightarrow>
      delivered m (m2\<lparr>n_kern := K\<rparr>) fd (pkt_wire p)"
proof -
  let ?as = "m_lstChatServer m" and ?uid = "packet_uid p"
  let ?b = "?as ! j"
  have d: "distinct ?as" by (rule cm_wf_distinct [OF wf])
  let ?rs = "removeAll ?b (drop k ?as)"
  have fd_rs: "fd \<in> set (List.map_filter (relay_fd m2 ?uid) ?rs) \<longleftrightarrow>
      (\<exists>a \<in> set (drop k ?as). a \<noteq> ?b \<and> relay_fd m ?uid a = Some fd)" for fd
    unfolding in_relay_part using m(4) by (metis Diff_iff empty_iff insert_iff set_removeAll)
  have sub: "distinct ?rs" "set ?rs \<subseteq> set (m_lstChatServer m2)"
    unfolding m(3) using d by (auto simp: distinct_removeAll dest: in_set_dropD)
  have resp2: "responsive m2 fd (pkt_wire p)" if fd: "fd \<in> set (List.map_filter (relay_fd m2 ?uid) ?rs)" for fd
  proof -
    obtain a where a: "a \<in> set (drop k ?as)" "a \<noteq> ?b" "relay_fd m ?uid a = Some fd" using fd fd_rs by blast
    have "responsive m fd (pkt_wire p)" using resp a unfolding relay_fds_def in_relay_part by (metis in_set_dropD)
    then show ?thesis using m(6) [OF a] by (simp add: responsive_def)
  qed
  have "length ?rs \<le> n" using n length_removeAll_less_eq [of ?b "drop k ?as"] by simp
  then obtain K where K: "serve acc p (replicate n Visit) m2 (Some ?rs) = Inr (m2\<lparr>n_kern := K\<rparr>, Some [])"
    "cm_wf (m2\<lparr>n_kern := K\<rparr>)"
    "\<And>fd. fd \<in> set (List.map_filter (relay_fd m2 ?uid) ?rs) \<Longrightarrow> delivered m2 (m2\<lparr>n_kern := K\<rparr>) fd (pkt_wire p)"
    "\<And>fd. fd \<notin> set (List.map_filter (relay_fd m2 ?uid) ?rs) \<Longrightarrow> K fd = n_kern m2 fd"
    using remaining_rounds [OF m(1,2) p sub resp2] by blast
  have "delivered m (m2\<lparr>n_kern := K\<rparr>) fd (pkt_wire p)"
    if i: "i < length ?as" "i \<noteq> j" "relay_fd m ?uid (?as ! i) = Some fd" for i fd
  proof -
    have ne: "?as ! i \<noteq> ?b" using i d j by (simp add: nth_eq_iff_index_eq)
    show ?thesis
    proof (cases "?as ! i \<in> set (drop k ?as)")
      case True
      then have "delivered m2 (m2\<lparr>n_kern := K\<rparr>) fd (pkt_wire p)" using K(3) fd_rs ne i(3) by blast
      then show ?thesis using delivered_same(1) [of m2 fd m "m2\<lparr>n_kern := K\<rparr>"] m(6) [OF True ne i(3)] by simp
    next
      case False
      then have "K fd = n_kern m2 fd" using K(4) fd_rs relay_fd_inj [OF wf i(3)] by blast
      moreover have "?as ! i \<in> set (take k ?as)" using False in_front_or_back [OF d i(1)] by blast
      ultimately show ?thesis using m(5) [OF _ ne i(3)] delivered_same(2) [of "m2\<lparr>n_kern := K\<rparr>" fd m2 m] by simp
    qed
  qed
  then show thesis using that K(1,2) by blast
qed

section \<open>Properties\<close>

text \<open>C9: Whatever the other threads close and accept between its rounds, the unlocked loop of the manager's
  \<open>MessageBroadcast\<close> does to the manager what a walk over the connections still to be served does, in which a
  closed connection is left out, a new one is appended unless the walk is over, and the walk breaks off
  when the connection it stands at is closed.\<close>

theorem race_refines_walk:
  assumes "cm_wf m"
    "race_legal (cm_accept bd junk uid now type) p sts m (list_begin (m_lstChatServer m))"
  shows "race_broadcast (cm_accept bd junk uid now type) p sts m =
    bindR (serve (cm_accept bd junk uid now type) p sts m (Some (m_lstChatServer m))) (\<lambda>(m', _). Inr m')"
  unfolding race_broadcast_def
  by (rule race_serves [OF assms(1) _ assms(2)]) (auto simp: stands_Some)

theorem race_refines_walk_witness:
  "race_broadcast (cm_accept BuildET (\<lambda>_. 0) 0 0 SERVER_PORT) (relay_of 5 demo_message) [CloseBy 10, Visit] demo_manager =
    Inl BadIterator"
proof -
  have l: "race_legal (cm_accept BuildET (\<lambda>_. 0) 0 0 SERVER_PORT) (relay_of 5 demo_message) [CloseBy 10, Visit] demo_manager
      (list_begin (m_lstChatServer demo_manager))"
    by (simp split: sum.split)
  obtain m' where "cm_CloseClient demo_manager 10 = Inr m'"
    by (rule cm_CloseClient_ok [OF demo_manager_wf(1), of 10]) auto
  then show ?thesis using race_refines_walk [OF demo_manager_wf(1) l] by simp
qed

text \<open>C8: One connection is closed by another thread after \<open>k\<close> rounds of the manager's \<open>MessageBroadcast\<close>. The loop
  goes on with an invalid iterator exactly when it stands at this connection (the \<open>k\<close>-th of the list); otherwise
  it ends, and every other connection that is not the origin has got the packet.\<close>

theorem closing_during_broadcast:
  assumes wf: "cm_wf m" "kern_ok m" and p: "pkt_ok p"
    and resp: "\<And>fd. fd \<in> set (relay_fds m (packet_uid p)) \<Longrightarrow> responsive m fd (pkt_wire p)"
    and k: "k < length (m_lstChatServer m)" and j: "j < length (m_lstChatServer m)"
    and n: "length (m_lstChatServer m) \<le> k + n"
  shows "if j = k then race_broadcast (cm_accept bd junk uid now type) p
        (replicate k Visit @ CloseBy (m_lstChatServer m ! j) # replicate n Visit) m = Inl BadIterator
    else \<exists>m'. race_broadcast (cm_accept bd junk uid now type) p
        (replicate k Visit @ CloseBy (m_lstChatServer m ! j) # replicate n Visit) m = Inr m' \<and> cm_wf m' \<and>
      m_lstChatServer m' = removeAll (m_lstChatServer m ! j) (m_lstChatServer m) \<and>
      (\<forall>i fd. i < length (m_lstChatServer m) \<and> i \<noteq> j \<and> relay_fd m (packet_uid p) (m_lstChatServer m ! i) = Some fd \<longrightarrow>
        delivered m m' fd (pkt_wire p))"
proof -
  let ?as = "m_lstChatServer m"
  have d: "distinct ?as" by (rule cm_wf_distinct [OF wf(1)])
  have b: "?as ! j \<in> set ?as" using j by simp
  obtain m1 m2 where m: "cm_broadcast m (take k ?as) p = Inr m1" "cm_CloseClient m1 (?as ! j) = Inr m2" "cm_wf m2" "kern_ok m2"
    "m_lstChatServer m2 = removeAll (?as ! j) ?as" "\<And>a. a \<noteq> ?as ! j \<Longrightarrow> relay_fd m2 (packet_uid p) a = relay_fd m (packet_uid p) a"
    "\<And>a fd. a \<in> set (take k ?as) \<Longrightarrow> a \<noteq> ?as ! j \<Longrightarrow> relay_fd m (packet_uid p) a = Some fd \<Longrightarrow> delivered m m2 fd (pkt_wire p)"
    "\<And>a fd. a \<in> set (drop k ?as) \<Longrightarrow> a \<noteq> ?as ! j \<Longrightarrow> relay_fd m (packet_uid p) a = Some fd \<Longrightarrow> n_kern m2 fd = n_kern m fd"
    using close_between_rounds [OF wf p resp k b] by blast
  note walk = close_schedule_walk [OF wf(1) k b m(1,2), of bd junk uid now type n]
  show ?thesis
  proof (cases "j = k")
    case True
    have "drop k ?as = ?as ! k # drop (Suc k) ?as" using k by (rule Cons_nth_drop_Suc [symmetric])
    then show ?thesis using True walk n k by (cases n) auto
  next
    case False
    obtain K where K: "serve (cm_accept bd junk uid now type) p (replicate n Visit) m2 (Some (removeAll (?as ! j) (drop k ?as))) =
        Inr (m2\<lparr>n_kern := K\<rparr>, Some [])" "cm_wf (m2\<lparr>n_kern := K\<rparr>)"
      "\<And>i fd. i < length ?as \<Longrightarrow> i \<noteq> j \<Longrightarrow> relay_fd m (packet_uid p) (?as ! i) = Some fd \<Longrightarrow>
        delivered m (m2\<lparr>n_kern := K\<rparr>) fd (pkt_wire p)"
      by (rule rounds_after_close [OF wf(1) p _ j n m(3-5)]) (rule resp m(6-8) that; assumption)+
    then show ?thesis using walk rest_after_other_close [OF d k j False] False m(5) by auto
  qed
qed

theorem closing_during_broadcast_witness:
  "race_broadcast (cm_accept BuildET (\<lambda>_. 0) 0 0 SERVER_PORT) (relay_of 5 demo_message)
     [Visit, CloseBy 11, Visit, Visit] demo_manager = Inl BadIterator \<and>
   (\<exists>m'. race_broadcast (cm_accept BuildET (\<lambda>_. 0) 0 0 SERVER_PORT) (relay_of 5 demo_message)
     [Visit, CloseBy 10, Visit, Visit] demo_manager = Inr m' \<and> m_lstChatServer m' = [11])"
proof -
  have resp: "responsive demo_manager fd (pkt_wire (relay_of 5 demo_message))"
    if "fd \<in> set (relay_fds demo_manager (packet_uid (relay_of 5 demo_message)))" for fd
    by (rule demo_manager_responsive [OF that])
  show ?thesis
    using closing_during_broadcast [OF demo_manager_wf demo_relay_ok resp, of 1 1 2 BuildET "\<lambda>_. 0" 0 0 SERVER_PORT]
      closing_during_broadcast [OF demo_manager_wf demo_relay_ok resp, of 1 0 2 BuildET "\<lambda>_. 0" 0 0 SERVER_PORT]
    by (auto simp: numeral_2_eq_2)
qed

end
