(* ===== verification/ClientTypes.thy ===== *)
theory ClientTypes
  imports ClientOwnership
begin

text \<open>
  The types of the client objects of a chat server (\<open>m_eType\<close>, src/include/Client.h), the process they are
  tied to and their state, over all interleavings of the threads. The code decides by the type who gets a
  broadcast and whose bytes are packets of a manager (src/ChatServer.cpp, src/ChatUser.cpp), and it casts
  \<open>m_pMainProcess\<close> back to a \<open>ChatServer\<close>.
\<close>

section \<open>Tags\<close>

definition tag :: "'z Client_scheme \<Rightarrow> ENUM_CLIENT_TYPE \<times> process_class option \<times> byte" where
  "tag c = (m_eType c, m_pMainProcess c, m_iState c)"

definition user_tag :: "ENUM_CLIENT_TYPE \<times> process_class option \<times> byte" where
  "user_tag = (CLIENT_USER, Some ProcChatServer, state_bits STATE_WAIT)"
definition manager_tag :: "ENUM_CLIENT_TYPE \<times> process_class option \<times> byte" where
  "manager_tag = (CLIENT_CHAT_MANAGER, Some ProcChatServer, state_bits STATE_WAIT)"

definition well_typed :: "ChatServer \<Rightarrow> bool" where
  "well_typed w \<longleftrightarrow> (\<forall>a c. cs_clients w a = Some c \<longrightarrow> tag c = user_tag \<or> tag c = manager_tag)"

text \<open>From one state to a later one: objects keep their tags, new objects are users at fresh addresses.\<close>

definition evolves :: "ChatServer \<Rightarrow> ChatServer \<Rightarrow> bool" where
  "evolves w w' \<longleftrightarrow> cs_next w \<le> cs_next w' \<and>
     (\<forall>a c'. cs_clients w' a = Some c' \<longrightarrow>
        (\<exists>c. cs_clients w a = Some c \<and> tag c' = tag c) \<or> cs_next w \<le> a \<and> tag c' = user_tag)"

lemma evolves_refl: "evolves w w"
  by (simp add: evolves_def)

lemma evolves_trans: "evolves w v \<Longrightarrow> evolves v u \<Longrightarrow> evolves w u"
  unfolding evolves_def
proof (intro conjI allI impI)
  assume wv: "cs_next w \<le> cs_next v \<and> (\<forall>a c'. cs_clients v a = Some c' \<longrightarrow>
      (\<exists>c. cs_clients w a = Some c \<and> tag c' = tag c) \<or> cs_next w \<le> a \<and> tag c' = user_tag)"
    and vu: "cs_next v \<le> cs_next u \<and> (\<forall>a c'. cs_clients u a = Some c' \<longrightarrow>
      (\<exists>c. cs_clients v a = Some c \<and> tag c' = tag c) \<or> cs_next v \<le> a \<and> tag c' = user_tag)"
  show "cs_next w \<le> cs_next u" using wv vu by simp
  fix a c' assume "cs_clients u a = Some c'"
  then consider (old) c where "cs_clients v a = Some c" "tag c' = tag c" | (new) "cs_next v \<le> a" "tag c' = user_tag"
    using vu by blast
  then show "(\<exists>c. cs_clients w a = Some c \<and> tag c' = tag c) \<or> cs_next w \<le> a \<and> tag c' = user_tag"
  proof cases
    case old
    then show ?thesis using wv by auto
  next
    case new
    then show ?thesis using wv by simp
  qed
qed

lemma evolves_sub:
  "cs_next w' = cs_next w \<Longrightarrow> (\<And>a c'. cs_clients w' a = Some c' \<Longrightarrow> \<exists>c. cs_clients w a = Some c \<and> tag c' = tag c) \<Longrightarrow>
    evolves w w'"
  by (simp add: evolves_def)

lemma evolves_same: "cs_next w' = cs_next w \<Longrightarrow> cs_clients w' = cs_clients w \<Longrightarrow> evolves w w'"
  by (rule evolves_sub) auto

lemma evolves_upd:
  "cs_clients w a = Some c \<Longrightarrow> tag c' = tag c \<Longrightarrow> cs_next w' = cs_next w \<Longrightarrow> cs_clients w' = (cs_clients w)(a \<mapsto> c') \<Longrightarrow>
    evolves w w'"
  by (rule evolves_sub) (auto split: if_splits)

section \<open>Every operation\<close>

lemma delete_socket_clients:
  "delete_socket (w :: ChatServer) p = Inr w' \<Longrightarrow> cs_clients w' = cs_clients w \<and> cs_next w' = cs_next w"
  by (auto simp: delete_socket_def split: option.splits)

lemma DelClient_clients:
  "IOMP_EPoll_DelClient (w :: ChatServer) p = Inr (r, w') \<Longrightarrow> cs_clients w' = cs_clients w \<and> cs_next w' = cs_next w"
  by (auto simp: IOMP_EPoll_DelClient_def IOMP_EPoll_DelFd_def bindR_Inr_iff split: option.splits if_splits)

lemma AddClient_clients:
  "IOMP_EPoll_AddClient (w :: ChatServer) a p ev = Inr (r, w') \<Longrightarrow> cs_clients w' = cs_clients w \<and> cs_next w' = cs_next w"
  by (auto simp: IOMP_EPoll_AddClient_def bindR_Inr_iff split: option.splits if_splits)

lemma CloseClient_clients:
  assumes "CloseClient w a = Inr w'"
  shows "cs_clients w' = (cs_clients w)(a := None)" "cs_next w' = cs_next w"
  using assms by (auto simp: CloseClient_def delete_client_def bindR_Inr_iff dest!: DelClient_clients delete_socket_clients)

lemma CloseClient_evolves: "CloseClient w a = Inr w' \<Longrightarrow> evolves w w'"
  using CloseClient_clients [of w a w'] by (intro evolves_sub) (auto split: if_splits)

lemma queue_clients:
  "PutReceiveQueue w a = Inr w' \<Longrightarrow> cs_clients w' = cs_clients w \<and> cs_next w' = cs_next w"
  "PutSendQueue w a = Inr w' \<Longrightarrow> cs_clients w' = cs_clients w \<and> cs_next w' = cs_next w"
  "GetReceiveQueue w = Inr (a, w') \<Longrightarrow> cs_clients w' = cs_clients w \<and> cs_next w' = cs_next w"
  "PutBroadcastQueue w bm = Inr w' \<Longrightarrow> cs_clients w' = cs_clients w \<and> cs_next w' = cs_next w"
  by (auto simp: PutReceiveQueue_def PutSendQueue_def GetReceiveQueue_def PutBroadcastQueue_def bindR_Inr_iff)

lemma tag_access [simp]: "tag (SetAccessTime c now) = tag c" "tag (c\<lparr>m_cCBuff := b\<rparr>) = tag c"
  by (simp_all add: tag_def SetAccessTime_def)

lemma event_evolves:
  assumes "ChatServer_event bd now w ev a = Inr w'"
  shows "evolves w w'"
proof -
  obtain c where c: "cs_clients w a = Some c"
    using assms by (cases "cs_clients w a") (auto simp: ChatServer_event_def)
  have "CloseClient w a = Inr w' \<or> w' = w \<or>
      cs_clients w' = (cs_clients w)(a \<mapsto> SetAccessTime c now) \<and> cs_next w' = cs_next w"
    using assms c by (auto simp: ChatServer_event_def bindR_Inr_iff
        dest!: queue_clients(1,2) DelClient_clients split: if_splits)
  then show ?thesis
    using CloseClient_evolves evolves_refl evolves_upd [OF c, of "SetAccessTime c now" w'] by auto
qed

lemma AcceptClient_evolves:
  assumes "AcceptClient bd junk now w p CLIENT_USER = Inr w'"
  shows "evolves w w'"
proof -
  let ?c = "SetMainProcess (Client_SetType (ChatUser_new junk now p) CLIENT_USER) ProcChatServer"
  let ?w1 = "w\<lparr>m_iConnCount := m_iConnCount w + 1, cs_next := Suc (cs_next w),
      cs_clients := (cs_clients w)(cs_next w \<mapsto> ?c), m_lstClient := m_lstClient w @ [cs_next w]\<rparr>"
  have "tag ?c = user_tag"
    by (simp add: tag_def user_tag_def SetMainProcess_def Client_SetType_def ChatUser_new_def Client.defs
        Client_new_socket_def)
  then have new: "evolves w ?w1" by (auto simp: evolves_def)
  from assms obtain r w2 where w2: "IOMP_EPoll_AddClient ?w1 (cs_next w) (Client_GetSocket ?c) (epoll_flags bd) = Inr (r, w2)"
    "CloseClient w2 (cs_next w) = Inr w' \<or> w' = w2"
    by (auto simp: AcceptClient_def Let_def bindR_Inr_iff split: if_splits)
  have "evolves ?w1 w2" using AddClient_clients [OF w2(1)] by (intro evolves_same) auto
  moreover have "evolves w2 w'" using w2(2) CloseClient_evolves evolves_refl by auto
  ultimately show ?thesis using new evolves_trans by blast
qed

lemma accept_evolves:
  assumes "accept_round bd junk now w kern = Inr w'"
  shows "evolves w w'"
proof (cases kern)
  case None
  then show ?thesis using assms evolves_refl by (simp add: accept_round_def)
next
  case (Some e)
  obtain fd s where e: "e = (fd, s)" by (cases e)
  let ?p = "cs_next w"
  let ?w1 = "w\<lparr>cs_next := Suc ?p, n_socks := (n_socks w)(?p \<mapsto> fd), n_kern := (n_kern w)(fd \<mapsto> s\<lparr>m_iFd := fd\<rparr>)\<rparr>"
  let ?w2 = "w\<lparr>cs_next := Suc ?p, n_socks := (n_socks w)(?p \<mapsto> fd),
      n_kern := (n_kern w)(fd \<mapsto> s\<lparr>m_iFd := fd, so_flags := O_NDELAY\<rparr>)\<rparr>"
  have "delete_socket ?w1 (Some ?p) = Inr w' \<or> AcceptClient bd junk now ?w2 (Some ?p) CLIENT_USER = Inr w'"
    using assms by (simp add: accept_round_def Some e socket_new_def Let_def split: if_split_asm)
  then consider (refused) "delete_socket ?w1 (Some ?p) = Inr w'" | (taken) "AcceptClient bd junk now ?w2 (Some ?p) CLIENT_USER = Inr w'"
    by blast
  then show ?thesis
  proof cases
    case refused
    from delete_socket_clients [OF this] show ?thesis by (auto simp: evolves_def)
  next
    case taken
    have "evolves w ?w2" by (auto simp: evolves_def)
    from this AcceptClient_evolves [OF taken] show ?thesis by (rule evolves_trans)
  qed
qed

lemma fill_evolves:
  assumes "cs_FillFromSocket bd w a fionread err = Inr (r, w', err')"
  shows "evolves w w'"
proof -
  from assms obtain c where c: "cs_clients w a = Some c"
    by (cases "cs_clients w a") (auto simp: cs_FillFromSocket_def)
  with assms obtain b where "w' = w \<or> cs_clients w' = (cs_clients w)(a \<mapsto> c\<lparr>m_cCBuff := b\<rparr>) \<and> cs_next w' = cs_next w"
    by (fastforce simp: cs_FillFromSocket_def Client_FillFromSocket_def bindR_Inr_iff split: option.splits if_splits)
  then show ?thesis using evolves_refl evolves_upd [OF c, of "c\<lparr>m_cCBuff := b\<rparr>" w'] by auto
qed

lemma ChatUser_ExecuteCommand_ring:
  assumes "ChatUser_ExecuteCommand jnk fd c = Inr (r, c', bm)"
  shows "\<exists>b. c' = c\<lparr>m_cCBuff := b\<rparr>"
proof -
  have "\<exists>b. c'' = c\<lparr>m_cCBuff := b\<rparr>" if "Client_GetPacket c dst n = Inr (r', blk, c'')" for dst n r' blk c''
    using that by (auto simp: Client_GetPacket_def bindR_Inr_iff)
  then show ?thesis
    using assms by (auto simp: ChatUser_ExecuteCommand_def read_packet_def Let_def bindR_Inr_iff split: if_splits)
qed

lemma execute_evolves:
  assumes "cs_ExecuteCommand jnk w a = Inr (r, w')"
  shows "evolves w w'"
proof -
  from assms obtain c where c: "cs_clients w a = Some c"
    by (cases "cs_clients w a") (auto simp: cs_ExecuteCommand_def)
  with assms obtain b where "cs_clients w' = (cs_clients w)(a \<mapsto> c\<lparr>m_cCBuff := b\<rparr>)" "cs_next w' = cs_next w"
    by (fastforce simp: cs_ExecuteCommand_def bindR_Inr_iff Let_def
        dest!: ChatUser_ExecuteCommand_ring dest: queue_clients(4) split: option.splits)
  then show ?thesis using evolves_upd [OF c, of "c\<lparr>m_cCBuff := b\<rparr>" w'] by simp
qed

lemma release_evolves: "rearm bd w a = Inr w' \<Longrightarrow> evolves w w'"
  by (rule evolves_same)
    (auto simp: rearm_def UpdateEPoll_def AddEPoll_def IOMP_EPoll_ModifyFd_def bindR_Inr_iff
      dest!: AddClient_clients split: if_splits option.splits)

lemma broadcaster_evolves: "broadcaster_pass w = Inr w' \<Longrightarrow> evolves w w'"
  by (rule evolves_same) (use broadcaster_kern in \<open>fastforce simp: kern_change_def\<close>)+

lemma rt_step_evolves: "rt_step s s' \<Longrightarrow> evolves (rt_w s) (rt_w s')"
proof (induction rule: rt_step.induct)
  case (event s ev a rest now w')
  then show ?case using event_evolves by simp
next
  case (accept s kern junk now w')
  then show ?case using accept_evolves by simp
next
  case (take s t a w')
  then show ?case using queue_clients(3) evolves_same by simp
next
  case (fill s t a fionread err r w' err')
  then show ?case using fill_evolves by simp
next
  case (execute s t a jnk r w')
  then show ?case using execute_evolves by simp
next
  case (close s t a w')
  then show ?case using CloseClient_evolves by simp
next
  case (release s t a w')
  then show ?case using release_evolves by simp
next
  case (broadcast s w')
  then show ?case using broadcaster_evolves by simp
qed (simp add: evolves_refl)

lemma rt_reach_evolves: "rt_reach w s \<Longrightarrow> evolves w (rt_w s)"
proof (induction rule: rt_reach.induct)
  case (rt_reach_step s s')
  then show ?case using rt_step_evolves evolves_trans by blast
qed (simp add: rt_init_def evolves_refl)

section \<open>The server before its threads run\<close>

lemma new_user_tag: "tag (new_user jk now p CLIENT_USER) = user_tag" "tag (new_user jk now p CLIENT_CHAT_MANAGER) = manager_tag"
  by (simp_all add: tag_def user_tag_def manager_tag_def new_user_def SetMainProcess_def Client_SetType_def ChatUser_new_def
      Client.defs Client_new_socket_def)

lemma AcceptClient_typed:
  assumes "AcceptClient bd junk now w p t = Inr w'" "t = CLIENT_USER \<or> t = CLIENT_CHAT_MANAGER" "well_typed w"
  shows "well_typed w'"
proof -
  let ?c = "new_user junk now p t"
  have tag: "tag ?c = user_tag \<or> tag ?c = manager_tag"
    using assms(2) by (auto simp: new_user_tag)
  let ?w1 = "w\<lparr>m_iConnCount := m_iConnCount w + 1, cs_next := Suc (cs_next w),
      cs_clients := (cs_clients w)(cs_next w \<mapsto> ?c), m_lstClient := m_lstClient w @ [cs_next w]\<rparr>"
  from assms(1) obtain r w2 where w2: "IOMP_EPoll_AddClient ?w1 (cs_next w) (Client_GetSocket ?c) (epoll_flags bd) = Inr (r, w2)"
    "CloseClient w2 (cs_next w) = Inr w' \<or> w' = w2"
    by (auto simp: AcceptClient_def Let_def bindR_Inr_iff new_user_def split: if_splits)
  have "well_typed w2" using AddClient_clients [OF w2(1)] tag assms(3) by (simp add: well_typed_def)
  then show ?thesis using w2(2) CloseClient_clients(1) [of w2 "cs_next w" w'] unfolding well_typed_def
    by (metis fun_upd_apply option.distinct(1))
qed

text \<open>A new server is well typed, and \<open>RegisterManager\<close> leaves it so.\<close>

lemma ChatServer_new_typed: "well_typed (ChatServer_new junk w)"
  by (simp add: well_typed_def ChatServer_new_def net.defs)

lemma RegisterManager_typed:
  assumes "RegisterManager bd junk now w = Inr w'" "well_typed w"
  shows "well_typed w'"
proof -
  have "well_typed w'" if "register_managers bd junk now w ps = Inr w'" "well_typed w" for ps w
    using that by (induction bd junk now w ps rule: register_managers.induct)
      (auto simp: bindR_Inr_iff dest: AcceptClient_typed)
  then show ?thesis using assms by (simp add: RegisterManager_def)
qed

section \<open>Properties\<close>

text \<open>C7: The objects stay well typed. If the clients of a server that is about to run are users or managers tied
  to the \<open>ChatServer\<close>, then in every interleaving of its threads so is every client; an object that is
  still alive has the type it had at the start, so a client of type \<open>CLIENT_CHAT_MANAGER\<close>, the only kind
  whose bytes are taken for relayed packets, is one of those registered before the threads ran, never
  somebody who has connected since; and \<open>ChatUser::MessageBroadcast\<close>, which casts the process, hands
  every message over.\<close>

theorem clients_stay_typed:
  assumes "rt_reach w s" "well_typed w" "cs_clients (rt_w s) a = Some c"
  shows "(tag c = user_tag \<or> tag c = manager_tag) \<and>
    (m_eType c = CLIENT_CHAT_MANAGER \<longrightarrow> (\<exists>c0. cs_clients w a = Some c0 \<and> m_eType c0 = CLIENT_CHAT_MANAGER)) \<and>
    (\<forall>c0. cs_clients w a = Some c0 \<longrightarrow> tag c = tag c0) \<and> ChatUser_MessageBroadcast c bm = Some bm"
proof -
  have wf: "cs_wf w" using assms(1)
    by (induction rule: rt_reach.induct) (simp_all add: rt_ready_def net_own_def)
  consider (old) c0 where "cs_clients w a = Some c0" "tag c = tag c0" | (new) "cs_next w \<le> a" "tag c = user_tag"
    using rt_reach_evolves [OF assms(1)] assms(3) unfolding evolves_def by blast
  then show ?thesis
  proof cases
    case old
    then show ?thesis using assms(2) by (auto simp: well_typed_def tag_def user_tag_def manager_tag_def ChatUser_MessageBroadcast_def)
  next
    case new
    moreover have "cs_clients w a = None" using new(1) cs_wf_below(1) [OF wf, of a] by (meson leD option.exhaust_sel)
    ultimately show ?thesis by (simp add: tag_def user_tag_def ChatUser_MessageBroadcast_def)
  qed
qed

theorem clients_stay_typed_witness:
  "\<exists>s c. rt_reach demo_watching s \<and> cs_clients (rt_w s) 10 = Some c \<and> tag c = user_tag"
proof -
  obtain s where s: "rt_reach demo_watching s" "rt_held s 1 = Some 10" using demo_run by blast
  have "owners (rt_w s) (rt_batch s) (rt_held s)" using rt_reach_inv [OF s(1)] by (simp add: rt_inv_def)
  then obtain c where c: "cs_clients (rt_w s) 10 = Some c" using ownersD(6) s(2) by blast
  have "well_typed demo_watching" by (auto simp: well_typed_def demo_watching_def new_user_tag split: if_splits)
  then have "tag c = user_tag"
    using clients_stay_typed [OF s(1) _ c] by (simp add: demo_watching_def new_user_tag)
  then show ?thesis using s(1) c by blast
qed

end
