(* ===== verification/ChatClient.thy ===== *)
theory ChatClient
  imports ServerBroadcast StdMap
begin

text \<open>
  The terminal client (src/client/chat_client.c) and the load client (src/client/clients.c): the prompt made
  of the user's name, the loop that sends what is typed, the thread that shows what arrives. Standard input
  is the text still to be read; uninitialised arrays are arguments; what \<open>recvfrom\<close> answers is a list. The
  socket blocks, so what is handed to \<open>send\<close> is what is sent. The last section follows a typed line through
  a chat server to the screens of the other users.
\<close>

section \<open>The C library\<close>

definition NL :: char where "NL = CHR 0x0A"

definition fgets :: "nat \<Rightarrow> string \<Rightarrow> (string \<times> string) option" where
  \<comment> \<open>the characters stored before the NUL, and the input that is left; nothing at the end of the input\<close>
  "fgets n inp =
     (if inp = [] then None
      else let k = min (n - 1) (Suc (length (takeWhile (\<lambda>c. c \<noteq> NL) inp))) in Some (take k inp, drop k inp))"

definition strcpy :: "string \<Rightarrow> string \<Rightarrow> string res" where
  "strcpy dst src = (if length dst \<le> length src then Inl OutOfBounds else Inr (mem_put dst 0 (src @ [NUL])))"

definition strcat :: "string \<Rightarrow> string \<Rightarrow> string res" where
  "strcat dst src =
     bindR (c_str dst) (\<lambda>d.
       if length dst \<le> length d + length src then Inl OutOfBounds else Inr (mem_put dst (length d) (src @ [NUL])))"

definition strlen :: "string \<Rightarrow> nat res" where
  "strlen a = bindR (c_str a) (\<lambda>s. Inr (length s))"

section \<open>Starting up\<close>

definition MESSAGE_BUFFER :: nat where "MESSAGE_BUFFER = 500"
definition USERNAME_BUFFER :: nat where "USERNAME_BUFFER = 10"

text \<open>\<open>main\<close> reads \<open>argv[2]\<close> before it looks at \<open>argc\<close>: one argument gives NULL, none reads past \<open>argv\<close>.\<close>

definition client_args :: "string list \<Rightarrow> (string \<times> string) res" where
  \<comment> \<open>the address and the port of \<open>argv\<close>, the name of the program included\<close>
  "client_args argv =
     (case argv of [_, _] \<Rightarrow> Inl NullDeref
      | _ # addr # port # _ \<Rightarrow> Inr (addr, port)
      | _ \<Rightarrow> Inl OutOfBounds)"

text \<open>The name is read into \<open>username\<close>, its last character is overwritten and it is copied into \<open>prompt\<close>.\<close>

definition make_prompt :: "string \<Rightarrow> string \<Rightarrow> string \<Rightarrow> (string \<times> string) res" where
  "make_prompt username prompt inp =
     (let (u, rest) = (case fgets USERNAME_BUFFER inp of None \<Rightarrow> (username, inp)
            | Some (s, rest) \<Rightarrow> (mem_put username 0 (s @ [NUL]), rest)) in
      bindR (strlen u) (\<lambda>n.
        if n = 0 then Inl OutOfBounds
        else bindR (c_str (u[n - 1 := NUL])) (\<lambda>name.
             bindR (strcpy prompt name) (\<lambda>p.
             bindR (strcat p ''> '') (\<lambda>p'. Inr (p', rest))))))"

section \<open>Sending\<close>

datatype client_end = Quit | InputEnds

text \<open>One round of \<open>send_message\<close>: \<open>message\<close> is the line, \<open>final_message\<close> what the array held; the new contents, and
  the text they hold.\<close>

definition compose_line :: "string \<Rightarrow> string \<Rightarrow> string \<Rightarrow> (string \<times> string) res" where
  "compose_line prompt final line =
     bindR (strlen final) (\<lambda>n.
     bindR (strcat (mem_put final 0 (replicate n NUL)) prompt) (\<lambda>f1.
     bindR (strcat f1 line) (\<lambda>f2.
     bindR (c_str f2) (\<lambda>text. Inr (f2, text)))))"

function send_message :: "string \<Rightarrow> string \<Rightarrow> string \<Rightarrow> (client_end \<times> string list \<times> string) res" where
  \<comment> \<open>how it ends, the buffers handed to \<open>send\<close>, what is shown after the first prompt\<close>
  "send_message prompt final inp =
     (case fgets MESSAGE_BUFFER inp of None \<Rightarrow> Inr (InputEnds, [], [])
      | Some (s, rest) \<Rightarrow>
          let line = takeWhile (\<lambda>c. c \<noteq> NUL) s in
          bindR (compose_line prompt final line) (\<lambda>(final', text).
            if take 5 line = ''/quit''
            then Inr (Quit, [], NL # prompt @ ''Closing connection...'' @ [NL])
            else bindR (send_message prompt final' rest) (\<lambda>(e, sends, out).
              Inr (e, (text @ [NUL]) # sends, NL # prompt @ out))))"
  by pat_completeness auto
termination
  by (relation "measure (\<lambda>(_, _, inp). length inp)")
    (auto simp: fgets_def Let_def MESSAGE_BUFFER_def split: if_splits)

declare send_message.simps [simp del]

definition load_client_sends :: "string list" where
  \<comment> \<open>\<open>send_message\<close> of clients.c: one greeting, then it sleeps and exits\<close>
  "load_client_sends = [''hi'' @ [NUL]]"

section \<open>Receiving\<close>

datatype recv_result = RecvFails | RecvCloses | RecvData string

fun client_receive :: "string \<Rightarrow> recv_result list \<Rightarrow> string res" where
  \<comment> \<open>the array of the prompt; what is shown\<close>
  "client_receive prompt [] = Inr []"
| "client_receive prompt (RecvFails # rs) = Inr []"
| "client_receive prompt (RecvCloses # rs) = Inr (NL # ''Peer disconnected'' @ [NL])"
| "client_receive prompt (RecvData bs # rs) =
     bindR (c_str (mem_put (replicate MESSAGE_BUFFER NUL) 0 bs)) (\<lambda>s.
     bindR (c_str prompt) (\<lambda>p.
     bindR (client_receive prompt rs) (\<lambda>out. Inr (NL # s @ p @ out))))"

text \<open>\<open>receive\<close> of the load client is the same code; its \<open>main\<close> has the reading of the name commented out and prompts
  with the uninitialised array.\<close>

definition load_client_receive :: "string \<Rightarrow> recv_result list \<Rightarrow> string res" where
  "load_client_receive prompt rs = client_receive prompt rs"

definition load_client_main :: "string \<Rightarrow> string list \<Rightarrow> recv_result list \<Rightarrow> (string list \<times> string) res" where
  \<comment> \<open>what it sends and what it shows\<close>
  "load_client_main prompt argv rs =
     bindR (client_args argv) (\<lambda>_. bindR (load_client_receive prompt rs) (\<lambda>out. Inr (load_client_sends, out)))"

section \<open>The prompt\<close>

lemma c_str_terminated: "NUL \<notin> set s \<Longrightarrow> c_str (s @ NUL # rest) = Inr s"
  by (simp add: c_str_def takeWhile_append)

lemma fgets_props:
  assumes "fgets n inp = Some (s, rest)" "1 < n"
  shows "inp = s @ rest" "s \<noteq> []" "length s < n"
  using assms by (auto simp: fgets_def Let_def split: if_splits)

definition prompt_array :: "string \<Rightarrow> string \<Rightarrow> bool" where
  \<comment> \<open>an array that holds a name of up to eight characters and \<open>"> "\<close>\<close>
  "prompt_array a p \<longleftrightarrow> c_str a = Inr p \<and> length a = 14 \<and> (\<exists>name. p = name @ ''> '' \<and> length name \<le> 8)"

lemma c_str_Inr: "c_str a = Inr s \<longleftrightarrow> (\<exists>rest. a = s @ NUL # rest) \<and> NUL \<notin> set s"
proof
  assume "c_str a = Inr s"
  then have s: "s = takeWhile (\<lambda>c. c \<noteq> NUL) a" "NUL \<in> set a" by (auto simp: c_str_def split: if_splits)
  then obtain xs ys where "a = xs @ NUL # ys" "NUL \<notin> set xs" by (meson split_list_first)
  then show "(\<exists>rest. a = s @ NUL # rest) \<and> NUL \<notin> set s" using s(1) by (simp add: takeWhile_append)
qed (auto simp: c_str_terminated)

lemma strcat_ok:
  assumes "c_str dst = Inr d" "length d + length src < length dst" "NUL \<notin> set src"
  obtains a where "strcat dst src = Inr a" "c_str a = Inr (d @ src)" "length a = length dst"
proof (rule that)
  obtain rest where r: "dst = d @ NUL # rest" "NUL \<notin> set d" using assms(1) c_str_Inr by blast
  show "strcat dst src = Inr (mem_put dst (length d) (src @ [NUL]))" using assms by (simp add: strcat_def)
  show "length (mem_put dst (length d) (src @ [NUL])) = length dst" using assms by simp
  have "mem_put dst (length d) (src @ [NUL]) = (d @ src) @ NUL # drop (Suc (length d + length src)) dst"
    using r by (simp add: mem_put_def)
  then show "c_str (mem_put dst (length d) (src @ [NUL])) = Inr (d @ src)"
    using c_str_terminated [of "d @ src"] r(2) assms(3) by simp
qed

lemma strcpy_ok:
  assumes "length src < length dst" "NUL \<notin> set src"
  obtains a where "strcpy dst src = Inr a" "c_str a = Inr src" "length a = length dst"
proof (rule that)
  show "strcpy dst src = Inr (mem_put dst 0 (src @ [NUL]))" using assms by (simp add: strcpy_def)
  show "length (mem_put dst 0 (src @ [NUL])) = length dst" using assms by simp
  show "c_str (mem_put dst 0 (src @ [NUL])) = Inr src" using assms c_str_terminated by (simp add: mem_put_def)
qed

lemma takeWhile_list_update:
  "n < length (takeWhile P xs) \<Longrightarrow> \<not> P y \<Longrightarrow> takeWhile P (xs[n := y]) = take n xs"
  by (induction xs arbitrary: n) (auto split: nat.split if_splits)

lemma make_prompt_array:
  assumes "make_prompt username prompt inp = Inr (a, rest)" "length username = 10" "length prompt = 14"
  shows "\<exists>p. prompt_array a p"
proof -
  obtain u where u: "length u = 10"
      "bindR (strlen u) (\<lambda>n. if n = 0 then Inl OutOfBounds
        else bindR (c_str (u[n - 1 := NUL])) (\<lambda>name. bindR (strcpy prompt name) (\<lambda>p.
             bindR (strcat p ''> '') (\<lambda>p'. Inr (p', rest))))) = Inr (a, rest)"
  proof (cases "fgets USERNAME_BUFFER inp")
    case None
    then show thesis using assms that [of username] by (auto simp: make_prompt_def bindR_Inr_iff split: if_splits)
  next
    case (Some sr)
    obtain s r where s: "sr = (s, r)" by (cases sr)
    have "length s < 10" using fgets_props(3) [of 10 inp s r] Some s by (simp add: USERNAME_BUFFER_def)
    then show thesis
      using assms Some s that [of "mem_put username 0 (s @ [NUL])"] by (auto simp: make_prompt_def bindR_Inr_iff split: if_splits)
  qed
  from u(2) obtain w name p where w: "c_str u = Inr w" "w \<noteq> []" "c_str (u[length w - 1 := NUL]) = Inr name"
    "strcpy prompt name = Inr p" "strcat p ''> '' = Inr a"
    by (auto simp: strlen_def bindR_Inr_iff split: if_splits)
  obtain tl where tl: "u = w @ NUL # tl" "NUL \<notin> set w" using w(1) c_str_Inr by blast
  then have len: "length w < 10" using u(1) by simp
  have "name = takeWhile (\<lambda>c. c \<noteq> NUL) (u[length w - 1 := NUL])" using w(3) by (auto simp: c_str_def split: if_splits)
  also have "\<dots> = take (length w - 1) u" using w(2) tl by (intro takeWhile_list_update) (auto simp: takeWhile_append)
  finally have name: "name = take (length w - 1) w" using tl(1) w(2) by (cases w rule: rev_cases) simp_all
  then have n: "length name \<le> 8" "NUL \<notin> set name" using len tl(2) by (auto dest: in_set_takeD)
  obtain p' where "strcpy prompt name = Inr p'" "c_str p' = Inr name" "length p' = 14"
    using strcpy_ok [of name prompt] n assms(3) by auto
  then have p: "c_str p = Inr name" "length p = 14" using w(4) by simp_all
  obtain a' where "strcat p ''> '' = Inr a'" "c_str a' = Inr (name @ ''> '')" "length a' = length p"
    by (rule strcat_ok [OF p(1), of "''> ''"]) (use n p(2) in \<open>auto simp: NUL_def\<close>)
  then show ?thesis using w(5) p(2) n(1) by (auto simp: prompt_array_def)
qed

section \<open>The line that is sent\<close>

text \<open>\<open>final_message\<close> has 511 characters: enough for every prompt and every line of \<open>fgets\<close>.\<close>

lemma compose_line_ok:
  assumes f: "c_str final = Inr old" "length final = 511" and line: "length line < 500" "NUL \<notin> set line"
    and p: "length p \<le> 10" "NUL \<notin> set p"
  obtains final' where "compose_line p final line = Inr (final', p @ line)" "length final' = 511" "c_str final' = Inr (p @ line)"
proof -
  obtain rest where r: "final = old @ NUL # rest" "NUL \<notin> set old" using f(1) c_str_Inr by blast
  let ?cleared = "mem_put final 0 (replicate (length old) NUL)"
  have "?cleared = replicate (length old) NUL @ NUL # rest" using r(1) by (simp add: mem_put_def)
  then have c0: "c_str ?cleared = Inr []" by (cases old) (simp_all add: c_str_def)
  have len: "length ?cleared = 511" using f(2) r(1) by simp
  obtain f1 where f1: "strcat ?cleared p = Inr f1" "c_str f1 = Inr p" "length f1 = 511"
    by (rule strcat_ok [OF c0, of p]) (use len p in auto)
  obtain f2 where f2: "strcat f1 line = Inr f2" "c_str f2 = Inr (p @ line)" "length f2 = 511"
    by (rule strcat_ok [OF f1(2), of line]) (use f1(3) line p in auto)
  have "compose_line p final line = Inr (f2, p @ line)"
    using f(1) f1(1) f2(1,2) by (simp add: compose_line_def strlen_def)
  then show thesis using that f2 by blast
qed

text \<open>The line that one round reads.\<close>

definition first_line :: "string \<Rightarrow> string" where
  "first_line inp = takeWhile (\<lambda>c. c \<noteq> NUL) (take (min 499 (Suc (length (takeWhile (\<lambda>c. c \<noteq> NL) inp)))) inp)"
definition after_line :: "string \<Rightarrow> string" where
  "after_line inp = drop (min 499 (Suc (length (takeWhile (\<lambda>c. c \<noteq> NL) inp)))) inp"

lemma first_line_bounds: "length (first_line inp) < 500" "NUL \<notin> set (first_line inp)"
proof -
  have "length (first_line inp) \<le> length (take (min 499 (Suc (length (takeWhile (\<lambda>c. c \<noteq> NL) inp)))) inp)"
    unfolding first_line_def by (rule length_takeWhile_le)
  then show "length (first_line inp) < 500" by (simp add: min_def split: if_splits)
  show "NUL \<notin> set (first_line inp)" by (auto simp: first_line_def dest: set_takeWhileD)
qed

lemma after_line_shorter: "inp \<noteq> [] \<Longrightarrow> length (after_line inp) < length inp"
  by (simp add: after_line_def)

lemma send_message_Nil [simp]: "send_message p final [] = Inr (InputEnds, [], [])"
  by (simp add: send_message.simps [of p final "[]"] fgets_def)

lemma send_message_round:
  assumes "inp \<noteq> []"
  shows "send_message p final inp =
    bindR (compose_line p final (first_line inp)) (\<lambda>(final', text).
      if take 5 (first_line inp) = ''/quit'' then Inr (Quit, [], NL # p @ ''Closing connection...'' @ [NL])
      else bindR (send_message p final' (after_line inp)) (\<lambda>(e, sends, out). Inr (e, (text @ [NUL]) # sends, NL # p @ out)))"
  using assms unfolding first_line_def after_line_def
  by (subst send_message.simps) (simp add: fgets_def Let_def MESSAGE_BUFFER_def cong: if_cong)

text \<open>What the whole loop sends, without arrays.\<close>

function typed_messages :: "string \<Rightarrow> string \<Rightarrow> string list" where
  "typed_messages p inp =
     (if inp = [] \<or> take 5 (first_line inp) = ''/quit'' then []
      else (p @ first_line inp @ [NUL]) # typed_messages p (after_line inp))"
  by pat_completeness auto
termination
  by (relation "measure (\<lambda>(_, inp). length inp)") (auto simp: after_line_shorter)

declare typed_messages.simps [simp del]

lemma send_message_sends:
  assumes "c_str final = Inr old" "length final = 511" "length p \<le> 10" "NUL \<notin> set p"
  shows "\<exists>e out. send_message p final inp = Inr (e, typed_messages p inp, out)"
  using assms(1,2)
proof (induction inp arbitrary: final old rule: length_induct)
  case (1 inp)
  show ?case
  proof (cases "inp = []")
    case False
    obtain final' where f: "compose_line p final (first_line inp) = Inr (final', p @ first_line inp)" "length final' = 511"
      "c_str final' = Inr (p @ first_line inp)"
      by (rule compose_line_ok [OF "1.prems" first_line_bounds assms(3,4)])
    obtain e out where "send_message p final' (after_line inp) = Inr (e, typed_messages p (after_line inp), out)"
      using "1.IH" after_line_shorter [OF False] f(2,3) by blast
    then show ?thesis
      using f(1) False by (subst send_message_round [OF False], subst typed_messages.simps) simp
  qed (simp add: typed_messages.simps [of p "[]"])
qed

lemma typed_messages_fit:
  assumes "length p \<le> 10" "NUL \<notin> set p"
  shows "list_all (\<lambda>m. length m \<le> 510 \<and> (\<exists>t. m = t @ [NUL] \<and> NUL \<notin> set t)) (typed_messages p inp)"
proof (induction inp rule: length_induct)
  case (1 inp)
  show ?case
    using 1 after_line_shorter [of inp] first_line_bounds [of inp] assms
    by (subst typed_messages.simps) auto
qed

section \<open>What is shown\<close>

lemma shown_chunk:
  assumes "length bs \<le> 500"
  shows "c_str (mem_put (replicate MESSAGE_BUFFER NUL) 0 bs) =
    (if length bs < 500 \<or> NUL \<in> set bs then Inr (takeWhile (\<lambda>c. c \<noteq> NUL) bs) else Inl Unterminated)"
proof -
  have "mem_put (replicate MESSAGE_BUFFER NUL) 0 bs = bs @ replicate (500 - length bs) NUL"
    by (simp add: mem_put_def MESSAGE_BUFFER_def)
  moreover have "takeWhile (\<lambda>c. c \<noteq> NUL) (bs @ replicate k NUL) = takeWhile (\<lambda>c. c \<noteq> NUL) bs" for k
    by (induction bs) (simp_all add: takeWhile_replicate)
  ultimately show ?thesis using assms by (cases "NUL \<in> set bs") (auto simp: c_str_def)
qed

section \<open>From the keyboard to the screens\<close>

definition to_bytes :: "string \<Rightarrow> byte list" where "to_bytes s = map (\<lambda>c. word_of_nat (of_char c)) s"
definition of_bytes :: "byte list \<Rightarrow> string" where "of_bytes bs = map (\<lambda>b. char_of (unat b)) bs"

lemma of_bytes_to_bytes [simp]: "of_bytes (to_bytes s) = s"
proof -
  have "char_of (unat (word_of_nat (of_char c) :: byte)) = c" for c
    using nat_of_char_less_256 [of c] by (simp add: unat_of_nat take_bit_nat_eq_self)
  then show ?thesis by (simp add: of_bytes_def to_bytes_def o_def)
qed

lemma length_to_bytes [simp]: "length (to_bytes s) = length s"
  by (simp add: to_bytes_def)

lemma to_bytes_terminated: "to_bytes (s @ [NUL]) = to_bytes s @ [0]"
  by (simp add: to_bytes_def NUL_def)

text \<open>The message that the receiving thread of the server makes of it.\<close>

definition line_message :: "(nat \<Rightarrow> byte) \<Rightarrow> int \<Rightarrow> string \<Rightarrow> BroadcastMessage" where
  "line_message j fd m = user_message j fd (to_bytes m)"

lemma line_message_sel:
  assumes "length m \<le> 1024"
  shows "length (msg_block (line_message j fd m)) = 1024" "messageSize (line_message j fd m) = int (length m)"
    "take (length m) (msg_block (line_message j fd m)) = to_bytes m" "msg_socket (line_message j fd m) = fd"
    "messageType (line_message j fd m) = CLIENT_CHAT_MESSAGE"
  using assms by (simp_all add: line_message_def user_message_def)

text \<open>The NUL that the client sends along is the byte that the relay overwrites.\<close>

lemma relayed_line:
  assumes "length (s @ [NUL]) \<le> 1024"
  shows "take (length (s @ [NUL])) (msg_block (relayed_message jk g (relay_of uid (line_message j fd (s @ [NUL]))))) = to_bytes (s @ [NUL])"
proof -
  note sel = line_message_sel [OF assms, of j fd]
  have "take (length s) (msg_block (line_message j fd (s @ [NUL]))) = take (length s) (to_bytes (s @ [NUL]))"
    unfolding sel(3) [symmetric] by (simp add: min_def)
  then show ?thesis
    using relayed_message_of_relay(4) [OF sel(1,2) assms, of jk g uid] by (simp add: to_bytes_terminated)
qed

section \<open>Properties\<close>


text \<open>C17: What the receiving thread shows of the pieces in which the stream arrives: of each piece the text up to its first
  NUL, so that a second message in the same piece is lost; and a piece of 500 bytes without a NUL is
  read past the end of the array.\<close>

theorem client_shows_pieces:
  assumes "\<forall>c \<in> set cs. length c \<le> 500" "c_str prompt = Inr p"
  shows "client_receive prompt (map RecvData cs) =
    (if list_all (\<lambda>c. length c < 500 \<or> NUL \<in> set c) cs
     then Inr (concat (map (\<lambda>c. NL # takeWhile (\<lambda>x. x \<noteq> NUL) c @ p) cs)) else Inl Unterminated)"
  using assms(1)
proof (induction cs)
  case (Cons c cs)
  then show ?case using shown_chunk [of c] assms(2) by simp
qed simp


section \<open>Witnesses\<close>

theorem client_shows_pieces_witness:
  "client_receive (''b> '' @ [NUL]) [RecvData (''one'' @ NUL # ''two'' @ [NUL])] = Inr (NL # ''oneb> '') \<and>
   client_receive (''b> '' @ [NUL]) [RecvData (replicate 500 CHR ''x'')] = Inl Unterminated"
proof -
  have p: "c_str (''b> '' @ [NUL]) = Inr ''b> ''" by (simp add: c_str_def NUL_def)
  show ?thesis
    using client_shows_pieces [OF _ p, of "[''one'' @ NUL # ''two'' @ [NUL]]"]
      client_shows_pieces [OF _ p, of "[replicate 500 CHR ''x'']"] by (simp add: NUL_def)
qed

definition demo_name :: string where "demo_name = ''ann'' @ [NL]"

lemma demo_prompt:
  "\<exists>a. make_prompt (replicate 10 NUL) (replicate 14 NUL) (demo_name @ rest) = Inr (a, rest) \<and> c_str a = Inr ''ann> ''"
  by (simp add: make_prompt_def demo_name_def fgets_def USERNAME_BUFFER_def NL_def NUL_def mem_put_def strlen_def c_str_def
      strcpy_def strcat_def eval_nat_numeral)



end
