(* ===== verification/SharedMem.thy ===== *)
theory SharedMem
  imports Prelude
begin

text \<open>
  \<open>SharedMemory\<close> (src/SharedMemory.cpp): a System V segment as an object. The kernel's table holds of every
  segment its key, size, number of attachments and whether it has been removed; what \<open>shmget\<close> and \<open>shmat\<close> may
  refuse for reasons of their own (permissions, limits) is an argument of every call. An attachment is an
  address; \<open>shmat\<close> fails with \<open>(void *) -1\<close>.
\<close>

section \<open>The kernel's table\<close>

record segment =
  sg_key :: "int option"
  sg_size :: nat
  sg_attached :: "64 word list"
  sg_removed :: bool

record ipc =
  ipc_segs :: "nat \<rightharpoonup> segment"
  ipc_next :: nat

definition segment_with :: "ipc \<Rightarrow> int \<Rightarrow> nat option" where
  "segment_with k key =
     (case filter (\<lambda>i. case ipc_segs k i of None \<Rightarrow> False | Some s \<Rightarrow> sg_key s = Some key) [0..<ipc_next k] of
        [] \<Rightarrow> None | i # _ \<Rightarrow> Some i)"

definition new_segment :: "ipc \<Rightarrow> int option \<Rightarrow> nat \<Rightarrow> (nat \<times> ipc) option" where
  "new_segment k key sz =
     (if sz = 0 then None
      else Some (ipc_next k, k\<lparr>ipc_next := Suc (ipc_next k),
             ipc_segs := (ipc_segs k)(ipc_next k \<mapsto> \<lparr>sg_key = key, sg_size = sz, sg_attached = [], sg_removed = False\<rparr>)\<rparr>))"

definition shmget :: "bool \<Rightarrow> ipc \<Rightarrow> int \<Rightarrow> nat \<Rightarrow> (nat \<times> ipc) option" where
  \<comment> \<open>\<open>shmget(key, size, IPC_CREAT | 0666)\<close>; the key 0 is \<open>IPC_PRIVATE\<close>\<close>
  "shmget ok k key sz =
     (if \<not> ok then None
      else if key = 0 then new_segment k None sz
      else case segment_with k key of None \<Rightarrow> new_segment k (Some key) sz
        | Some i \<Rightarrow> (case ipc_segs k i of None \<Rightarrow> None
            | Some s \<Rightarrow> if sg_size s < sz then None else Some (i, k)))"

definition shmat :: "64 word option \<Rightarrow> ipc \<Rightarrow> nat \<Rightarrow> 64 word \<times> ipc" where
  \<comment> \<open>the address the kernel chooses, or nothing if it refuses\<close>
  "shmat at k i =
     (case (at, ipc_segs k i) of
        (Some a, Some s) \<Rightarrow> (a, k\<lparr>ipc_segs := (ipc_segs k)(i \<mapsto> s\<lparr>sg_attached := a # sg_attached s\<rparr>)\<rparr>)
      | _ \<Rightarrow> (-1, k))"

definition drop_if_dead :: "nat \<Rightarrow> ipc \<Rightarrow> ipc" where
  \<comment> \<open>a removed segment is freed with its last attachment\<close>
  "drop_if_dead i k =
     (case ipc_segs k i of Some s \<Rightarrow> if sg_removed s \<and> sg_attached s = [] then k\<lparr>ipc_segs := (ipc_segs k)(i := None)\<rparr> else k
      | None \<Rightarrow> k)"

definition shm_remove :: "ipc \<Rightarrow> nat \<Rightarrow> ipc option" where
  \<comment> \<open>\<open>shmctl(id, IPC_RMID, 0)\<close>: the key is free again at once\<close>
  "shm_remove k i =
     (case ipc_segs k i of None \<Rightarrow> None
      | Some s \<Rightarrow> Some (drop_if_dead i (k\<lparr>ipc_segs := (ipc_segs k)(i \<mapsto> s\<lparr>sg_key := None, sg_removed := True\<rparr>)\<rparr>)))"

definition segment_at :: "ipc \<Rightarrow> 64 word \<Rightarrow> nat option" where
  "segment_at k a =
     (case filter (\<lambda>i. case ipc_segs k i of None \<Rightarrow> False | Some s \<Rightarrow> a \<in> set (sg_attached s)) [0..<ipc_next k] of
        [] \<Rightarrow> None | i # _ \<Rightarrow> Some i)"

definition shmdt :: "ipc \<Rightarrow> 64 word \<Rightarrow> ipc option" where
  "shmdt k a =
     (case segment_at k a of None \<Rightarrow> None
      | Some i \<Rightarrow> (case ipc_segs k i of None \<Rightarrow> None
          | Some s \<Rightarrow> Some (drop_if_dead i (k\<lparr>ipc_segs := (ipc_segs k)(i \<mapsto> s\<lparr>sg_attached := remove1 a (sg_attached s)\<rparr>)\<rparr>))))"

section \<open>SharedMemory\<close>

record SharedMemory =
  m_Key :: int
  m_ShmId :: int
  m_Size :: nat
  m_Data :: "64 word"
  shm_m_IsStarted :: bool

text \<open>\<open>Create(key)\<close> tries twice. The answers of the kernel to the two calls are the arguments.\<close>

definition shm_Create_key :: "bool \<Rightarrow> bool \<Rightarrow> int \<Rightarrow> SharedMemory \<Rightarrow> ipc \<Rightarrow> bool \<times> SharedMemory \<times> ipc" where
  "shm_Create_key ok1 ok2 key sm k =
     (case shmget ok1 k key (m_Size sm) of
        Some (i, k') \<Rightarrow> (True, sm\<lparr>m_ShmId := int i\<rparr>, k')
      | None \<Rightarrow> (case shmget ok2 k key (m_Size sm) of
            Some (i, k') \<Rightarrow> (True, sm\<lparr>m_ShmId := int i\<rparr>, k')
          | None \<Rightarrow> (False, sm\<lparr>m_ShmId := -1\<rparr>, k)))"

definition shm_Create :: "bool \<Rightarrow> SharedMemory \<Rightarrow> ipc \<Rightarrow> bool \<times> SharedMemory \<times> ipc" where
  "shm_Create ok sm k =
     (case shmget ok k 0 (m_Size sm) of
        Some (i, k') \<Rightarrow> (True, sm\<lparr>m_ShmId := int i\<rparr>, k')
      | None \<Rightarrow> (False, sm\<lparr>m_ShmId := -1\<rparr>, k))"

definition shm_Attach :: "64 word option \<Rightarrow> SharedMemory \<Rightarrow> ipc \<Rightarrow> bool \<times> SharedMemory \<times> ipc" where
  \<comment> \<open>a pointer is never below \<open>(void *) 0\<close>\<close>
  "shm_Attach at sm k =
     (if m_ShmId sm \<ge> 0
      then let (a, k') = shmat at k (nat (m_ShmId sm)); o' = sm\<lparr>m_Data := a\<rparr> in
        if a < 0 then (False, o', k') else (True, o', k')
      else (True, sm, k))"

definition CreateSM :: "bool \<Rightarrow> bool \<Rightarrow> 64 word option \<Rightarrow> int \<Rightarrow> SharedMemory \<Rightarrow> ipc \<Rightarrow> SharedMemory \<times> ipc" where
  "CreateSM ok1 ok2 at key sm k =
     (let o0 = sm\<lparr>m_Key := key, shm_m_IsStarted := False, m_Data := 0, m_ShmId := 0\<rparr>;
          (c, o1, k1) = shm_Create_key ok1 ok2 key o0 k in
      if c then let (t, o2, k2) = shm_Attach at o1 k1 in (if t then o2\<lparr>shm_m_IsStarted := True\<rparr> else o2, k2)
      else (o1\<lparr>shm_m_IsStarted := False\<rparr>, k1))"

definition SharedMemory_key_size :: "bool \<Rightarrow> bool \<Rightarrow> 64 word option \<Rightarrow> int \<Rightarrow> nat \<Rightarrow> ipc \<Rightarrow> SharedMemory \<times> ipc" where
  \<comment> \<open>also the constructor with an address, which \<open>shmat\<close> then tries\<close>
  "SharedMemory_key_size ok1 ok2 at key sz k =
     CreateSM ok1 ok2 at key \<lparr>m_Key = 0, m_ShmId = 0, m_Size = sz, m_Data = 0, shm_m_IsStarted = False\<rparr> k"

definition SharedMemory_key :: "bool \<Rightarrow> bool \<Rightarrow> 64 word option \<Rightarrow> int \<Rightarrow> ipc \<Rightarrow> SharedMemory \<times> ipc" where
  "SharedMemory_key ok1 ok2 at key k = SharedMemory_key_size ok1 ok2 at key 0 k"

definition SharedMemory_size :: "bool \<Rightarrow> bool \<Rightarrow> 64 word option \<Rightarrow> nat \<Rightarrow> ipc \<Rightarrow> SharedMemory \<times> ipc" where
  \<comment> \<open>\<open>m_IsStarted\<close> is not initialised: the first argument\<close>
  "SharedMemory_size junk ok at sz k =
     (let o0 = \<lparr>m_Key = 0, m_ShmId = 0, m_Size = sz, m_Data = 0, shm_m_IsStarted = junk\<rparr>;
          (c, o1, k1) = shm_Create ok o0 k in
      if c then let (t, o2, k2) = shm_Attach at o1 k1 in (if t then o2\<lparr>shm_m_IsStarted := True\<rparr> else o2, k2)
      else (o1\<lparr>shm_m_IsStarted := False\<rparr>, k1))"

definition SharedMemory_delete :: "SharedMemory \<Rightarrow> SharedMemory" where
  \<comment> \<open>neither detached nor removed\<close>
  "SharedMemory_delete sm = sm\<lparr>m_Data := 0, shm_m_IsStarted := False, m_ShmId := 0\<rparr>"

definition shm_Destroy :: "SharedMemory \<Rightarrow> ipc \<Rightarrow> bool \<times> ipc" where
  "shm_Destroy sm k =
     (if m_ShmId sm \<ge> 0
      then case shm_remove k (nat (m_ShmId sm)) of None \<Rightarrow> (False, k)
        | Some k1 \<Rightarrow> (case shmdt k1 (m_Data sm) of None \<Rightarrow> (False, k1) | Some k2 \<Rightarrow> (True, k2))
      else (False, k))"

definition shm_GetKey :: "SharedMemory \<Rightarrow> int" where "shm_GetKey sm = m_Key sm"
definition shm_IsStarted :: "SharedMemory \<Rightarrow> bool" where "shm_IsStarted sm = shm_m_IsStarted sm"
definition shm_GetID :: "SharedMemory \<Rightarrow> int" where "shm_GetID sm = m_ShmId sm"
definition GetDataPoint :: "SharedMemory \<Rightarrow> 64 word" where "GetDataPoint sm = m_Data sm"

text \<open>The getters ask \<open>shmctl\<close> and do not look at its result: without a segment they return what was on the stack.\<close>

definition shm_stat :: "SharedMemory \<Rightarrow> ipc \<Rightarrow> segment option" where
  "shm_stat sm k = (if m_ShmId sm < 0 then None else ipc_segs k (nat (m_ShmId sm)))"
definition GetAccessPCount :: "16 word \<Rightarrow> SharedMemory \<Rightarrow> ipc \<Rightarrow> 16 word" where
  "GetAccessPCount junk sm k = (case shm_stat sm k of None \<Rightarrow> junk | Some s \<Rightarrow> word_of_nat (length (sg_attached s)))"
definition shm_GetSize :: "int \<Rightarrow> SharedMemory \<Rightarrow> ipc \<Rightarrow> int" where
  "shm_GetSize junk sm k = (case shm_stat sm k of None \<Rightarrow> junk | Some s \<Rightarrow> sint (word_of_nat (sg_size s) :: 32 word))"

section \<open>The table in order\<close>

definition ipc_wf :: "ipc \<Rightarrow> bool" where
  "ipc_wf k \<longleftrightarrow> (\<forall>i s. ipc_segs k i = Some s \<longrightarrow> i < ipc_next k \<and> (sg_removed s \<longrightarrow> sg_key s = None \<and> sg_attached s \<noteq> [])) \<and>
     (\<forall>i j s t key. ipc_segs k i = Some s \<and> ipc_segs k j = Some t \<and> sg_key s = Some key \<and> sg_key t = Some key \<longrightarrow> i = j) \<and>
     (\<forall>i j s t a. ipc_segs k i = Some s \<and> ipc_segs k j = Some t \<and> a \<in> set (sg_attached s) \<and> a \<in> set (sg_attached t) \<longrightarrow> i = j)"

lemma segment_with_Some:
  assumes "ipc_wf k" "ipc_segs k i = Some s" "sg_key s = Some key"
  shows "segment_with k key = Some i"
proof -
  let ?P = "\<lambda>i. case ipc_segs k i of None \<Rightarrow> False | Some s \<Rightarrow> sg_key s = Some key"
  have "j = i" if "?P j" for j using that assms by (auto simp: ipc_wf_def split: option.splits)
  moreover have "i \<in> set (filter ?P [0..<ipc_next k])" using assms by (auto simp: ipc_wf_def)
  ultimately show ?thesis unfolding segment_with_def
    by (cases "filter ?P [0..<ipc_next k]") (auto dest: filter_eq_ConsD)
qed

lemma segment_with_None: "segment_with k key = None \<Longrightarrow> i < ipc_next k \<Longrightarrow> ipc_segs k i = Some s \<Longrightarrow> sg_key s \<noteq> Some key"
  by (force simp: segment_with_def filter_empty_conv split: list.splits)

lemma segment_at_Some:
  assumes "ipc_wf k" "ipc_segs k i = Some s" "a \<in> set (sg_attached s)"
  shows "segment_at k a = Some i"
proof -
  let ?P = "\<lambda>i. case ipc_segs k i of None \<Rightarrow> False | Some s \<Rightarrow> a \<in> set (sg_attached s)"
  have "j = i" if "?P j" for j using that assms by (auto simp: ipc_wf_def split: option.splits) blast
  moreover have "i \<in> set (filter ?P [0..<ipc_next k])" using assms by (auto simp: ipc_wf_def)
  ultimately show ?thesis unfolding segment_at_def
    by (cases "filter ?P [0..<ipc_next k]") (auto dest: filter_eq_ConsD)
qed

lemma segment_at_None: "segment_at k a = None \<Longrightarrow> i < ipc_next k \<Longrightarrow> ipc_segs k i = Some s \<Longrightarrow> a \<notin> set (sg_attached s)"
  by (force simp: segment_at_def filter_empty_conv split: list.splits)

text \<open>A change of one segment.\<close>

lemma ipc_wf_upd:
  assumes "ipc_wf k" "i < n" "ipc_next k \<le> n" "sg_removed s' \<Longrightarrow> sg_key s' = None \<and> sg_attached s' \<noteq> []"
    and "\<And>j t. j \<noteq> i \<Longrightarrow> ipc_segs k j = Some t \<Longrightarrow> (sg_key s' = None \<or> sg_key t \<noteq> sg_key s') \<and> set (sg_attached t) \<inter> set (sg_attached s') = {}"
  shows "ipc_wf (k\<lparr>ipc_next := n, ipc_segs := (ipc_segs k)(i \<mapsto> s')\<rparr>)"
  using assms unfolding ipc_wf_def by (auto split: if_splits) (metis | fastforce)+

section \<open>Two objects with one key\<close>

definition started_object :: "int \<Rightarrow> nat \<Rightarrow> nat \<Rightarrow> 64 word \<Rightarrow> SharedMemory" where
  "started_object key i sz a = \<lparr>m_Key = key, m_ShmId = int i, m_Size = sz, m_Data = a, shm_m_IsStarted = True\<rparr>"

lemma first_object:
  assumes "key \<noteq> 0" "segment_with k key = None" "0 < sz"
  shows "SharedMemory_key_size True b (Some a) key sz k = (started_object key (ipc_next k) sz a,
    k\<lparr>ipc_next := Suc (ipc_next k),
      ipc_segs := (ipc_segs k)(ipc_next k \<mapsto> \<lparr>sg_key = Some key, sg_size = sz, sg_attached = [a], sg_removed = False\<rparr>)\<rparr>)"
  using assms
  by (simp add: SharedMemory_key_size_def CreateSM_def shm_Create_key_def shmget_def new_segment_def shm_Attach_def shmat_def
      started_object_def)

lemma second_object:
  assumes "key \<noteq> 0" "segment_with k key = Some i" "ipc_segs k i = Some s" "sz \<le> sg_size s"
  shows "SharedMemory_key_size True b (Some a) key sz k = (started_object key i sz a,
    k\<lparr>ipc_segs := (ipc_segs k)(i \<mapsto> s\<lparr>sg_attached := a # sg_attached s\<rparr>)\<rparr>)"
  using assms
  by (simp add: SharedMemory_key_size_def CreateSM_def shm_Create_key_def shmget_def shm_Attach_def shmat_def
      started_object_def)

text \<open>After \<open>Destroy\<close> of one of two objects.\<close>

lemma destroy_one:
  assumes "ipc_wf k" "ipc_segs k i = Some s" "a \<in> set (sg_attached s)" "remove1 a (sg_attached s) \<noteq> []"
    and key: "sg_key s = Some key"
  shows "shm_Destroy (started_object key i sz a) k =
    (True, k\<lparr>ipc_segs := (ipc_segs k)(i \<mapsto> s\<lparr>sg_key := None, sg_removed := True, sg_attached := remove1 a (sg_attached s)\<rparr>)\<rparr>)"
proof -
  have ne: "sg_attached s \<noteq> []" using assms(3) by auto
  let ?s = "s\<lparr>sg_key := None, sg_removed := True\<rparr>" and ?k = "k\<lparr>ipc_segs := (ipc_segs k)(i \<mapsto> s\<lparr>sg_key := None, sg_removed := True\<rparr>)\<rparr>"
  have r: "shm_remove k i = Some ?k" using assms(2) ne by (simp add: shm_remove_def drop_if_dead_def)
  have dis: "set (sg_attached t) \<inter> set (sg_attached s) = {}" if "j \<noteq> i" "ipc_segs k j = Some t" for j t
    using assms(1,2) that unfolding ipc_wf_def by blast
  have "ipc_wf ?k"
  proof -
    have "ipc_wf (k\<lparr>ipc_next := ipc_next k, ipc_segs := (ipc_segs k)(i \<mapsto> ?s)\<rparr>)"
      by (rule ipc_wf_upd [OF assms(1)]) (use assms(1,2) ne dis in \<open>auto simp: ipc_wf_def\<close>)
    then show ?thesis by simp
  qed
  then have "segment_at ?k a = Some i" using assms(3) by (intro segment_at_Some [where s = ?s]) simp_all
  then have "shmdt ?k a = Some (k\<lparr>ipc_segs := (ipc_segs k)(i \<mapsto> ?s\<lparr>sg_attached := remove1 a (sg_attached s)\<rparr>)\<rparr>)"
    using assms(4) by (simp add: shmdt_def drop_if_dead_def)
  then show ?thesis using r by (simp add: shm_Destroy_def started_object_def)
qed

section \<open>Properties\<close>

text \<open>C40: Two objects made with one key are the same segment. On a kernel in order in which nobody has the key, a first
  object creates the segment and a second, not larger, finds it: both are started and have the same
  identifier, two attachments are counted and the size is the first one's. After \<open>Destroy\<close> of the first the
  second is still attached, but the key is free: a third object with it gets a segment of its own.\<close>

theorem shared_memory_is_shared:
  assumes wf: "ipc_wf k" and key: "key \<noteq> 0" "segment_with k key = None" and sz: "0 < s2" "s2 \<le> s1" "s1 < 2 ^ 31" "0 < s3"
    and at: "a1 \<noteq> a2" "segment_at k a1 = None" "segment_at k a2 = None"
  shows "case SharedMemory_key_size True b1 (Some a1) key s1 k of (o1, k1) \<Rightarrow>
    case SharedMemory_key_size True b2 (Some a2) key s2 k1 of (o2, k2) \<Rightarrow>
    case shm_Destroy o1 k2 of (r, k3) \<Rightarrow>
    case SharedMemory_key_size True b3 (Some a3) key s3 k3 of (o3, k4) \<Rightarrow>
      shm_IsStarted o1 \<and> shm_IsStarted o2 \<and> shm_GetID o2 = shm_GetID o1 \<and>
      GetAccessPCount j o2 k2 = 2 \<and> shm_GetSize g o2 k2 = int s1 \<and>
      r \<and> GetAccessPCount j o2 k3 = 1 \<and> shm_IsStarted o3 \<and> shm_GetID o3 \<noteq> shm_GetID o1"
proof -
  let ?i = "ipc_next k"
  let ?s = "\<lambda>as. \<lparr>sg_key = Some key, sg_size = s1, sg_attached = as, sg_removed = False\<rparr>"
  let ?k1 = "k\<lparr>ipc_next := Suc ?i, ipc_segs := (ipc_segs k)(?i \<mapsto> ?s [a1])\<rparr>"
  let ?k2 = "k\<lparr>ipc_next := Suc ?i, ipc_segs := (ipc_segs k)(?i \<mapsto> ?s [a2, a1])\<rparr>"
  let ?s3 = "?s [a2]\<lparr>sg_key := None, sg_removed := True\<rparr>"
  let ?k3 = "k\<lparr>ipc_next := Suc ?i, ipc_segs := (ipc_segs k)(?i \<mapsto> ?s3)\<rparr>"
  have below: "i < ?i" if "ipc_segs k i = Some t" for i t using wf that by (auto simp: ipc_wf_def)
  have other: "sg_key t \<noteq> Some key" "a1 \<notin> set (sg_attached t)" "a2 \<notin> set (sg_attached t)" if "ipc_segs k i = Some t" for i t
    using segment_with_None [OF key(2) below [OF that] that] segment_at_None [OF at(2) below [OF that] that]
      segment_at_None [OF at(3) below [OF that] that] by simp_all
  have wfs: "ipc_wf ?k1" "ipc_wf ?k2" by (rule ipc_wf_upd [OF wf]; use other in auto)+
  have 1: "SharedMemory_key_size True b1 (Some a1) key s1 k = (started_object key ?i s1 a1, ?k1)"
    using first_object [OF key] sz by simp
  have "segment_with ?k1 key = Some ?i" by (rule segment_with_Some [OF wfs(1), of _ "?s [a1]"]) simp_all
  then have 2: "SharedMemory_key_size True b2 (Some a2) key s2 ?k1 = (started_object key ?i s2 a2, ?k2)"
    using second_object [OF key(1), of ?k1 ?i "?s [a1]"] sz by simp
  have 3: "shm_Destroy (started_object key ?i s1 a1) ?k2 = (True, ?k3)"
    using destroy_one [OF wfs(2), of ?i "?s [a2, a1]" a1 key s1] at(1) by simp
  have "segment_with ?k3 key = None"
    using other(1) by (auto simp: segment_with_def filter_empty_conv split: option.splits list.splits dest!: filter_eq_ConsD)
  then obtain o3 k4 where 4: "SharedMemory_key_size True b3 (Some a3) key s3 ?k3 = (o3, k4)"
      "o3 = started_object key (Suc ?i) s3 a3"
    using first_object [OF key(1), of ?k3 s3] sz(4) by simp
  have size: "sint (word_of_nat s1 :: 32 word) = int s1"
    using sz(3) by (simp add: signed_of_nat signed_take_bit_int_eq_self)
  show ?thesis
    unfolding 1 prod.case 2 3 4 using size
    by (simp add: started_object_def shm_IsStarted_def shm_GetID_def GetAccessPCount_def shm_stat_def shm_GetSize_def)
qed

theorem shared_memory_is_shared_witness:
  "case SharedMemory_key_size True True (Some 4096) 77 100 \<lparr>ipc_segs = Map.empty, ipc_next = 0\<rparr> of (o1, k1) \<Rightarrow>
    case SharedMemory_key_size True True (Some 8192) 77 50 k1 of (o2, k2) \<Rightarrow> shm_GetID o2 = shm_GetID o1"
  using shared_memory_is_shared [where k = "\<lparr>ipc_segs = Map.empty, ipc_next = 0\<rparr>" and key = 77 and ?s2.0 = 50 and ?s1.0 = 100 and
      ?s3.0 = 1 and ?a1.0 = 4096 and ?a2.0 = 8192 and ?b1.0 = True and ?b2.0 = True]
  by (simp add: ipc_wf_def segment_with_def segment_at_def split_def)

text \<open>\<open>Attach\<close> never reports a failure: an unsigned pointer is not below \<open>(void *) 0\<close>. If \<open>shmat\<close> refuses, the object is
  started with the data pointer \<open>(void *) -1\<close>, and \<open>Destroy\<close> removes the segment but returns false.\<close>

lemma failed_attach_is_started:
  assumes "key \<noteq> 0" "segment_with k key = None" "0 < sz"
    and "\<And>i s. ipc_segs k i = Some s \<Longrightarrow> -1 \<notin> set (sg_attached s)"
  shows "\<exists>sm k'. SharedMemory_key_size True b None key sz k = (sm, k') \<and> shm_IsStarted sm \<and> GetDataPoint sm = -1 \<and>
    ipc_segs k' (ipc_next k) \<noteq> None \<and>
    (\<exists>k''. shm_Destroy sm k' = (False, k'') \<and> ipc_segs k'' (ipc_next k) = None)"
proof -
  let ?i = "ipc_next k" and ?s = "\<lparr>sg_key = Some key, sg_size = sz, sg_attached = [], sg_removed = False\<rparr>"
  let ?k1 = "k\<lparr>ipc_next := Suc ?i, ipc_segs := (ipc_segs k)(?i \<mapsto> ?s)\<rparr>"
  let ?k2 = "k\<lparr>ipc_next := Suc ?i, ipc_segs := (ipc_segs k)(?i := None)\<rparr>"
  have "SharedMemory_key_size True b None key sz k = (started_object key ?i sz (-1), ?k1)"
    using assms(1-3) by (simp add: SharedMemory_key_size_def CreateSM_def shm_Create_key_def shmget_def new_segment_def
        shm_Attach_def shmat_def started_object_def)
  moreover have "shm_remove ?k1 ?i = Some ?k2" by (simp add: shm_remove_def drop_if_dead_def)
  moreover have "segment_at ?k2 (-1) = None"
    using assms(4) by (auto simp: segment_at_def filter_empty_conv split: list.splits option.splits dest!: filter_eq_ConsD)
  ultimately show ?thesis
    by (simp add: started_object_def shm_IsStarted_def GetDataPoint_def shm_Destroy_def shmdt_def)
qed

end
