(* ===== verification/Housekeeping.thy ===== *)
theory Housekeeping
  imports Startup
begin

text \<open>
  Old log files: the thread \<open>ThreadTic\<close> (src/ThreadTic.cpp), \<open>CNPUtil::DeleteFile\<close> (src/NPUtil.cpp) and
  \<open>CNPLog::DeleteDir\<close> (src/NPLog.cpp), on the file system of \<open>NPLog\<close> with times of change. What \<open>opendir\<close>,
  \<open>stat\<close>, \<open>unlink\<close> and the clock answer depends on the path they are called with, so that every call of a
  sweep may have its own answer. No code starts a \<open>ThreadTic\<close>.
\<close>

section \<open>Paths\<close>

text \<open>The kernel's reading of a path: repeated slashes are one, and one at the end is not looked at.\<close>

fun squeeze :: "string \<Rightarrow> string" where
  "squeeze (c # e # p) = (if c = CHR ''/'' \<and> e = CHR ''/'' then squeeze (e # p) else c # squeeze (e # p))"
| "squeeze p = p"

definition norm_path :: "string \<Rightarrow> string" where
  "norm_path p = (let q = squeeze p in if 1 < length q \<and> last q = CHR ''/'' then butlast q else q)"

definition clean_path :: "string \<Rightarrow> bool" where
  "clean_path p \<longleftrightarrow> p \<noteq> [] \<and> last p \<noteq> CHR ''/'' \<and> squeeze p = p"

section \<open>Files with times\<close>

record disk = files +
  fl_mtime :: "nat \<Rightarrow> 64 word"
  fl_dir_mtime :: "string \<Rightarrow> 64 word"

record sweep_env =
  sv_opendir :: "string \<Rightarrow> bool"
  sv_stat :: "string \<Rightarrow> bool"
  sv_unlink :: "string \<Rightarrow> bool"
  sv_now :: "string \<Rightarrow> 64 word"

definition file_unlink :: "bool \<Rightarrow> string \<Rightarrow> disk \<Rightarrow> disk" where
  \<comment> \<open>fails on a directory\<close>
  "file_unlink ok p f = (if ok then f\<lparr>fl_names := filter (\<lambda>(q, _). q \<noteq> norm_path p) (fl_names f)\<rparr> else f)"

definition file_rmdir :: "bool \<Rightarrow> string \<Rightarrow> disk \<Rightarrow> disk" where
  \<comment> \<open>fails on a directory that is not empty\<close>
  "file_rmdir ok d f =
     (if ok \<and> set (dir_entries (norm_path d) f) \<subseteq> {''.'', ''..''}
      then f\<lparr>fl_dirs := filter (\<lambda>q. q \<noteq> norm_path d) (fl_dirs f)\<rparr> else f)"

definition GetLastChangedTime :: "sweep_env \<Rightarrow> string \<Rightarrow> disk \<Rightarrow> 64 word" where
  \<comment> \<open>0 when \<open>stat\<close> fails\<close>
  "GetLastChangedTime v p f =
     (if \<not> sv_stat v p then 0
      else case map_of (fl_names f) (norm_path p) of Some i \<Rightarrow> fl_mtime f i
        | None \<Rightarrow> if norm_path p \<in> set (fl_dirs f) then fl_dir_mtime f (norm_path p) else 0)"

section \<open>The two loops over a directory\<close>

text \<open>Both functions build the path of every entry in an array of \<open>MAX_FILE_NAME\<close> bytes and do something to it.\<close>

fun each_entry :: "(string \<Rightarrow> disk \<Rightarrow> disk) \<Rightarrow> string \<Rightarrow> string list \<Rightarrow> disk \<Rightarrow> disk res" where
  "each_entry act dir [] f = Inr f"
| "each_entry act dir (item # items) f =
     (if item = ''.'' \<or> item = ''..'' then each_entry act dir items f
      else let p = dir @ ''/'' @ item in
        if MAX_FILE_NAME \<le> length p then Inl OutOfBounds else each_entry act dir items (act p f))"

definition DeleteFile :: "sweep_env \<Rightarrow> string \<Rightarrow> 64 word \<Rightarrow> disk \<Rightarrow> disk res" where
  "DeleteFile v dir age f =
     (if sv_opendir v dir \<and> norm_path dir \<in> set (fl_dirs f)
      then each_entry (\<lambda>p f. if GetLastChangedTime v p f + age < sv_now v p then file_unlink (sv_unlink v p) p f else f)
             dir (dir_entries (norm_path dir) f) f
      else Inr f)"

definition DeleteDir :: "sweep_env \<Rightarrow> bool \<Rightarrow> string \<Rightarrow> disk \<Rightarrow> disk res" where
  "DeleteDir v ok dir f =
     bindR (if sv_opendir v dir \<and> norm_path dir \<in> set (fl_dirs f)
            then each_entry (\<lambda>p. file_unlink (sv_unlink v p) p) dir (dir_entries (norm_path dir) f) f else Inr f)
       (\<lambda>f'. Inr (file_rmdir ok dir f'))"

section \<open>ThreadTic\<close>

record tic =
  iHealthCnt :: int
  tc_process :: Process
  tc_disk :: disk

text \<open>A round of the loop of \<open>Run\<close> with what the calls of a sweep answer and the \<open>errno\<close> of a failed \<open>kill(ppid, 0)\<close>.
  The log file name is shorter than \<open>LOG_FILE_LEN\<close>, so the arrays of \<open>PATH_MAX\<close> bytes hold both directories.\<close>

definition two_days :: "64 word" where "two_days = 86400 * 2"

definition tic_sweep :: "string \<Rightarrow> sweep_env \<Rightarrow> disk \<Rightarrow> disk res" where
  "tic_sweep name v f =
     bindR (DeleteFile v (old_log name) two_days f) (\<lambda>f1. DeleteFile v (dir_part name) two_days f1)"

definition tic_round :: "string \<Rightarrow> sweep_env \<times> int option \<Rightarrow> tic \<Rightarrow> tic res" where
  "tic_round name e t =
     bindR (if 720 \<le> iHealthCnt t
            then bindR (tic_sweep name (fst e) (tc_disk t)) (\<lambda>f. Inr (t\<lparr>tc_disk := f, iHealthCnt := 1\<rparr>)) else Inr t)
       (\<lambda>t1. Inr (t1\<lparr>tc_process := (if snd e = Some ESRCH then Process_SetStarted False (tc_process t1) else tc_process t1),
          iHealthCnt := iHealthCnt t1 + 1\<rparr>))"

fun tic_rounds :: "string \<Rightarrow> (sweep_env \<times> int option) list \<Rightarrow> tic \<Rightarrow> tic res" where
  "tic_rounds name [] t = Inr t"
| "tic_rounds name (e # es) t = bindR (tic_round name e t) (tic_rounds name es)"

definition ThreadTic_Run :: "string \<Rightarrow> (sweep_env \<times> int option) list \<Rightarrow> Process \<Rightarrow> disk \<Rightarrow> tic res" where
  "ThreadTic_Run name es p f = tic_rounds name es \<lparr>iHealthCnt = 1, tc_process = p, tc_disk = f\<rparr>"

section \<open>Paths of a directory's entries\<close>

lemma squeeze_free: "CHR ''/'' \<notin> set p \<Longrightarrow> squeeze p = p"
  by (induction p rule: squeeze.induct) auto

lemma squeeze_last: "p \<noteq> [] \<Longrightarrow> squeeze p \<noteq> [] \<and> last (squeeze p) = last p"
  by (induction p rule: squeeze.induct) auto

lemma squeeze_append: "d \<noteq> [] \<Longrightarrow> last d \<noteq> CHR ''/'' \<Longrightarrow> squeeze (d @ p) = squeeze d @ squeeze p"
proof (induction d)
  case (Cons c d)
  show ?case
  proof (cases d)
    case Nil
    then show ?thesis using Cons.prems by (cases p) auto
  next
    case d: (Cons e d')
    then show ?thesis using Cons.IH Cons.prems by (cases "c = CHR ''/'' \<and> e = CHR ''/''") auto
  qed
qed simp

lemma clean_entry:
  assumes "clean_path d" "CHR ''/'' \<notin> set b" "b \<noteq> []"
  shows "norm_path (d @ ''/'' @ b) = d @ ''/'' @ b" "norm_path (d @ ''//'' @ b) = d @ ''/'' @ b" "clean_path (d @ ''/'' @ b)"
proof -
  have l: "last b \<noteq> CHR ''/''" using assms(2,3) last_in_set by fastforce
  obtain c b' where b: "b = c # b'" using assms(3) by (cases b) auto
  have "squeeze (d @ ''/'' @ b) = d @ ''/'' @ b" "squeeze (d @ ''//'' @ b) = d @ ''/'' @ b"
    using assms squeeze_free [OF assms(2)] b by (auto simp: clean_path_def squeeze_append)
  then show "norm_path (d @ ''/'' @ b) = d @ ''/'' @ b" "norm_path (d @ ''//'' @ b) = d @ ''/'' @ b" "clean_path (d @ ''/'' @ b)"
    using l assms(3) by (simp_all add: norm_path_def clean_path_def)
qed

lemma clean_dir:
  assumes "clean_path d"
  shows "norm_path d = d" "norm_path (d @ ''/'') = d"
  using assms squeeze_append [of d "''/''"] by (auto simp: clean_path_def norm_path_def)

section \<open>A sweep of one directory\<close>

text \<open>\<open>s\<close> is the directory as the caller writes it, \<open>d\<close> the one it means.\<close>

definition dir_string :: "string \<Rightarrow> string \<Rightarrow> bool" where
  "dir_string d s \<longleftrightarrow> clean_path d \<and> (s = d \<or> s = d @ ''/'')"

definition expired :: "sweep_env \<Rightarrow> 64 word \<Rightarrow> disk \<Rightarrow> nat \<Rightarrow> string \<Rightarrow> bool" where
  "expired v age f i p \<longleftrightarrow> (if sv_stat v p then fl_mtime f i else 0) + age < sv_now v p \<and> sv_unlink v p"

definition swept :: "sweep_env \<Rightarrow> string \<Rightarrow> string \<Rightarrow> 64 word \<Rightarrow> disk \<Rightarrow> string \<Rightarrow> nat \<Rightarrow> bool" where
  "swept v d s age f q i \<longleftrightarrow> sv_opendir v s \<and> d \<in> set (fl_dirs f) \<and> dir_part q = d @ ''/'' \<and>
     expired v age f i (s @ ''/'' @ basename q)"

definition keep :: "(string \<Rightarrow> nat \<Rightarrow> bool) \<Rightarrow> disk \<Rightarrow> disk" where
  "keep P f = f\<lparr>fl_names := filter (\<lambda>(q, i). P q i) (fl_names f)\<rparr>"

lemma keep_simps [simp]:
  "fl_names (keep P f) = filter (\<lambda>(q, i). P q i) (fl_names f)" "fl_dirs (keep P f) = fl_dirs f"
  "fl_mtime (keep P f) = fl_mtime f" "fl_dir_mtime (keep P f) = fl_dir_mtime f" "fl_data (keep P f) = fl_data f"
  by (simp_all add: keep_def)

lemma keep_keep: "keep P (keep Q f) = keep (\<lambda>q i. Q q i \<and> P q i) f"
proof -
  have "filter (\<lambda>(q, i). P q i) (filter (\<lambda>(q, i). Q q i) xs) = filter (\<lambda>(q, i). Q q i \<and> P q i) xs" for xs :: "(string \<times> nat) list"
    by (induction xs) auto
  then show ?thesis by (simp add: keep_def)
qed

lemma keep_cong:
  assumes "\<And>q i. (q, i) \<in> set (fl_names f) \<Longrightarrow> P q i = Q q i"
  shows "keep P f = keep Q f"
proof -
  have "filter (\<lambda>(q, i). P q i) (fl_names f) = filter (\<lambda>(q, i). Q q i) (fl_names f)"
    using assms by (intro filter_cong) auto
  then show ?thesis by (simp add: keep_def)
qed

lemma keep_all: "(\<And>q i. (q, i) \<in> set (fl_names f) \<Longrightarrow> P q i) \<Longrightarrow> keep P f = f"
  using keep_cong [of f P "\<lambda>q i. True"] by (simp add: keep_def)

definition names_once :: "disk \<Rightarrow> bool" where
  "names_once f \<longleftrightarrow> distinct (map fst (fl_names f))"

lemma names_once_keep: "names_once f \<Longrightarrow> names_once (keep P f)"
  by (simp add: names_once_def distinct_map inj_on_def)

lemma dir_entry:
  assumes "dir_string d s" "CHR ''/'' \<notin> set b" "b \<noteq> []"
  shows "norm_path (s @ ''/'' @ b) = d @ ''/'' @ b"
  using assms clean_entry [of d b] by (auto simp: dir_string_def)

lemma split_path:
  assumes "CHR ''/'' \<notin> set b"
  shows "dir_part (d @ ''/'' @ b) = d @ ''/''" "basename (d @ ''/'' @ b) = b"
proof -
  have "takeWhile (\<lambda>c. c \<noteq> CHR ''/'') (rev b @ CHR ''/'' # rev d) = rev b"
    using assms by (subst takeWhile_append2) auto
  then show "dir_part (d @ ''/'' @ b) = d @ ''/''" "basename (d @ ''/'' @ b) = b" by (simp_all add: dir_part_def basename_def)
qed

lemma path_split: "dir_part q = d @ ''/'' \<Longrightarrow> q = d @ ''/'' @ basename q"
  using dir_part_basename [of q] by simp

text \<open>One entry.\<close>

lemma sweep_one:
  assumes d: "dir_string d s" and b: "CHR ''/'' \<notin> set b" "b \<noteq> []" and once: "names_once f"
  shows "(if GetLastChangedTime v (s @ ''/'' @ b) f + age < sv_now v (s @ ''/'' @ b)
      then file_unlink (sv_unlink v (s @ ''/'' @ b)) (s @ ''/'' @ b) f else f) =
    keep (\<lambda>q i. \<not> (q = d @ ''/'' @ b \<and> expired v age f i (s @ ''/'' @ b))) f"
proof (cases "map_of (fl_names f) (d @ ''/'' @ b)")
  case None
  then have "(d @ ''/'' @ b, i) \<notin> set (fl_names f)" for i by (auto simp: map_of_eq_None_iff image_iff)
  moreover from this have "file_unlink ok (s @ ''/'' @ b) f = f" for ok
    using keep_all [of f "\<lambda>q i. q \<noteq> d @ ''/'' @ b"] dir_entry [OF d b] by (auto simp: file_unlink_def keep_def)
  ultimately show ?thesis by (auto intro!: keep_all [symmetric])
next
  case (Some j)
  have j: "i = j" if "(d @ ''/'' @ b, i) \<in> set (fl_names f)" for i
    using that Some once by (simp add: names_once_def)
  have "file_unlink True (s @ ''/'' @ b) f = keep (\<lambda>q i. q \<noteq> d @ ''/'' @ b) f"
    using dir_entry [OF d b] by (simp add: file_unlink_def keep_def)
  moreover have "file_unlink False (s @ ''/'' @ b) f = f" by (simp add: file_unlink_def)
  moreover have "GetLastChangedTime v (s @ ''/'' @ b) f = (if sv_stat v (s @ ''/'' @ b) then fl_mtime f j else 0)"
    using Some dir_entry [OF d b] by (simp add: GetLastChangedTime_def)
  ultimately show ?thesis
    using j by (cases "sv_unlink v (s @ ''/'' @ b)") (auto simp: expired_def intro!: keep_cong keep_all [symmetric])
qed

text \<open>All entries.\<close>

definition entry_ok :: "string \<Rightarrow> string \<Rightarrow> bool" where
  "entry_ok s b \<longleftrightarrow> b = ''.'' \<or> b = ''..'' \<or> CHR ''/'' \<notin> set b \<and> b \<noteq> [] \<and> length (s @ ''/'' @ b) < MAX_FILE_NAME"

lemma each_entry_sweep:
  assumes "dir_string d s" "names_once f" "\<forall>b \<in> set items. entry_ok s b"
  shows "each_entry (\<lambda>p f. if GetLastChangedTime v p f + age < sv_now v p then file_unlink (sv_unlink v p) p f else f) s items f =
    Inr (keep (\<lambda>q i. \<not> (\<exists>b \<in> set items - {''.'', ''..''}. q = d @ ''/'' @ b \<and> expired v age f i (s @ ''/'' @ b))) f)"
  using assms(2,3)
proof (induction items arbitrary: f)
  case Nil
  then show ?case by (simp add: keep_all)
next
  case (Cons b items)
  show ?case
  proof (cases "b = ''.'' \<or> b = ''..''")
    case True
    then have "set (b # items) - {''.'', ''..''} = set items - {''.'', ''..''}" by auto
    then show ?thesis using Cons True by (simp only: each_entry.simps if_True) simp
  next
    case False
    let ?keep = "\<lambda>q i. \<not> (q = d @ ''/'' @ b \<and> expired v age f i (s @ ''/'' @ b))"
    have b: "CHR ''/'' \<notin> set b" "b \<noteq> []" "\<not> MAX_FILE_NAME \<le> length (s @ ''/'' @ b)"
      using Cons.prems(2) False by (auto simp: entry_ok_def)
    have e: "expired v age (keep ?keep f) = expired v age f" by (intro ext) (simp add: expired_def)
    have items: "set (b # items) - {''.'', ''..''} = insert b (set items - {''.'', ''..''})" using False by auto
    have "keep (\<lambda>q i. \<not> (\<exists>b \<in> set items - {''.'', ''..''}. q = d @ ''/'' @ b \<and> expired v age f i (s @ ''/'' @ b))) (keep ?keep f) =
        keep (\<lambda>q i. \<not> (\<exists>b \<in> set (b # items) - {''.'', ''..''}. q = d @ ''/'' @ b \<and> expired v age f i (s @ ''/'' @ b))) f"
      unfolding keep_keep items by (rule keep_cong) blast
    moreover have "\<forall>b \<in> set items. entry_ok s b" using Cons.prems(2) by simp
    ultimately show ?thesis
      using Cons.IH [OF names_once_keep [OF Cons.prems(1)], of ?keep] False b(3)
        sweep_one [OF assms(1) b(1,2) Cons.prems(1), of v age]
      by (simp only: each_entry.simps if_False Let_def e)
  qed
qed

definition disk_ok :: "disk \<Rightarrow> bool" where
  "disk_ok f \<longleftrightarrow> names_once f \<and> (\<forall>q \<in> fst ` set (fl_names f) \<union> set (fl_dirs f). clean_path q \<and> length q + 1 < MAX_FILE_NAME) \<and>
     (\<forall>q \<in> fst ` set (fl_names f). basename q \<noteq> ''.'' \<and> basename q \<noteq> ''..'')"

lemma disk_ok_keep: "disk_ok f \<Longrightarrow> disk_ok (keep P f)"
  by (auto simp: disk_ok_def names_once_keep)

lemma DeleteFile_sweeps:
  assumes d: "dir_string d s" and f: "disk_ok f"
  shows "DeleteFile v s age f = Inr (keep (\<lambda>q i. \<not> swept v d s age f q i) f)"
proof (cases "sv_opendir v s \<and> d \<in> set (fl_dirs f)")
  case False
  then show ?thesis using d clean_dir [of d] by (auto simp: DeleteFile_def swept_def dir_string_def keep_all)
next
  case True
  have n: "norm_path s = d" using d clean_dir [of d] by (auto simp: dir_string_def)
  have ok: "entry_ok s b" if b: "b \<in> set (dir_entries d f)" for b
  proof (cases "b = ''.'' \<or> b = ''..''")
    case False
    then have p: "CHR ''/'' \<notin> set b" "d @ ''/'' @ b \<in> fst ` set (fl_names f) \<union> set (fl_dirs f)"
      using b by (auto simp: in_dir_entries)
    then have "clean_path (d @ ''/'' @ b)" "length (d @ ''/'' @ b) + 1 < MAX_FILE_NAME" using f unfolding disk_ok_def by blast+
    then show ?thesis using p(1) d by (auto simp: entry_ok_def dir_string_def clean_path_def split: if_splits)
  qed (auto simp: entry_ok_def)
  have once: "names_once f" using f by (simp add: disk_ok_def)
  have "keep (\<lambda>q i. \<not> (\<exists>b \<in> set (dir_entries d f) - {''.'', ''..''}. q = d @ ''/'' @ b \<and> expired v age f i (s @ ''/'' @ b))) f =
      keep (\<lambda>q i. \<not> swept v d s age f q i) f"
  proof (rule keep_cong, rule arg_cong [where f = Not])
    fix q i assume q: "(q, i) \<in> set (fl_names f)"
    then have "q \<in> fst ` set (fl_names f)" by force
    then have "basename q \<noteq> ''.''" "basename q \<noteq> ''..''" "q \<in> fst ` set (fl_names f) \<union> set (fl_dirs f)"
      using f by (auto simp: disk_ok_def)
    note q = this
    show "(\<exists>b \<in> set (dir_entries d f) - {''.'', ''..''}. q = d @ ''/'' @ b \<and> expired v age f i (s @ ''/'' @ b)) =
        swept v d s age f q i" (is "?L = ?R")
    proof
      assume ?L
      then obtain b where "CHR ''/'' \<notin> set b" "q = d @ ''/'' @ b" "expired v age f i (s @ ''/'' @ b)"
        unfolding in_dir_entries Bex_def Diff_iff by blast
      then show ?R using split_path [of b d] True by (simp add: swept_def)
    next
      assume ?R
      then have "q = d @ ''/'' @ basename q" "expired v age f i (s @ ''/'' @ basename q)"
        using path_split [of q d] by (simp_all add: swept_def)
      moreover from this have "basename q \<in> set (dir_entries d f) - {''.'', ''..''}"
        using q basename_free [of q] unfolding in_dir_entries Diff_iff by auto
      ultimately show ?L by blast
    qed
  qed
  then show ?thesis using each_entry_sweep [OF d once, of "dir_entries d f" v age] ok True n by (simp add: DeleteFile_def)
qed

section \<open>The life of the thread\<close>

definition swept_away :: "string \<Rightarrow> string \<Rightarrow> sweep_env \<Rightarrow> disk \<Rightarrow> string \<Rightarrow> nat \<Rightarrow> bool" where
  "swept_away name d v f q i \<longleftrightarrow> swept v (old_log name) (old_log name) two_days f q i \<or> swept v d (d @ ''/'') two_days f q i"

lemma swept_keep: "swept v d s age (keep P f) q i = swept v d s age f q i"
  by (simp add: swept_def expired_def)

lemma tic_sweep_ok:
  assumes "dir_part name = d @ ''/''" "clean_path d" "disk_ok f"
  shows "tic_sweep name v f = Inr (keep (\<lambda>q i. \<not> swept_away name d v f q i) f)"
proof -
  have "clean_path (old_log name)" using clean_entry(3) [OF assms(2), of "''old_log''"] assms(1) by (simp add: old_log_def)
  then have "dir_string (old_log name) (old_log name)" "dir_string d (dir_part name)" using assms by (simp_all add: dir_string_def)
  then show ?thesis
    using assms DeleteFile_sweeps [of "old_log name" "old_log name" f v two_days]
      DeleteFile_sweeps [of d "dir_part name" "keep P f" v two_days for P]
    by (simp add: tic_sweep_def disk_ok_keep keep_keep swept_keep swept_away_def)
qed

text \<open>The counter before the round with index \<open>k\<close>.\<close>

definition count_at :: "nat \<Rightarrow> int" where
  "count_at k = (if k = 0 then 1 else int ((k - 1) mod 719) + 2)"

lemma count_at_sweep: "720 \<le> count_at k \<longleftrightarrow> 0 < k \<and> 719 dvd k"
proof (cases k)
  case (Suc j)
  have "j mod 719 = 718 \<longleftrightarrow> 719 dvd Suc j" by (simp add: mod_Suc dvd_eq_mod_eq_0)
  moreover have "j mod 719 < 719" by simp
  ultimately show ?thesis using Suc unfolding count_at_def by auto
qed (simp add: count_at_def)

lemma count_at_Suc: "count_at (Suc k) = (if 720 \<le> count_at k then 2 else count_at k + 1)"
proof (cases k)
  case (Suc j)
  then show ?thesis using count_at_sweep [of k] by (auto simp: count_at_def mod_Suc dvd_eq_mod_eq_0)
qed (simp add: count_at_def)

definition sweep_rounds :: "nat \<Rightarrow> 'e list \<Rightarrow> 'e list" where
  "sweep_rounds k es = nths es {i. 0 < k + i \<and> 719 dvd (k + i)}"

lemma sweep_rounds_simps:
  "sweep_rounds k [] = []"
  "sweep_rounds k (e # es) = (if 720 \<le> count_at k then [e] else []) @ sweep_rounds (Suc k) es"
  by (simp_all add: sweep_rounds_def nths_Cons count_at_sweep)

lemma swept_away_keep: "swept_away name d v (keep P f) = swept_away name d v f"
  by (intro ext) (simp add: swept_away_def swept_keep)

lemma tic_rounds_ok:
  assumes "dir_part name = d @ ''/''" "clean_path d" "disk_ok (tc_disk t)" "iHealthCnt t = count_at k"
  shows "\<exists>t'. tic_rounds name es t = Inr t' \<and> iHealthCnt t' = count_at (k + length es) \<and>
    tc_disk t' = keep (\<lambda>q i. \<not> (\<exists>e \<in> set (sweep_rounds k es). swept_away name d (fst e) (tc_disk t) q i)) (tc_disk t) \<and>
    tc_process t' = (if \<exists>e \<in> set es. snd e = Some ESRCH then Process_SetStarted False (tc_process t) else tc_process t)"
  using assms(3,4)
proof (induction es arbitrary: t k)
  case Nil
  then show ?case by (simp add: sweep_rounds_simps keep_all)
next
  case (Cons e es)
  let ?P = "\<lambda>q i. \<not> (720 \<le> count_at k \<and> swept_away name d (fst e) (tc_disk t) q i)"
  let ?p = "if snd e = Some ESRCH then Process_SetStarted False (tc_process t) else tc_process t"
  let ?t = "\<lparr>iHealthCnt = count_at (Suc k), tc_process = ?p, tc_disk = keep ?P (tc_disk t)\<rparr>"
  have "tic_round name e t = Inr ?t"
    using tic_sweep_ok [OF assms(1,2) Cons.prems(1), of "fst e"] Cons.prems(2) keep_all [of "tc_disk t" "\<lambda>q i. True"]
    by (cases t) (auto simp: tic_round_def count_at_Suc)
  moreover obtain t' where "tic_rounds name es ?t = Inr t'" "iHealthCnt t' = count_at (Suc k + length es)"
    "tc_disk t' = keep (\<lambda>q i. \<not> (\<exists>e \<in> set (sweep_rounds (Suc k) es). swept_away name d (fst e) (tc_disk t) q i)) (keep ?P (tc_disk t))"
    "tc_process t' = (if \<exists>e \<in> set es. snd e = Some ESRCH then Process_SetStarted False ?p else ?p)"
    using Cons.IH [of ?t "Suc k"] Cons.prems(1) by (auto simp: disk_ok_keep swept_away_keep)
  moreover have "Process_SetStarted b (Process_SetStarted b q) = Process_SetStarted b q" for b q by (simp add: Process_SetStarted_def)
  ultimately show ?case
    by (auto simp: sweep_rounds_simps keep_keep intro!: keep_cong)
qed

text \<open>C39: The thread that removes old log files. However many rounds it runs, on a file system whose paths fit its
  array, it never goes wrong; exactly in its 720th round and in every 719th after that it removes the files of
  the log directory and of \<open>old_log\<close> below it which have not changed for two days (or whose \<open>stat\<close> fails) and
  which \<open>unlink\<close> lets it remove; it touches nothing else. The process is marked as stopped once a
  \<open>kill(ppid, 0)\<close> has found no parent.\<close>

theorem old_logs_are_swept:
  assumes "dir_part name = d @ ''/''" "clean_path d" "disk_ok f"
  shows "\<exists>t. ThreadTic_Run name es p f = Inr t \<and>
    tc_disk t = keep (\<lambda>q i. \<not> (\<exists>e \<in> set (nths es {i. 0 < i \<and> 719 dvd i}). swept_away name d (fst e) f q i)) f \<and>
    Process_GetStarted (tc_process t) = (Process_GetStarted p \<and> (\<forall>e \<in> set es. snd e \<noteq> Some ESRCH))"
  using tic_rounds_ok [OF assms(1,2), of "\<lparr>iHealthCnt = 1, tc_process = p, tc_disk = f\<rparr>" 0 es] assms(3)
  by (auto simp: ThreadTic_Run_def count_at_def sweep_rounds_def Process_GetStarted_def Process_SetStarted_def)

definition demo_disk :: disk where
  "demo_disk = files.extend \<lparr>fl_names = [(''logs/x'', 0), (''logs/old_log/x.1'', 1), (''etc/x'', 2)], fl_dirs = [''logs'', ''logs/old_log'', ''etc''],
     fl_data = (\<lambda>_. []), fl_next = 3, fl_fds = Map.empty\<rparr> \<lparr>fl_mtime = (\<lambda>i. if i = 0 then 200000 else 100000), fl_dir_mtime = (\<lambda>_. 0)\<rparr>"

definition demo_sweep :: sweep_env where
  "demo_sweep = \<lparr>sv_opendir = (\<lambda>_. True), sv_stat = (\<lambda>_. True), sv_unlink = (\<lambda>_. True), sv_now = (\<lambda>_. 300000)\<rparr>"

lemma nths_only_last:
  assumes "0 < n"
  shows "nths (replicate n x @ [y]) {i. 0 < i \<and> n dvd i} = [y]"
proof -
  have "set (nths (replicate n x) {i. 0 < i \<and> n dvd i}) = {}" by (auto simp: set_nths dest: nat_dvd_not_less)
  then show ?thesis using assms by (simp add: nths_append)
qed

text \<open>Only the old backup goes; the parent is gone in the last round.\<close>

theorem old_logs_are_swept_witness:
  "\<exists>t. ThreadTic_Run ''logs/x'' (replicate 719 (demo_sweep, None) @ [(demo_sweep, Some ESRCH)]) Process_new demo_disk = Inr t \<and>
    map fst (fl_names (tc_disk t)) = [''logs/x'', ''etc/x''] \<and> \<not> Process_GetStarted (tc_process t)"
proof -
  define es where "es = replicate 719 (demo_sweep, None) @ [(demo_sweep, Some ESRCH)]"
  have sweeps: "nths es {i. 0 < i \<and> 719 dvd i} = [(demo_sweep, Some ESRCH)]" unfolding es_def by (rule nths_only_last) simp
  have last: "(demo_sweep, Some ESRCH) \<in> set es" unfolding es_def set_append by simp
  have names: "map fst (fl_names (keep (\<lambda>q i. \<not> swept_away ''logs/x'' ''logs'' demo_sweep demo_disk q i) demo_disk)) = [''logs/x'', ''etc/x'']"
    by (simp add: dir_part_def basename_def keep_def swept_away_def swept_def old_log_def expired_def
        demo_disk_def demo_sweep_def files.defs two_days_def)
  have "disk_ok demo_disk"
    by (simp add: disk_ok_def names_once_def demo_disk_def files.defs clean_path_def MAX_FILE_NAME_def basename_def)
  then obtain t where t: "ThreadTic_Run ''logs/x'' es Process_new demo_disk = Inr t"
      "tc_disk t = keep (\<lambda>q i. \<not> (\<exists>e \<in> set (nths es {i. 0 < i \<and> 719 dvd i}). swept_away ''logs/x'' ''logs'' (fst e) demo_disk q i)) demo_disk"
      "Process_GetStarted (tc_process t) = (Process_GetStarted Process_new \<and> (\<forall>e \<in> set es. snd e \<noteq> Some ESRCH))"
    using old_logs_are_swept [of "''logs/x''" "''logs''" demo_disk es Process_new]
    by (auto simp: dir_part_def basename_def clean_path_def)
  have "tc_disk t = keep (\<lambda>q i. \<not> swept_away ''logs/x'' ''logs'' demo_sweep demo_disk q i) demo_disk" using t(2) sweeps by simp
  moreover have "\<not> Process_GetStarted (tc_process t)" using t(3) last by force
  ultimately show ?thesis using t(1) names unfolding es_def by (intro exI [of _ t]) simp
qed

section \<open>DeleteDir\<close>

text \<open>\<open>DeleteDir\<close> empties the directory of its files and removes it unless it holds another directory.\<close>

lemma DeleteDir_removes:
  assumes d: "dir_string d s" and f: "disk_ok f" and env: "sv_opendir v s" "d \<in> set (fl_dirs f)" "\<And>p. sv_unlink v p"
  shows "\<exists>f'. DeleteDir v True s f = Inr f' \<and> fl_names f' = filter (\<lambda>(q, _). dir_part q \<noteq> d @ ''/'') (fl_names f) \<and>
    (d \<in> set (fl_dirs f') \<longleftrightarrow> (\<exists>q \<in> set (fl_dirs f). dir_part q = d @ ''/'' \<and> basename q \<noteq> ''.'' \<and> basename q \<noteq> ''..''))"
proof -
  let ?v = "v\<lparr>sv_stat := \<lambda>_. False, sv_now := \<lambda>_. 1\<rparr>"
  let ?f = "keep (\<lambda>q i. dir_part q \<noteq> d @ ''/'') f"
  have n: "norm_path s = d" using d clean_dir [of d] by (auto simp: dir_string_def)
  have "DeleteFile ?v s 0 f = Inr (keep (\<lambda>q i. \<not> swept ?v d s 0 f q i) f)" by (rule DeleteFile_sweeps [OF d f])
  also have "keep (\<lambda>q i. \<not> swept ?v d s 0 f q i) f = ?f" using env by (intro keep_cong) (simp add: swept_def expired_def)
  finally have "DeleteFile ?v s 0 f = Inr ?f" .
  then have r: "DeleteDir v True s f = Inr (file_rmdir True s ?f)"
    using env n by (simp add: DeleteDir_def DeleteFile_def GetLastChangedTime_def)
  have "set (dir_entries d ?f) \<subseteq> {''.'', ''..''} \<longleftrightarrow>
      \<not> (\<exists>q \<in> set (fl_dirs f). dir_part q = d @ ''/'' \<and> basename q \<noteq> ''.'' \<and> basename q \<noteq> ''..'')" (is "?L = (\<not> ?R)")
  proof
    assume l: ?L
    show "\<not> ?R"
    proof
      assume ?R
      then obtain q where q: "q \<in> set (fl_dirs f)" "dir_part q = d @ ''/''" "basename q \<noteq> ''.''" "basename q \<noteq> ''..''" by blast
      then have "basename q \<in> set (dir_entries d ?f)" using path_split [OF q(2)] basename_free [of q] by (simp add: in_dir_entries)
      then show False using l q(3,4) by blast
    qed
  next
    assume nr: "\<not> ?R"
    show ?L
    proof
      fix b assume b: "b \<in> set (dir_entries d ?f)"
      show "b \<in> {''.'', ''..''}"
      proof (rule ccontr)
        assume nb: "b \<notin> {''.'', ''..''}"
        then have "CHR ''/'' \<notin> set b" "d @ ''/'' @ b \<in> fst ` set (fl_names ?f) \<union> set (fl_dirs f)" using b by (auto simp: in_dir_entries)
        moreover from this(1) have "dir_part (d @ ''/'' @ b) = d @ ''/''" "basename (d @ ''/'' @ b) = b" by (rule split_path)+
        ultimately show False using nr nb by force
      qed
    qed
  qed
  then show ?thesis using r n env(2) by (auto simp: file_rmdir_def)
qed

end
