(* ===== verification/ProcessMgr.thy ===== *)
theory ProcessMgr
  imports ProcessSpawn
begin

text \<open>
  \<open>ProcessManager\<close> (src/ProcessManager.cpp): a list of \<open>Process\<close> pointers, each forked once and forked again when
  \<open>waitpid\<close> reports its child. It is not part of the build. The objects and the children are the \<open>family\<close> of
  \<open>ProcessSpawn\<close>; what \<open>fork\<close> answers for an object is an argument. Two loops erase a node of the list and read
  the pointer through the erased position.
\<close>

section \<open>ProcessManager\<close>

record ProcessManager =
  m_LstProcess :: "nat list"
  pm_fam :: family

definition pm_GetInstance :: "family \<Rightarrow> ProcessManager option \<Rightarrow> ProcessManager" where
  "pm_GetInstance f self = (case self of None \<Rightarrow> \<lparr>m_LstProcess = [], pm_fam = f\<rparr> | Some pm \<Rightarrow> pm)"

definition pm_delete :: "ProcessManager \<Rightarrow> family res" where
  \<comment> \<open>the destructor; with a first node its loop reads an erased position\<close>
  "pm_delete pm = (case m_LstProcess pm of [] \<Rightarrow> Inr (pm_fam pm) | _ # _ \<Rightarrow> Inl BadIterator)"

definition pm_ReleaseInstance :: "family \<Rightarrow> ProcessManager option \<Rightarrow> (ProcessManager option \<times> family) res" where
  "pm_ReleaseInstance f self =
     (case self of None \<Rightarrow> Inr (None, f) | Some pm \<Rightarrow> bindR (pm_delete pm) (\<lambda>f'. Inr (None, f')))"

definition Spawn :: "nat \<Rightarrow> int option \<Rightarrow> ProcessManager \<Rightarrow> bool \<times> ProcessManager" where
  "Spawn a fk pm =
     (case SpawnProcess a fk (pm_fam pm) of (ok, f) \<Rightarrow>
        if ok then (True, pm\<lparr>m_LstProcess := m_LstProcess pm @ [a], pm_fam := f\<rparr>) else (False, pm\<lparr>pm_fam := f\<rparr>))"

text \<open>What the \<open>SpawnProcess\<close> of an object returns is not looked at.\<close>

fun respawn_loop :: "int \<Rightarrow> (nat \<Rightarrow> int option) \<Rightarrow> nat list \<Rightarrow> family \<Rightarrow> family res" where
  "respawn_loop pid forks [] f = Inr f"
| "respawn_loop pid forks (a # as) f =
     (case fam_heap f a of None \<Rightarrow> Inl UseAfterFree
      | Some p \<Rightarrow> respawn_loop pid forks as (if GetPid p = pid then snd (SpawnProcess a (forks a) f) else f))"

definition SpawnProcess_pid :: "int \<Rightarrow> (nat \<Rightarrow> int option) \<Rightarrow> ProcessManager \<Rightarrow> (bool \<times> ProcessManager) res" where
  "SpawnProcess_pid pid forks pm =
     bindR (respawn_loop pid forks (m_LstProcess pm) (pm_fam pm)) (\<lambda>f. Inr (True, pm\<lparr>pm_fam := f\<rparr>))"

definition WatchProcess :: "(int \<times> wait_status) option \<Rightarrow> (nat \<Rightarrow> int option) \<Rightarrow> ProcessManager \<Rightarrow> (bool \<times> ProcessManager) res" where
  "WatchProcess wt forks pm =
     (case wt of None \<Rightarrow> Inr (True, pm)
      | Some (pid, _) \<Rightarrow> bindR (SpawnProcess_pid pid forks pm) (\<lambda>(ok, pm'). Inr (if \<not> ok then (False, pm') else (True, pm'))))"

fun delete_loop :: "int \<Rightarrow> nat list \<Rightarrow> family \<Rightarrow> bool res" where
  "delete_loop pid [] f = Inr True"
| "delete_loop pid (a # as) f =
     (case fam_heap f a of None \<Rightarrow> Inl UseAfterFree
      | Some p \<Rightarrow> if GetPid p = pid then Inl BadIterator else delete_loop pid as f)"

definition DeleteProcess :: "int \<Rightarrow> ProcessManager \<Rightarrow> bool res" where
  "DeleteProcess pid pm = delete_loop pid (m_LstProcess pm) (pm_fam pm)"

section \<open>Who is watched\<close>

definition listed_objects :: "ProcessManager \<Rightarrow> bool" where
  "listed_objects pm \<longleftrightarrow> (\<forall>a \<in> set (m_LstProcess pm). fam_heap (pm_fam pm) a \<noteq> None)"

definition child_known :: "family \<Rightarrow> nat \<Rightarrow> bool" where
  \<comment> \<open>the object's child lives, or is dead and \<open>waitpid\<close> will report it\<close>
  "child_known f a \<longleftrightarrow> (\<exists>p. fam_heap f a = Some p \<and> (GetPid p \<in> dom (fam_alive f) \<or> GetPid p \<in> fam_dead f))"

text \<open>\<open>DeleteProcess\<close> and the destructor never kill or delete anything: they do nothing or go wrong.\<close>

lemma DeleteProcess_iff:
  assumes "listed_objects pm"
  shows "DeleteProcess pid pm =
    (if \<exists>a \<in> set (m_LstProcess pm). \<exists>p. fam_heap (pm_fam pm) a = Some p \<and> GetPid p = pid then Inl BadIterator else Inr True)"
proof -
  have "delete_loop pid as f =
      (if \<exists>a \<in> set as. \<exists>p. fam_heap f a = Some p \<and> GetPid p = pid then Inl BadIterator else Inr True)"
    if "\<forall>a \<in> set as. fam_heap f a \<noteq> None" for as f
    using that by (induction as) (auto 0 3 split: if_splits)
  then show ?thesis using assms by (simp add: DeleteProcess_def listed_objects_def)
qed

lemma SpawnProcess_heap:
  assumes "fam_heap f a = Some p"
  shows "fam_heap (snd (SpawnProcess a (Some pid) f)) = (fam_heap f)(a \<mapsto> parent_started pid p)"
    "fam_alive (snd (SpawnProcess a (Some pid) f)) = (fam_alive f)(pid \<mapsto> (fam_heap f)(a \<mapsto> SetPid pid p))"
    "fam_dead (snd (SpawnProcess a (Some pid) f)) = fam_dead f"
    "snd (SpawnProcess a None f) = f"
  using assms by (simp_all add: SpawnProcess_def on_object_def forked_def here_def Let_def)

lemma GetPid_started [simp]: "GetPid (parent_started pid p) = pid"
  by (simp add: GetPid_def parent_started_def SetPid_def)

text \<open>After the loop: who is known stays known, and so is everyone who was forked again.\<close>

lemma respawn_loop_known:
  assumes "\<forall>a \<in> set as. fam_heap f a \<noteq> None"
  shows "\<exists>f'. respawn_loop pid forks as f = Inr f' \<and> (\<forall>a. fam_heap f a \<noteq> None \<longrightarrow> fam_heap f' a \<noteq> None) \<and>
    fam_dead f' = fam_dead f \<and> dom (fam_alive f) \<subseteq> dom (fam_alive f') \<and> (\<forall>a. child_known f a \<longrightarrow> child_known f' a) \<and>
    (\<forall>a \<in> set as. \<forall>p. fam_heap f a = Some p \<and> GetPid p = pid \<and> forks a \<noteq> None \<longrightarrow> child_known f' a)"
  using assms
proof (induction as arbitrary: f)
  case (Cons a as)
  obtain p where p: "fam_heap f a = Some p" using Cons.prems by auto
  let ?g = "if GetPid p = pid then snd (SpawnProcess a (forks a) f) else f"
  have g: "\<forall>b. fam_heap f b \<noteq> None \<longrightarrow> fam_heap ?g b \<noteq> None" "fam_dead ?g = fam_dead f" "dom (fam_alive f) \<subseteq> dom (fam_alive ?g)"
    "\<forall>b. child_known f b \<longrightarrow> child_known ?g b" "GetPid p = pid \<Longrightarrow> forks a \<noteq> None \<Longrightarrow> child_known ?g a"
    "\<forall>b. b \<noteq> a \<longrightarrow> fam_heap ?g b = fam_heap f b"
    using p by (cases "forks a"; auto simp: SpawnProcess_heap child_known_def)+
  obtain f' where f': "respawn_loop pid forks as ?g = Inr f'" "\<forall>b. fam_heap ?g b \<noteq> None \<longrightarrow> fam_heap f' b \<noteq> None"
      "fam_dead f' = fam_dead ?g" "dom (fam_alive ?g) \<subseteq> dom (fam_alive f')" "\<forall>b. child_known ?g b \<longrightarrow> child_known f' b"
      "\<forall>b \<in> set as. \<forall>q. fam_heap ?g b = Some q \<and> GetPid q = pid \<and> forks b \<noteq> None \<longrightarrow> child_known f' b"
    using Cons.IH [of ?g] Cons.prems g(1) by auto
  have "child_known f' b" if "b \<in> set (a # as)" "fam_heap f b = Some q" "GetPid q = pid" "forks b \<noteq> None" for b q
    using that g(5,6) f'(5,6) p by (cases "b = a") auto
  then show ?case using p f' g by (intro exI [of _ f']) auto
qed simp

text \<open>The life of the manager of processes; every \<open>fork\<close> of a restart succeeds.\<close>

inductive pm_run :: "ProcessManager \<Rightarrow> bool" where
  pm_start: "pm_run (pm_GetInstance f None)"
| pm_spawns: "pm_run pm \<Longrightarrow> fam_heap (pm_fam pm) a \<noteq> None \<Longrightarrow> pm_run (snd (Spawn a fk pm))"
| pm_dies: "pm_run pm \<Longrightarrow> fam_alive (pm_fam pm) pid = Some h \<Longrightarrow>
     pm_run (pm\<lparr>pm_fam := (pm_fam pm)\<lparr>fam_alive := (fam_alive (pm_fam pm))(pid := None), fam_dead := insert pid (fam_dead (pm_fam pm)),
       fam_stops := fam_stops (pm_fam pm) - {pid}\<rparr>\<rparr>)"
| pm_stops: "pm_run pm \<Longrightarrow> pid \<in> dom (fam_alive (pm_fam pm)) \<Longrightarrow>
     pm_run (pm\<lparr>pm_fam := (pm_fam pm)\<lparr>fam_stops := insert pid (fam_stops (pm_fam pm))\<rparr>\<rparr>)"
| pm_watches: "pm_run pm \<Longrightarrow> waited wt (pm_fam pm) = Some f \<Longrightarrow> \<forall>a. forks a \<noteq> None \<Longrightarrow>
     WatchProcess wt forks (pm\<lparr>pm_fam := f\<rparr>) = Inr (ok, pm') \<Longrightarrow> pm_run pm'"

definition all_known :: "ProcessManager \<Rightarrow> bool" where
  "all_known pm \<longleftrightarrow> (\<forall>a \<in> set (m_LstProcess pm). child_known (pm_fam pm) a)"

lemma all_known_listed: "all_known pm \<Longrightarrow> a \<in> set (m_LstProcess pm) \<Longrightarrow> fam_heap (pm_fam pm) a \<noteq> None"
  by (auto simp: all_known_def child_known_def)

lemma watch_known:
  assumes known: "all_known pm" and w: "waited wt (pm_fam pm) = Some f" and forks: "\<forall>a. forks a \<noteq> None"
  shows "\<exists>pm'. WatchProcess wt forks (pm\<lparr>pm_fam := f\<rparr>) = Inr (True, pm') \<and> m_LstProcess pm' = m_LstProcess pm \<and> all_known pm'"
proof (cases wt)
  case None
  then show ?thesis using w known by (auto simp: WatchProcess_def waited_def)
next
  case (Some x)
  obtain pid st where x: "x = (pid, st)" by (cases x)
  have f: "fam_heap f = fam_heap (pm_fam pm)" "fam_alive f = fam_alive (pm_fam pm)" "fam_dead (pm_fam pm) - {pid} \<subseteq> fam_dead f"
    using w Some x by (cases st; auto simp: waited_def split: if_splits)+
  have "\<forall>a \<in> set (m_LstProcess pm). fam_heap f a \<noteq> None" using all_known_listed [OF known] f(1) by simp
  then obtain f' where f': "respawn_loop pid forks (m_LstProcess pm) f = Inr f'" "\<forall>a. child_known f a \<longrightarrow> child_known f' a"
      "\<forall>a \<in> set (m_LstProcess pm). \<forall>p. fam_heap f a = Some p \<and> GetPid p = pid \<and> forks a \<noteq> None \<longrightarrow> child_known f' a"
    using respawn_loop_known [of "m_LstProcess pm" f pid forks] by blast
  have "child_known f' a" if a: "a \<in> set (m_LstProcess pm)" for a
  proof -
    obtain p where p: "fam_heap f a = Some p" "GetPid p \<in> dom (fam_alive f) \<or> GetPid p \<in> fam_dead (pm_fam pm)"
      using bspec [OF known [unfolded all_known_def] a] f(1,2) unfolding child_known_def by auto
    show ?thesis
    proof (cases "GetPid p = pid")
      case True
      then show ?thesis using f'(3) a p(1) forks by blast
    next
      case False
      then have "child_known f a" using p f(3) by (auto simp: child_known_def)
      then show ?thesis using f'(2) by blast
    qed
  qed
  then show ?thesis using f'(1) Some x by (simp add: WatchProcess_def SpawnProcess_pid_def all_known_def)
qed

text \<open>As long as every restart's \<open>fork\<close> succeeds, the child of every listed object lives or will be reported.\<close>

theorem process_manager_supervises: "pm_run pm \<Longrightarrow> all_known pm"
proof (induction rule: pm_run.induct)
  case (pm_start f)
  then show ?case by (simp add: pm_GetInstance_def all_known_def)
next
  case (pm_spawns pm a fk)
  obtain p where p: "fam_heap (pm_fam pm) a = Some p" using pm_spawns.hyps by auto
  show ?case
  proof (cases fk)
    case None
    then show ?thesis using pm_spawns by (simp add: Spawn_def SpawnProcess_def)
  next
    case (Some pid)
    let ?f = "snd (SpawnProcess a (Some pid) (pm_fam pm))"
    have "child_known ?f b" if "b = a \<or> child_known (pm_fam pm) b" for b
      using that SpawnProcess_heap [OF p] by (auto simp: child_known_def)
    moreover have "fst (SpawnProcess a (Some pid) (pm_fam pm))" by (simp add: SpawnProcess_def Let_def)
    ultimately show ?thesis using pm_spawns.IH Some by (auto simp: Spawn_def all_known_def split: prod.splits)
  qed
next
  case (pm_dies pm pid h)
  let ?f = "pm_fam pm"
  have "child_known (?f\<lparr>fam_alive := (fam_alive ?f)(pid := None), fam_dead := insert pid (fam_dead ?f), fam_stops := S\<rparr>) a"
    if "child_known ?f a" for a S
    using that by (auto simp: child_known_def)
  then show ?case using pm_dies.IH by (simp add: all_known_def)
next
  case (pm_stops pm pid)
  then show ?case by (simp add: all_known_def child_known_def)
next
  case (pm_watches pm wt f forks ok pm')
  then show ?case using watch_known [OF pm_watches.IH pm_watches.hyps(2,3)] by auto
qed

text \<open>A restart whose \<open>fork\<close> fails is reported as a success, and the object keeps the id of a child that is gone.\<close>

lemma failed_restart_forgotten:
  assumes "fam_heap f a = Some p" "fam_alive f (GetPid p) = None"
  shows "WatchProcess (Some (GetPid p, WExited)) (\<lambda>_. None) \<lparr>m_LstProcess = [a], pm_fam = f\<lparr>fam_dead := fam_dead f - {GetPid p}\<rparr>\<rparr> =
      Inr (True, \<lparr>m_LstProcess = [a], pm_fam = f\<lparr>fam_dead := fam_dead f - {GetPid p}\<rparr>\<rparr>)"
    "\<not> child_known (f\<lparr>fam_dead := fam_dead f - {GetPid p}\<rparr>) a"
  using assms by (auto simp: WatchProcess_def SpawnProcess_pid_def SpawnProcess_def child_known_def)

end
