(* ===== verification/MainProgram.thy ===== *)
theory MainProgram
  imports Startup
begin

text \<open>
  \<open>main\<close> (MainProcess.cpp): the two configuration files, the two objects, \<open>DoFork\<close>. A file is its text, or nothing
  when it cannot be opened. The values of uninitialised memory and what the kernel answers are arguments. The
  signal handler only logs and is left out.
\<close>

section \<open>main\<close>

datatype main_result =
    Exits string int                 \<comment> \<open>what was printed, the exit code\<close>
  | Runs ServerInfoDN startup        \<comment> \<open>in \<open>ChatManager::Run\<close>, with the settings of the chat servers\<close>
  | Ends startup                     \<comment> \<open>\<open>DoFork\<close> came back: both objects are deleted, the result is 0\<close>

definition g_Version :: string where "g_Version = ''1.0.1''"
definition CHATSERVER_PROPERTIES :: string where "CHATSERVER_PROPERTIES = ''./ChatServer.properties''"
definition MANAGER_PROPERTIES :: string where "MANAGER_PROPERTIES = ''./ChatManager.properties''"

record main_env =
  me_junk :: string
  me_dn_junk :: ServerInfoDN
  me_mgr_junk :: ServerInfoDNMgr
  me_listen :: "ENUM_SERVERSOCKET_TYPE \<Rightarrow> listen_env"
  me_listen_dn :: listen_env
  me_forks :: "nat \<Rightarrow> int option"
  me_user_junk :: "nat \<Rightarrow> byte"
  me_now :: int

text \<open>The \<open>ChatServer\<close> is the object 0, the \<open>ChatManager\<close> the object 1.\<close>

definition before_fork :: "ChatManager \<Rightarrow> startup" where
  "before_fork m =
     \<lparr>su_mgr = m, su_socks = Map.empty, su_servers = Map.empty, su_dn = None,
      su_fam = \<lparr>fam_heap = [0 \<mapsto> Process_new, 1 \<mapsto> Process_new], fam_alive = Map.empty, fam_stops = {}, fam_dead = {}\<rparr>\<rparr>"

definition no_net :: net where
  "no_net = \<lparr>n_socks = Map.empty, n_kern = Map.empty, n_epoll = Map.empty\<rparr>"

definition main_program :: "main_env \<Rightarrow> string list \<Rightarrow> string option \<Rightarrow> string option \<Rightarrow> main_result res" where
  \<comment> \<open>\<open>Assert\<close> writes to a file and goes on, so what \<open>Load\<close> returns makes no difference\<close>
  "main_program e args mgr_file chat_file =
     (if 1 < length args then Inr (Exits (if args ! 1 = ''-v'' then g_Version @ [NL] else []) 1)
      else
        bindR (Load (me_junk e) Properties_new MANAGER_PROPERTIES mgr_file) (\<lambda>(_, mp).
        bindR (Load (me_junk e) Properties_new CHATSERVER_PROPERTIES chat_file) (\<lambda>(_, cp).
        bindR (ServerInfoDN_of (me_dn_junk e) cp) (\<lambda>info.
        bindR (ChatManager_of (me_mgr_junk e) mp no_net) (\<lambda>m.
        bindR (DoFork 1 0 (me_listen e) (me_listen_dn e) (me_forks e) (me_user_junk e) (me_now e) (before_fork m)) (\<lambda>(runs, st).
          Inr (if runs then Runs info st else Ends st)))))))"

section \<open>Configuration files as people write them\<close>

datatype conf_line =
    Comment string
  | Setting string string string string    \<comment> \<open>key, blanks, blanks, value\<close>

fun conf_text :: "conf_line \<Rightarrow> string" where
  "conf_text (Comment s) = s"
| "conf_text (Setting k l r v) = k @ l @ CHR ''='' # r @ v"

definition blanks :: "string \<Rightarrow> bool" where
  "blanks s \<longleftrightarrow> set s \<subseteq> {CHR '' '', CHR 0x09}"

fun conf_ok :: "conf_line \<Rightarrow> bool" where
  "conf_ok (Comment s) \<longleftrightarrow> (s = [] \<or> hd s = CHR ''#'') \<and> NL \<notin> set s \<and> NUL \<notin> set s \<and> length s < 1024"
| "conf_ok (Setting k l r v) \<longleftrightarrow> clean_key k \<and> clean v \<and> blanks l \<and> blanks r \<and> length (k @ l) < 512 \<and> length (r @ v) < 512"

definition conf_file :: "conf_line list \<Rightarrow> string" where
  "conf_file ls = concat (map (\<lambda>l. conf_text l @ [NL]) ls)"

fun conf_settings :: "conf_line list \<Rightarrow> (string \<times> string) list" where
  "conf_settings [] = []"
| "conf_settings (Comment s # ls) = conf_settings ls"
| "conf_settings (Setting k l r v # ls) = (k, v) # conf_settings ls"

lemma blank_space: "blanks s \<Longrightarrow> \<forall>c \<in> set s. isspace c \<and> c \<noteq> NUL \<and> c \<noteq> NL \<and> c \<noteq> CHR ''=''"
  by (auto simp: blanks_def isspace_def NUL_def NL_def)

lemma trim_padded:
  assumes "clean s" "blanks l" "blanks r"
  shows "RTrim (LTrim (l @ s @ r)) = s"
proof -
  have "LTrim (l @ s @ r) = s @ r"
    using assms(1) blank_space [OF assms(2)] by (cases s) (auto simp: LTrim_def clean_def dropWhile_append2)
  moreover have "RTrim (s @ r) = RTrim s"
  proof -
    have "dropWhile isspace (rev r @ rev s) = dropWhile isspace (rev s)"
      using blank_space [OF assms(3)] by (intro dropWhile_append2) simp
    then show ?thesis by (simp add: RTrim_rev)
  qed
  moreover have "RTrim s = s" using assms(1) by (cases s rule: rev_cases) (simp_all add: RTrim_simps clean_def)
  ultimately show ?thesis by simp
qed

lemma AddMap_setting:
  assumes "length junk = 512" "conf_ok (Setting k l r v)"
  shows "AddMap junk p (conf_text (Setting k l r v)) = Inr (p\<lparr>m_mapProperties := std_assign k v (m_mapProperties p)\<rparr>)"
proof -
  note b = blank_space [of l] blank_space [of r]
  have c: "clean_key k" "clean v" "blanks l" "blanks r" "length (k @ l) < 512" "length (r @ v) < 512" using assms(2) by simp_all
  have "read_pair junk (k @ l) (r @ v) = Inr (Some (k @ l, r @ v))"
    by (rule read_pair_clean) (use assms(1) c b in \<open>auto simp: clean_key_def clean_def\<close>)
  moreover have "split_eq (conf_text (Setting k l r v)) = Some (k @ l, r @ v)"
    using split_eq_key [of "k @ l" "r @ v"] c b by (auto simp: clean_key_def)
  ultimately show ?thesis
    using trim_padded [of k "[]" l] trim_padded [of v r "[]"] c by (simp add: AddMap_def clean_key_def blanks_def)
qed

lemma conf_text_line:
  assumes "conf_ok x"
  shows "NL \<notin> set (conf_text x) \<and> NUL \<notin> set (conf_text x) \<and> length (conf_text x) < 1024"
proof (cases x)
  case (Setting k l r v)
  then have "clean k" "clean v" "blanks l" "blanks r" "length (k @ l) < 512" "length (r @ v) < 512"
    using assms by (simp_all add: clean_key_def)
  then have "NL \<notin> set k" "NL \<notin> set v" "NUL \<notin> set k" "NUL \<notin> set v" "NL \<notin> set l" "NL \<notin> set r" "NUL \<notin> set l" "NUL \<notin> set r"
    "length (k @ l) + length (r @ v) < 1023"
    using blank_space [of l] blank_space [of r] by (auto simp: clean_def)
  then show ?thesis using Setting by (simp add: NL_def NUL_def)
qed (use assms in simp)

lemma load_conf:
  assumes "length junk = 512" "list_all conf_ok ls"
  shows "load_lines junk p (getlines (conf_file ls)) =
    Inr (p\<lparr>m_mapProperties := fold (\<lambda>(k, v). std_assign k v) (conf_settings ls) (m_mapProperties p)\<rparr>)"
  using assms(2)
proof (induction ls arbitrary: p)
  case Nil
  then show ?case by (simp add: conf_file_def getlines.simps)
next
  case (Cons x ls)
  have ok: "conf_ok x" "list_all conf_ok ls" using Cons.prems by simp_all
  have t: "NL \<notin> set (conf_text x)" "NUL \<notin> set (conf_text x)" "length (conf_text x) < 1024"
    using conf_text_line [OF ok(1)] by blast+
  have g: "getlines (conf_file (x # ls)) = conf_text x # getlines (conf_file ls)"
    using getlines_line [OF t] by (simp add: conf_file_def)
  show ?case
  proof (cases x)
    case (Comment s)
    then show ?thesis using g ok Cons.IH by auto
  next
    case (Setting k l r v)
    then obtain c k' where k: "k = c # k'" "c \<noteq> NL" "c \<noteq> CHR ''#''" "c \<noteq> NUL"
      using ok(1) by (cases k) (auto simp: clean_key_def clean_def)
    then show ?thesis using g ok Cons.IH AddMap_setting [OF assms(1), of k l r v p] Setting by simp
  qed
qed

definition conf_value :: "conf_line list \<Rightarrow> string \<Rightarrow> string" where
  \<comment> \<open>the last line for a key counts\<close>
  "conf_value ls k = (case map_of (rev (conf_settings ls)) k of None \<Rightarrow> [] | Some v \<Rightarrow> v)"

lemma Load_conf:
  assumes "length junk = 512" "list_all conf_ok ls"
  obtains p where "Load junk Properties_new name (Some (conf_file ls)) = Inr (0, p)" "\<forall>k. GetProperty p k = conf_value ls k"
proof
  let ?m = "fold (\<lambda>(k, v). std_assign k v) (conf_settings ls) []"
  show "Load junk Properties_new name (Some (conf_file ls)) = Inr (0, \<lparr>m_strFileName = name, m_mapProperties = ?m\<rparr>)"
    using load_conf [OF assms] by (simp add: Load_def Properties_new_def)
  show "\<forall>k. GetProperty \<lparr>m_strFileName = name, m_mapProperties = ?m\<rparr> k = conf_value ls k"
    using std.find_assigns [OF std.inv_empty, of "conf_settings ls"]
    by (simp add: GetProperty_def conf_value_def map_add_def std.find_empty split: option.split)
qed

lemma atoi_dec: "n < 10 ^ 9 \<Longrightarrow> atoi (dec n) = int n"
  using atoi_digits [of "dec n"] dec_digits dec_length [of n 9] dec_value by auto

lemma dec_nonempty: "dec n \<noteq> []" by (simp add: dec.simps [of n])

lemma ServerInfoDNMgr_of_ok:
  assumes "mgr_sized junk"
  obtains i where "ServerInfoDNMgr_of junk p = Inr i" "mgr_GetPortMap i = map_setting p ''SERVER_PORT_DNMGR'' SERVER_PORT []"
    "mgr_GetDNPort i = int_setting p ''SERVER_PORT_DN'' (mgr_iDNPort junk)" "mgr_GetDNCnt i = int_setting p ''DN_CNT'' (mgr_iDNCnt junk)"
proof -
  obtain ip where "copy_setting p ''SERVER_IP'' (replicate MAX_IP_LEN NUL) MAX_IP_LEN = Inr ip"
    using copy_setting_ok [OF length_replicate] by blast
  moreover obtain logf where "copy_setting p ''SERVER_LOGFILE'' (replicate LOG_FILE_LEN NUL) LOG_FILE_LEN = Inr logf"
    using copy_setting_ok [OF length_replicate] by blast
  moreover obtain mrtg where "copy_setting p ''MRTG_URL'' (mgr_pchMRTGURL junk) MAX_URL = Inr mrtg"
    using copy_setting_ok assms unfolding mgr_sized_def by blast
  ultimately show thesis
    using that by (simp add: ServerInfoDNMgr_of_def mgr_GetPortMap_def mgr_GetDNPort_def mgr_GetDNCnt_def)
qed

lemma forks_fit_distinct:
  "fam_alive f = Map.empty \<Longrightarrow> fam_dead f = {} \<Longrightarrow> distinct (filter (\<lambda>x. x \<noteq> None) fs) \<Longrightarrow> forks_fit fs f"
proof (induction fs)
  case (Cons x fs)
  then show ?case by (cases x) auto
qed simp

lemma before_fork_sel [simp]:
  "su_mgr (before_fork m) = m" "su_socks (before_fork m) = Map.empty" "su_servers (before_fork m) = Map.empty"
  "fam_heap (su_fam (before_fork m)) 0 = Some Process_new" "fam_heap (su_fam (before_fork m)) (Suc 0) = Some Process_new"
  "fam_alive (su_fam (before_fork m)) = Map.empty" "fam_dead (su_fam (before_fork m)) = {}" "fam_stops (su_fam (before_fork m)) = {}"
  by (simp_all add: before_fork_def)

lemma ChatManager_of_sel:
  assumes "ServerInfoDNMgr_of junk p = Inr i"
  obtains m where "ChatManager_of junk p no_net = Inr m" "m_pServerInfo m = i" "n_socks m = Map.empty" "n_epoll m = Map.empty"
  using that assms by (simp add: ChatManager_of_def no_net_def net.defs)

section \<open>From the files to the processes\<close>

text \<open>C13: What is configured is what starts. With two configuration files of comments, empty lines and settings
  (blanks around the \<open>=\<close>, the last line for a key counts) that give the manager's port, the users' port and
  the number of chat servers, and give the chat servers no bandwidths, and a kernel that lets both sockets be
  opened, \<open>main\<close> gets to \<open>ChatManager::Run\<close>: it watches a socket that listens on the manager's port, the chat
  servers inherit one that listens on the users' port, they will connect to the port the manager listens
  on, and there are as many of them as \<open>fork\<close> made of the configured number.\<close>

theorem configured_program_starts:
  assumes files: "list_all conf_ok ms" "list_all conf_ok cs"
    and mgr: "conf_value ms ''SERVER_PORT_DNMGR'' = dec port" "conf_value ms ''SERVER_PORT_DN'' = dec user_port" "conf_value ms ''DN_CNT'' = dec n"
    and chat: "conf_value cs ''SERVER_PORT_DNMGR'' = dec port" "\<forall>k \<in> set bandwidth_keys. conf_value cs k = []"
    and small: "port < 10 ^ 9" "user_port < 10 ^ 9" "n < 10 ^ 9"
    and memory: "length (me_junk e) = 512" "dn_sized (me_dn_junk e)" "mgr_sized (me_mgr_junk e)"
    and kernel: "opens (me_listen e SERVER_PORT)" "opens (me_listen_dn e)" "le_fd (me_listen e SERVER_PORT) \<noteq> le_fd (me_listen_dn e)"
      "distinct (filter (\<lambda>x. x \<noteq> None) (map (me_forks e) [0..<n]))"
    and args: "length args \<le> 1"
  shows "\<exists>info st a b. main_program e args (Some (conf_file ms)) (Some (conf_file cs)) = Inr (Runs info st) \<and>
    n_epoll (su_mgr st) (le_fd (me_listen e SERVER_PORT)) = Some (EPOLLIN, a) \<and>
    listens_on st a SERVER_PORT (int port) (le_fd (me_listen e SERVER_PORT)) \<and>
    su_dn st = Some b \<and> listens_on st b SERVER_PORT (int user_port) (le_fd (me_listen_dn e)) \<and>
    dn_GetPort info SERVER_PORT_MGR = int port \<and>
    population (su_fam st) = int (forks_made (map (me_forks e) [0..<n]))"
proof -
  obtain mp where mp: "Load (me_junk e) Properties_new MANAGER_PROPERTIES (Some (conf_file ms)) = Inr (0, mp)"
      "\<forall>k. GetProperty mp k = conf_value ms k" by (rule Load_conf [where name = MANAGER_PROPERTIES, OF memory(1) files(1)])
  obtain cp where cp: "Load (me_junk e) Properties_new CHATSERVER_PROPERTIES (Some (conf_file cs)) = Inr (0, cp)"
      "\<forall>k. GetProperty cp k = conf_value cs k" by (rule Load_conf [where name = CHATSERVER_PROPERTIES, OF memory(1) files(2)])
  obtain info where info: "ServerInfoDN_of (me_dn_junk e) cp = Inr info"
    using ServerInfoDN_of_cases [OF memory(2), of cp] chat(2) cp(2) by auto
  obtain i where i: "ServerInfoDNMgr_of (me_mgr_junk e) mp = Inr i" "mgr_GetPortMap i = [(SERVER_PORT, int port)]"
      "mgr_GetDNPort i = int user_port" "mgr_GetDNCnt i = int n"
    by (rule ServerInfoDNMgr_of_ok [OF memory(3), of mp])
      (use mp(2) mgr small atoi_dec dec_nonempty in \<open>auto simp: map_setting_def int_setting_def\<close>)
  obtain m where m: "ChatManager_of (me_mgr_junk e) mp no_net = Inr m" "m_pServerInfo m = i" "n_socks m = Map.empty" "n_epoll m = Map.empty"
    by (rule ChatManager_of_sel [OF i(1)])
  have port: "dn_GetPort info SERVER_PORT_MGR = int port"
    using manager_port_agrees [OF info i(1)] cp(2) mp(2) chat(1) mgr(1) small(1) atoi_dec dec_nonempty by (simp add: int_setting_def)
  let ?st = "before_fork m" and ?ports = "[(SERVER_PORT, int port)]"
  have "\<exists>st'. DoFork 1 0 (me_listen e) (me_listen_dn e) (me_forks e) (me_user_junk e) (me_now e) ?st =
      Inr (all_open (me_listen e) ?ports \<and> opens (me_listen_dn e), st') \<and>
    (if all_open (me_listen e) ?ports \<and> opens (me_listen_dn e)
     then list_all (watched st' (me_listen e)) ?ports \<and>
       (\<exists>a. su_dn st' = Some a \<and> listens_on st' a SERVER_PORT (mgr_GetDNPort (m_pServerInfo (su_mgr ?st))) (le_fd (me_listen_dn e))) \<and>
       n_epoll (su_mgr st') (le_fd (me_listen_dn e)) = None \<and>
       population (su_fam st') = int (forks_made (map (me_forks e) [0..<nat (mgr_GetDNCnt (m_pServerInfo (su_mgr ?st)))]))
     else su_fam st' = su_fam ?st)"
    by (rule DoFork_listens [where p = Process_new and q = Process_new])
      (use m i kernel in \<open>simp_all add: su_fresh_def unused_fd_def port_fds_def forks_fit_distinct\<close>)
  then obtain st' where "DoFork 1 0 (me_listen e) (me_listen_dn e) (me_forks e) (me_user_junk e) (me_now e) ?st = Inr (True, st')"
      "watched st' (me_listen e) (SERVER_PORT, int port)" "population (su_fam st') = int (forks_made (map (me_forks e) [0..<n]))"
      "\<exists>b. su_dn st' = Some b \<and> listens_on st' b SERVER_PORT (int user_port) (le_fd (me_listen_dn e))"
    using kernel(1,2) m(2) i(3,4) by (auto simp: all_open_def)
  then show ?thesis using mp(1) cp(1) info m(1) port args unfolding watched_def by (auto simp: main_program_def)
qed

definition demo_main :: main_env where
  "demo_main = \<lparr>me_junk = replicate 512 NUL, me_dn_junk = ServerInfo.demo_info,
     me_mgr_junk = demo_mgr_info\<lparr>mgr_pchLogFile := replicate LOG_FILE_LEN NUL\<rparr>,
     me_listen = (\<lambda>_. demo_listen 3), me_listen_dn = demo_listen 4, me_forks = (\<lambda>i. Some (int i + 100)),
     me_user_junk = (\<lambda>_. 0), me_now = 0\<rparr>"

definition demo_mgr_conf :: "conf_line list" where
  "demo_mgr_conf = [Comment ''# ports'', Setting ''SERVER_PORT_DNMGR'' '' '' '' '' ''50000'', Setting ''SERVER_PORT_DN'' [] [] ''50001'',
     Comment [], Setting ''DN_CNT'' [] '' '' ''2'']"

definition demo_chat_conf :: "conf_line list" where
  "demo_chat_conf = [Setting ''SERVER_PORT_DNMGR'' [] [] ''50000'']"

theorem configured_program_starts_witness:
  "\<exists>info st. main_program demo_main [''ChatServer''] (Some (conf_file demo_mgr_conf)) (Some (conf_file demo_chat_conf)) = Inr (Runs info st) \<and>
    dn_GetPort info SERVER_PORT_MGR = 50000 \<and> population (su_fam st) = 2"
proof -
  have up: "[0..<2] = [0, 1 :: nat]" by (simp add: upt_rec)
  have conf: "list_all conf_ok demo_mgr_conf" "list_all conf_ok demo_chat_conf"
    by (simp_all add: demo_mgr_conf_def demo_chat_conf_def clean_key_def clean_def blanks_def isspace_def NUL_def NL_def)
  have vals: "conf_value demo_mgr_conf ''SERVER_PORT_DNMGR'' = dec 50000" "conf_value demo_mgr_conf ''SERVER_PORT_DN'' = dec 50001"
    "conf_value demo_mgr_conf ''DN_CNT'' = dec 2" "conf_value demo_chat_conf ''SERVER_PORT_DNMGR'' = dec 50000"
    by (simp_all add: conf_value_def demo_mgr_conf_def demo_chat_conf_def dec.simps char_of_def bit_simps)
  have bands: "\<forall>k \<in> set bandwidth_keys. conf_value demo_chat_conf k = []"
    by (simp add: bandwidth_keys_def conf_value_def demo_chat_conf_def)
  have memory: "length (me_junk demo_main) = 512" "dn_sized (me_dn_junk demo_main)" "mgr_sized (me_mgr_junk demo_main)"
    using demo_info_sized by (simp_all add: demo_main_def mgr_sized_def demo_mgr_info_def ServerInfoDNMgr_new_def)
  have kernel: "opens (me_listen demo_main SERVER_PORT)" "opens (me_listen_dn demo_main)"
    "le_fd (me_listen demo_main SERVER_PORT) \<noteq> le_fd (me_listen_dn demo_main)"
    "distinct (filter (\<lambda>x. x \<noteq> None) (map (me_forks demo_main) [0..<2]))" "forks_made (map (me_forks demo_main) [0..<2]) = 2"
    by (simp_all add: demo_main_def demo_listen_def opens_def up)
  show ?thesis
    using configured_program_starts [where e = demo_main and args = "[''ChatServer'']", OF conf vals bands _ _ _ memory kernel(1-4)] kernel(5)
    by auto
qed

text \<open>Without the manager's file the program starts all the same: no port is watched, and the number of chat
  servers is whatever the memory held.\<close>

lemma main_without_settings:
  assumes cs: "list_all conf_ok cs" "\<forall>k \<in> set bandwidth_keys. conf_value cs k = []"
    and memory: "length (me_junk e) = 512" "dn_sized (me_dn_junk e)" "mgr_sized (me_mgr_junk e)"
    and kernel: "opens (me_listen_dn e)" "distinct (filter (\<lambda>x. x \<noteq> None) (map (me_forks e) [0..<nat (mgr_iDNCnt (me_mgr_junk e))]))"
    and args: "length args \<le> 1"
  shows "\<exists>info st. main_program e args None (Some (conf_file cs)) = Inr (Runs info st) \<and>
    population (su_fam st) = int (forks_made (map (me_forks e) [0..<nat (mgr_iDNCnt (me_mgr_junk e))]))"
proof -
  let ?mp = "Properties_new\<lparr>m_strFileName := MANAGER_PROPERTIES\<rparr>"
  have mp: "Load (me_junk e) Properties_new MANAGER_PROPERTIES None = Inr (-1, ?mp)" by (simp add: Load_def)
  have none: "GetProperty ?mp k = []" for k by (simp add: GetProperty_def Properties_new_def std.find_empty)
  obtain cp where cp: "Load (me_junk e) Properties_new CHATSERVER_PROPERTIES (Some (conf_file cs)) = Inr (0, cp)"
      "\<forall>k. GetProperty cp k = conf_value cs k" by (rule Load_conf [where name = CHATSERVER_PROPERTIES, OF memory(1) cs(1)])
  obtain info where info: "ServerInfoDN_of (me_dn_junk e) cp = Inr info"
    using ServerInfoDN_of_cases [OF memory(2), of cp] cs(2) cp(2) by auto
  obtain i where i: "ServerInfoDNMgr_of (me_mgr_junk e) ?mp = Inr i" "mgr_GetPortMap i = []" "mgr_GetDNCnt i = mgr_iDNCnt (me_mgr_junk e)"
    by (rule ServerInfoDNMgr_of_ok [OF memory(3), of ?mp]) (use none in \<open>auto simp: map_setting_def int_setting_def\<close>)
  obtain m where m: "ChatManager_of (me_mgr_junk e) ?mp no_net = Inr m" "m_pServerInfo m = i" "n_socks m = Map.empty" "n_epoll m = Map.empty"
    by (rule ChatManager_of_sel [OF i(1)])
  have "\<exists>st'. DoFork 1 0 (me_listen e) (me_listen_dn e) (me_forks e) (me_user_junk e) (me_now e) (before_fork m) = Inr (True, st') \<and>
      population (su_fam st') = int (forks_made (map (me_forks e) [0..<nat (mgr_iDNCnt (me_mgr_junk e))]))"
    using DoFork_listens [of "[]" "before_fork m" 1 0 Process_new Process_new "me_forks e" "me_listen_dn e" "me_listen e" "me_user_junk e" "me_now e"]
      m i kernel by (simp add: su_fresh_def unused_fd_def port_fds_def forks_fit_distinct all_open_def) blast
  then show ?thesis using mp cp(1) info m(1) args by (auto simp: main_program_def)
qed

section \<open>The settings of a chat server\<close>

text \<open>The getters of \<open>ChatServer\<close> that read its \<open>ServerInfoDN\<close>; both ports are the same one.\<close>

definition cs_GetIPAddr :: "ServerInfoDN \<Rightarrow> string res" where "cs_GetIPAddr i = dn_GetIPAddr i"
definition GetServerPort :: "ServerInfoDN \<Rightarrow> int" where "GetServerPort i = dn_GetPort i SERVER_PORT"
definition GetDNServerPort :: "ServerInfoDN \<Rightarrow> int" where "GetDNServerPort i = dn_GetPort i SERVER_PORT"
definition cs_GetLogFileName :: "ServerInfoDN \<Rightarrow> string res" where "cs_GetLogFileName i = dn_GetLogFileName i"
definition cs_GetBandwidth :: "ServerInfoDN \<Rightarrow> byte \<Rightarrow> 32 word" where "cs_GetBandwidth i c = GetBandwidth i c"
definition GetServerSocket :: "startup \<Rightarrow> nat option" where "GetServerSocket st = su_dn st"
definition SetServerSocket :: "nat option \<Rightarrow> startup \<Rightarrow> startup" where "SetServerSocket p st = st\<lparr>su_dn := p\<rparr>"

lemma GetServerSocket_set: "GetServerSocket (SetServerSocket p st) = p"
  by (simp add: GetServerSocket_def SetServerSocket_def)

end
