(* ===== verification/SockNames.thy ===== *)
theory SockNames
  imports Startup
begin

text \<open>
  Addresses as text (src/Socket.cpp, src/TcpSocket.cpp, src/Client.cpp): the functions that write the dotted form of
  an address into a buffer of the caller. \<open>inet_ntoa\<close> of the C library is written out (four octets in the order
  in which they lie in memory); what \<open>getsockname\<close>, \<open>getpeername\<close>, \<open>gethostname\<close> and \<open>gethostbyname\<close> answer is an
  argument.
\<close>

section \<open>Dotted addresses\<close>

definition octets :: "32 word \<Rightarrow> nat list" where
  "octets a = map unat (le_bytes 4 a)"

fun dotted :: "nat list \<Rightarrow> string" where
  "dotted [] = []"
| "dotted [n] = dec n"
| "dotted (n # ns) = dec n @ CHR ''.'' # dotted ns"

definition inet_ntoa :: "32 word \<Rightarrow> string" where
  "inet_ntoa a = dotted (octets a)"

section \<open>The functions\<close>

definition GetSockName :: "32 word option \<Rightarrow> string \<Rightarrow> (int \<times> string) res" where
  \<comment> \<open>what \<open>getsockname\<close> gives; the caller's buffer before and after\<close>
  "GetSockName name buf =
     (case name of None \<Rightarrow> Inr (-1, buf)
      | Some a \<Rightarrow>
          bindR (mem_write buf 0 (replicate (length (inet_ntoa a) + 1) NUL)) (\<lambda>b.
          bindR (strncpy b (inet_ntoa a) MAX_IP_LEN) (\<lambda>b'. Inr (0, b'))))"

definition GetPeerName :: "32 word option \<Rightarrow> string \<Rightarrow> (int \<times> string) res" where
  \<comment> \<open>\<open>%c\<close> writes a NUL and \<open>sprintf\<close> another one\<close>
  "GetPeerName name buf =
     (case name of None \<Rightarrow> Inr (-1, buf)
      | Some a \<Rightarrow> bindR (mem_write buf 0 (dotted (octets a) @ [NUL, NUL])) (\<lambda>b. Inr (0, b)))"

definition GetIpAddr :: "32 word list \<Rightarrow> string \<Rightarrow> (int \<times> string) res" where
  \<comment> \<open>the addresses of a \<open>hostent\<close>\<close>
  "GetIpAddr addrs buf =
     (case addrs of [] \<Rightarrow> Inl NullDeref
      | a # _ \<Rightarrow> bindR (strncpy buf (inet_ntoa a) MAX_IP_LEN) (\<lambda>b. Inr (0, b)))"

definition GetHostName :: "string option \<Rightarrow> string \<Rightarrow> (int \<times> string) res" where
  \<comment> \<open>\<open>gethostname(buf, 32)\<close> fails on a name that does not fit\<close>
  "GetHostName host buf =
     (case host of None \<Rightarrow> Inr (-1, buf)
      | Some s \<Rightarrow> if 32 \<le> length s then Inr (-1, buf) else bindR (mem_write buf 0 (s @ [NUL])) (\<lambda>b. Inr (0, b)))"

definition GetHostByName :: "string option \<Rightarrow> 32 word list option \<Rightarrow> string \<Rightarrow> (int \<times> string) res" where
  \<comment> \<open>the name, NULL or a string; what \<open>gethostbyname\<close> finds\<close>
  "GetHostByName name host buf =
     (case name of None \<Rightarrow> Inr (-1, buf)
      | Some _ \<Rightarrow> bindR (mem_write buf 0 [NUL]) (\<lambda>b.
          case host of None \<Rightarrow> Inr (-1, b)
          | Some addrs \<Rightarrow> bindR (GetIpAddr addrs b) (\<lambda>(_, b'). Inr (0, b'))))"

definition GetHostByAddr :: int where "GetHostByAddr = 0"
definition GetIpNodeByName :: int where "GetIpNodeByName = 0"
definition GetIpNodeByAddr :: int where "GetIpNodeByAddr = 0"

definition GetClientIpAddr :: "TcpSocket \<Rightarrow> string" where
  "GetClientIpAddr s = inet_ntoa (s_addr (m_ClientAddr s))"

definition GetIp :: "TcpSocket option \<Rightarrow> 32 word" where
  \<comment> \<open>\<open>dynamic_cast\<close> of the client's socket\<close>
  "GetIp s = (case s of None \<Rightarrow> 0 | Some t \<Rightarrow> GetClientIp t)"

section \<open>Reading an address back\<close>

fun undot :: "string \<Rightarrow> string list" where
  "undot [] = [[]]"
| "undot (c # s) = (if c = CHR ''.'' then [] # undot s else (c # hd (undot s)) # tl (undot s))"

definition inet_aton :: "string \<Rightarrow> 32 word" where
  "inet_aton s = le_word (map (\<lambda>d. word_of_int (digits_value d)) (undot s))"

lemma undot_nonempty: "undot s \<noteq> []" by (cases s) auto

lemma undot_piece: "CHR ''.'' \<notin> set d \<Longrightarrow> undot (d @ CHR ''.'' # s) = d # undot s"
  by (induction d) auto

lemma undot_last: "CHR ''.'' \<notin> set d \<Longrightarrow> undot d = [d]"
  by (induction d) auto

lemma dec_no_dot: "CHR ''.'' \<notin> set (dec n)"
  using dec_digits by (force simp: isdigit_def)

lemma undot_dotted: "ns \<noteq> [] \<Longrightarrow> undot (dotted ns) = map dec ns"
  by (induction ns rule: dotted.induct) (simp_all add: undot_piece undot_last dec_no_dot)

lemma octets_props: "length (octets a) = 4" "n \<in> set (octets a) \<Longrightarrow> n < 256"
proof -
  show "length (octets a) = 4" by (simp add: octets_def)
  have "unat (b :: byte) < 256" for b using unsigned_less [of b, where 'a = nat] by simp
  then show "n \<in> set (octets a) \<Longrightarrow> n < 256" by (auto simp: octets_def)
qed

lemma inet_aton_ntoa: "inet_aton (inet_ntoa a) = a"
proof -
  have "octets a \<noteq> []" using octets_props(1) [of a] by auto
  then have "inet_aton (inet_ntoa a) = le_word (map (\<lambda>n. word_of_int (int n)) (octets a))"
    by (simp add: inet_aton_def inet_ntoa_def undot_dotted dec_value comp_def)
  also have "map (\<lambda>n. word_of_int (int n)) (octets a) = le_bytes 4 a" by (simp add: octets_def comp_def)
  finally show ?thesis using le_word_le_bytes [of 4 a] by simp
qed

lemma inet_ntoa_length: "7 \<le> length (inet_ntoa a) \<and> length (inet_ntoa a) \<le> 15"
proof -
  have d: "1 \<le> length (dec n) \<and> length (dec n) \<le> 3" if "n < 256" for n using dec_length [of n 3] that by simp
  obtain b0 b1 b2 b3 where o: "octets a = [b0, b1, b2, b3]"
    using octets_props(1) [of a] by (auto simp: length_Suc_conv eval_nat_numeral)
  then have "b0 < 256" "b1 < 256" "b2 < 256" "b3 < 256" using octets_props(2) [of _ a] by auto
  then show ?thesis using d [of b0] d [of b1] d [of b2] d [of b3] by (simp add: inet_ntoa_def o)
qed

lemma inet_ntoa_text: "NUL \<notin> set (inet_ntoa a)"
proof -
  have "\<forall>c \<in> set (dotted ns). isdigit c \<or> c = CHR ''.''" for ns
    using dec_digits by (induction ns rule: dotted.induct) auto
  then show ?thesis by (fastforce simp: inet_ntoa_def isdigit_def NUL_def)
qed

text \<open>A buffer of \<open>MAX_IP_LEN\<close> characters is filled with the text, and two addresses never give the same one;
  in any smaller buffer \<open>GetSockName\<close> writes past the end.\<close>

lemma GetSockName_text:
  assumes "length buf = MAX_IP_LEN"
  shows "\<exists>b. GetSockName (Some a) buf = Inr (0, b) \<and> c_str b = Inr (inet_ntoa a) \<and> length b = MAX_IP_LEN"
proof -
  obtain b where b: "mem_write buf 0 (replicate (length (inet_ntoa a) + 1) NUL) = Inr b" "length b = MAX_IP_LEN"
    using inet_ntoa_length [of a] assms by (simp add: mem_write_def MAX_IP_LEN_def)
  have "strncpy b (inet_ntoa a) MAX_IP_LEN = Inr (inet_ntoa a @ replicate (MAX_IP_LEN - length (inet_ntoa a)) NUL)"
    "c_str (inet_ntoa a @ replicate (MAX_IP_LEN - length (inet_ntoa a)) NUL) = Inr (inet_ntoa a)"
    using strncpy_fits [OF b(2), of "inet_ntoa a"] inet_ntoa_length [of a] inet_ntoa_text [of a] by (simp_all add: MAX_IP_LEN_def)
  then show ?thesis using b(1) inet_ntoa_length [of a] by (simp add: GetSockName_def MAX_IP_LEN_def)
qed

lemma GetSockName_small: "length buf < MAX_IP_LEN \<Longrightarrow> GetSockName (Some a) buf = Inl OutOfBounds"
  by (auto simp: GetSockName_def mem_write_def strncpy_def bindR_def MAX_IP_LEN_def split: sum.splits)

text \<open>The address at one end of a connection is the same text there and as the peer's name.\<close>

lemma GetPeerName_text:
  assumes "17 \<le> length buf"
  shows "\<exists>b. GetPeerName (Some a) buf = Inr (0, b) \<and> c_str b = Inr (inet_ntoa a)"
proof -
  have "mem_write buf 0 (inet_ntoa a @ [NUL, NUL]) = Inr (mem_put buf 0 (inet_ntoa a @ [NUL, NUL]))"
    using inet_ntoa_length [of a] assms by (simp add: mem_write_def)
  moreover have "c_str (mem_put buf 0 (inet_ntoa a @ [NUL, NUL])) = Inr (inet_ntoa a)"
    using inet_ntoa_text [of a] by (auto simp: mem_put_def c_str_def takeWhile_append)
  ultimately show ?thesis by (simp add: GetPeerName_def inet_ntoa_def)
qed

lemma GetHostByName_first:
  assumes "length buf = MAX_IP_LEN"
  shows "\<exists>b. GetHostByName (Some name) (Some (a # as)) buf = Inr (0, b) \<and> c_str b = Inr (inet_ntoa a)"
proof -
  obtain b where b: "mem_write buf 0 [NUL] = Inr b" "length b = MAX_IP_LEN"
    using assms by (simp add: mem_write_def MAX_IP_LEN_def)
  show ?thesis
    using b strncpy_fits [OF b(2), of "inet_ntoa a"] inet_ntoa_length [of a] inet_ntoa_text [of a]
    by (simp add: GetHostByName_def GetIpAddr_def MAX_IP_LEN_def)
qed

text \<open>Different peers have different texts.\<close>

lemma GetClientIpAddr_eq: "GetClientIpAddr s = GetClientIpAddr t \<longleftrightarrow> GetIp (Some s) = GetIp (Some t)"
  using inet_aton_ntoa by (metis GetClientIpAddr_def GetIp_def GetClientIp_def option.simps(5))

end
