(* ===== verification/Clock.thy ===== *)
theory Clock
  imports NPLog
begin

text \<open>
  The clock functions of \<open>CNPUtil\<close> (src/NPUtil.cpp). What \<open>time\<close> and \<open>gettimeofday\<close> return is an argument, and so is
  \<open>localtime_r\<close>, as a function; a result string goes into a buffer of the caller, or nowhere when the pointer is
  NULL.
\<close>

section \<open>The functions\<close>

record tm =
  tm_year :: int
  tm_mon :: int
  tm_mday :: int
  tm_hour :: int
  tm_min :: int
  tm_sec :: int

record time_buf =
  tv_sec :: int
  tv_usec :: int

definition GetTime_buf :: "int \<Rightarrow> int \<times> int \<Rightarrow> time_buf" where
  \<comment> \<open>the seconds of \<open>gettimeofday\<close> end up in \<open>tv_usec\<close>\<close>
  "GetTime_buf now tv = \<lparr>tv_sec = now, tv_usec = fst tv\<rparr>"

definition sprintf_to :: "string option \<Rightarrow> string \<Rightarrow> string option res" where
  "sprintf_to buf s =
     (case buf of None \<Rightarrow> Inr None | Some b \<Rightarrow> bindR (mem_write b 0 (s @ [NUL])) (\<lambda>b'. Inr (Some b')))"

definition hms :: "tm \<Rightarrow> string" where
  "hms t = zpad 2 (tm_hour t) @ zpad 2 (tm_min t) @ zpad 2 (tm_sec t)"
definition ymd :: "tm \<Rightarrow> string" where
  "ymd t = zpad 4 (tm_year t + 1900) @ zpad 2 (tm_mon t + 1) @ zpad 2 (tm_mday t)"

definition GetTime_str :: "(int \<Rightarrow> tm) \<Rightarrow> int \<Rightarrow> string option \<Rightarrow> string option \<Rightarrow> (string option \<times> string option) res" where
  "GetTime_str localtime now today timestr =
     bindR (sprintf_to today (ymd (localtime now))) (\<lambda>d.
     bindR (sprintf_to timestr (hms (localtime now))) (\<lambda>t. Inr (d, t)))"

definition GetTime_hour :: "(int \<Rightarrow> tm) \<Rightarrow> int \<Rightarrow> int" where "GetTime_hour localtime now = tm_hour (localtime now)"
definition GetUnixTime :: "int \<Rightarrow> int" where "GetUnixTime now = now"
definition GetMin :: "(int \<Rightarrow> tm) \<Rightarrow> int \<Rightarrow> int" where "GetMin localtime now = tm_min (localtime now)"
definition GetCurDay :: "(int \<Rightarrow> tm) \<Rightarrow> int \<Rightarrow> int" where "GetCurDay localtime now = tm_mday (localtime now)"

definition GetUnixTimeStr :: "(int \<Rightarrow> tm) \<Rightarrow> 64 word \<Rightarrow> string option \<Rightarrow> string option res" where
  \<comment> \<open>an \<open>unsigned long\<close> becomes a \<open>time_t\<close>\<close>
  "GetUnixTimeStr localtime t buf = sprintf_to buf (hms (localtime (sint t)))"

definition GetMicroTimeStr :: "(byte list \<Rightarrow> tm) \<Rightarrow> bool \<Rightarrow> byte list \<Rightarrow> string option \<Rightarrow> string option res" where
  \<comment> \<open>whether the \<open>double\<close> is negative and its bytes; they are copied into a \<open>struct timeval\<close> of 16 bytes\<close>
  "GetMicroTimeStr localtime neg bytes buf =
     (if neg then Inr buf
      else bindR (memcpy (replicate 16 0) 0 bytes 0 16) (\<lambda>tv. sprintf_to buf (hms (localtime tv))))"

section \<open>What they write\<close>

definition tm_valid :: "tm \<Rightarrow> bool" where
  "tm_valid t \<longleftrightarrow> 0 \<le> tm_year t + 1900 \<and> tm_year t + 1900 < 10000 \<and> 0 \<le> tm_mon t \<and> tm_mon t < 12 \<and> 1 \<le> tm_mday t \<and> tm_mday t \<le> 31 \<and>
     0 \<le> tm_hour t \<and> tm_hour t < 24 \<and> 0 \<le> tm_min t \<and> tm_min t < 60 \<and> 0 \<le> tm_sec t \<and> tm_sec t \<le> 60"

lemma digits_value_zeros: "digits_value (replicate k (CHR ''0'') @ s) = digits_value s"
proof (induction s rule: rev_induct)
  case Nil
  show ?case by (induction k rule: nat.induct) (simp_all add: digits_value_def replicate_app_Cons_same)
next
  case (snoc c s)
  then show ?case using digits_value_snoc [of "replicate k (CHR ''0'') @ s" c] digits_value_snoc [of s c] by simp
qed

lemma zpad_value: "0 \<le> n \<Longrightarrow> digits_value (zpad w n) = n"
  by (simp add: zpad_def Let_def digits_value_zeros dec_value)

lemma zpad_inj: "0 \<le> m \<Longrightarrow> 0 \<le> n \<Longrightarrow> zpad w m = zpad w n \<longleftrightarrow> m = n"
  using zpad_value by metis

lemma tm_fields:
  assumes "tm_valid t"
  shows "length (zpad 4 (tm_year t + 1900)) = 4" "length (zpad 2 (tm_mon t + 1)) = 2" "length (zpad 2 (tm_mday t)) = 2"
    "length (zpad 2 (tm_hour t)) = 2" "length (zpad 2 (tm_min t)) = 2" "length (zpad 2 (tm_sec t)) = 2"
  using assms by (auto simp: tm_valid_def intro!: zpad_length)

lemma hms_length: "tm_valid t \<Longrightarrow> length (hms t) = 6" by (simp add: hms_def tm_fields)
lemma ymd_length: "tm_valid t \<Longrightarrow> length (ymd t) = 8" by (simp add: ymd_def tm_fields)

text \<open>The six characters say which time of day it is.\<close>

lemma hms_inj:
  assumes "tm_valid s" "tm_valid t"
  shows "hms s = hms t \<longleftrightarrow> tm_hour s = tm_hour t \<and> tm_min s = tm_min t \<and> tm_sec s = tm_sec t"
proof -
  have "0 \<le> tm_hour u \<and> 0 \<le> tm_min u \<and> 0 \<le> tm_sec u" if "tm_valid u" for u using that by (simp add: tm_valid_def)
  then show ?thesis using assms by (simp add: hms_def append_eq_append_conv tm_fields zpad_inj)
qed

text \<open>A buffer of seven characters is needed, and enough.\<close>

lemma GetUnixTimeStr_fits:
  assumes "tm_valid (localtime (sint t))"
  shows "GetUnixTimeStr localtime t (Some buf) =
    (if 7 \<le> length buf then Inr (Some (mem_put buf 0 (hms (localtime (sint t)) @ [NUL]))) else Inl OutOfBounds)"
  using hms_length [OF assms] by (auto simp: GetUnixTimeStr_def sprintf_to_def mem_write_def)

text \<open>\<open>GetMicroTimeStr\<close> reads eight bytes past its argument for every time that is not negative.\<close>

lemma GetMicroTimeStr_overreads:
  assumes "length bytes = 8"
  shows "GetMicroTimeStr localtime neg bytes buf = (if neg then Inr buf else Inl OutOfBounds)"
  using assms memcpy_fault_iff by (auto simp: GetMicroTimeStr_def memcpy_def mem_read_def)

end
