(* ===== verification/Spec2Isabelle.thy ===== *)
theory Spec2Isabelle
  imports CircBuff RingQueue Packet Broadcast SocketIO TcpSockets SockFill ClientObj Iomp NetWorld
    ChatServerProc ServerBroadcast StdMap PropertiesFile ServerInfo ChatManagerProc ManagerRelay
    Threads ClientOwnership Sha256 NPUtilStr
    ProcessSpawn NPLog Startup ManagerRace ClientTypes ChatClient SharedMem
    Housekeeping ProcessMgr MainProgram SockNames Clock
begin

text \<open>
  thunder-chat is a chat server for many connections: a parent process (\<open>ChatManager\<close>) forks chat servers
  (\<open>ChatServer\<close>), every chat server connects back to one or more managers, users connect to the chat servers,
  and what a user sends is written to all other users of the server and, through the manager, to the
  other servers, which hand it to their users. This library models the C++ sources under src/src and
  src/include and the clients under src/client; the libraries the program calls (the C library, the kernel, curl,
  OpenSSL) are outside it.

  \<^bold>\<open>How the code is modelled.\<close> Everything is a total, executable function. A computation that may go wrong
  where C++ has undefined behaviour returns a sum: \<open>Inl\<close> with a \<open>fault\<close> (a read or write outside its
  block, the use of a freed or null pointer, an iterator past the end, a string without a terminator,
  a call that blocks for ever) or \<open>Inr\<close> with the result; error codes of the source (-1, \<open>USER_CLOSE\<close>)
  are ordinary results. Objects reached through pointers live in maps from addresses, so that freeing
  one (\<open>None\<close>) is visible to every holder of the pointer. The kernel is an argument: a descriptor holds
  the events that its next reads and writes will meet and the bytes already on the wire, so every
  theorem is about all schedules of short reads, \<open>EINTR\<close>, errors and \<open>EAGAIN\<close>. Threads appear as
  explicit sequences of steps. Logging is dropped. The build is a parameter where the sources have
  \<open>_USE_ET\<close>, \<open>_USE_LT\<close> and \<open>_USE_ONESHOT\<close>; the branches for \<open>_FREEBSD\<close> are left out, except \<open>IOMP_KQUEUE\<close>.

  \<^bold>\<open>Theories.\<close>
  \<^item> \<open>Prelude\<close>: faults, the result monad, memory blocks (\<open>memcpy\<close>, \<open>mem_put\<close>), little-endian bytes.
  \<^item> \<open>CircBuff\<close> (CircularBuff.cpp): the byte ring in front of every parser. Its contents as a list, \<open>Put\<close>
    and \<open>Get\<close> as a queue on that list where the one-piece test of \<open>Get\<close> is sound, exactly when it is not,
    and a locale of bounded queues, interpreted by the ring below half its size.
  \<^item> \<open>RingQueue\<close> (CircularQueue.cpp, EventQueue.cpp, SendQueue.cpp, CloseQueue.cpp, QoSQueue.cpp,
    ConnectList.cpp): the pointer queues with their condition variables as a step relation over
    interleavings; order and wake-ups by rule induction.
  \<^item> \<open>Packet\<close>, \<open>Broadcast\<close> (Packet.h, BroadcastMessage.cpp): the wire format byte by byte and the message object.
  \<^item> \<open>SocketIO\<close>, \<open>TcpSockets\<close>, \<open>SockFill\<close> (Socket.cpp, TcpSocket.cpp, ServerSocket.cpp, ClientSocket.cpp, the
    socket side of CircularBuff.cpp): the read and write loops, and filling a ring from a descriptor.
  \<^item> \<open>ClientObj\<close> (Client.cpp, ClientServer.cpp, ChatUser.cpp): packets out of the ring and what they mean.
  \<^item> \<open>NetWorld\<close>, \<open>Iomp\<close> (IOMP_EPoll.cpp, IOMP_Select.cpp, IOMP_KQUEUE.cpp): the heap of sockets, descriptors and the
    multiplexers; the locale \<open>conn_registry\<close> of connection bookkeeping.
  \<^item> \<open>ChatServerProc\<close>, \<open>ServerBroadcast\<close> (ChatServer.cpp, ThreadAcceptor.cpp): the child process.
  \<^item> \<open>StdMap\<close>, \<open>PropertiesFile\<close>, \<open>ServerInfo\<close> (Properties.cpp, ServerInfoDN.cpp, ServerInfoDNMgr.cpp): \<open>std::map\<close> and
    C strings, the configuration file, the settings of both processes.
  \<^item> \<open>ChatManagerProc\<close>, \<open>ManagerRelay\<close> (ChatManager.cpp, ClientChatServer.cpp): the parent process and its relay.
  \<^item> \<open>Threads\<close> (Thread.cpp, ThreadManager.cpp, ThreadReceiver.cpp, ThreadWorker.cpp, ThreadBroadcaster.cpp): one pass of each
    thread's loop. The packet loop of the manager ends and refines the handling of a list of packets; the
    one of the receiver need not end.
  \<^item> \<open>ClientOwnership\<close> (the same with ChatServer::Run): all interleavings of the threads of a chat server as
    a step relation, and the invariant that every client is in one place only.
  \<^item> \<open>Sha256\<close>, \<open>NPUtilStr\<close> (NPUtil.cpp, split of ChatServer.cpp): the hash, on the code's 64-bit words against the
    standard's 32-bit ones, and the functions that work on C strings.
  \<^item> \<open>ProcessSpawn\<close>, \<open>Startup\<close> (Process.cpp, ChatManager::DoFork, the loops of ChatManager::Run and the start of
    ChatServer::Run): the children as a step relation with what the kernel knows of them, the listening
    sockets, the forks, the threads, the first connection.
  \<^item> \<open>NPLog\<close> (NPLog.cpp): the log file over all its rotations, on a file system of names, inodes and descriptors;
    the hex dump.
  \<^item> \<open>ManagerRace\<close> (ChatManager::MessageBroadcast, CloseClient, Run): the manager's unlocked loop with other threads
    acting between its rounds, as a walk over a list.
  \<^item> \<open>ClientTypes\<close> (ChatServer.cpp, ChatUser.cpp): the types of the client objects over all interleavings.
  \<^item> \<open>ChatClient\<close> (client/chat_client.c, client/clients.c): the terminal client, and the way of a typed line through a
    chat server to the screens of the other users.
  \<^item> \<open>SharedMem\<close> (SharedMemory.cpp): shared memory segments as objects, on the kernel's table of segments.
  \<^item> \<open>Housekeeping\<close> (ThreadTic.cpp, DeleteFile of NPUtil.cpp, DeleteDir of NPLog.cpp): removing old log files, round
    by round, on the file system of \<open>NPLog\<close>.
  \<^item> \<open>ProcessMgr\<close> (ProcessManager.cpp): a list of supervised processes.
  \<^item> \<open>MainProgram\<close> (MainProcess.cpp): \<open>main\<close>, from the text of the configuration files to the processes.
  \<^item> \<open>SockNames\<close> (Socket.cpp, TcpSocket.cpp, Client.cpp): addresses as text.
  \<^item> \<open>Clock\<close> (NPUtil.cpp): the date and the time of day.
  \<^item> This theory: both processes together, the handshake, the identifiers and a text on its way from one
    server's users to another's.

  \<^bold>\<open>What the theorems show.\<close> The queues and the ring keep bytes and pointers in order; the I/O loops neither lose
  nor repeat bytes; a broadcast reaches everybody it should and nobody else; the bookkeeping of
  connections is an invariant and its limits hold; what is written can be read back. Where the code
  does not do what it is for, the theorem says exactly when: the condition is part of the statement.

  \<^bold>\<open>Bounds and fuel.\<close> Every loop is structural or has a measure (the events left in the kernel's schedule and the
  bytes left to transfer), so no function takes fuel; a schedule that runs out where the code would wait is
  the fault \<open>Blocks\<close>. The two packet loops and the loop of \<open>split\<close> are \<open>partial_function (option)\<close>: \<open>None\<close> is a
  loop that never ends.

  \<^bold>\<open>Not modelled.\<close> Signals, \<open>SetLimit\<close> (not called), the curl calls of \<open>ChatManager\<close>, the headers for semaphores, message
  queues, Unix sockets and unique ids (no code uses them), \<open>Mutex\<close> and \<open>NPDebug\<close>, which pass their calls on, and the
  sleeping, timer, network interface and RC4 functions of \<open>CNPUtil\<close>, which only pass on what the kernel and
  OpenSSL return. \<open>ProcessManager\<close>, \<open>SharedMemory\<close> and \<open>ThreadTic\<close> are modelled although the program does not use them.
\<close>

section \<open>The handshake\<close>

lemma hello_packet_ok: "pkt_ok (hello_packet uid)" "pkt_len (hello_packet uid) = 8"
    "hello_uniqId (Tcmd_HELLO_DS_DSM_of (pkt_data (pkt_received (hello_packet uid)))) = uid"
proof -
  show l: "pkt_len (hello_packet uid) = 8" by (simp add: pkt_len_def hello_packet_def)
  have d: "pkt_data (hello_packet uid) = le_bytes 8 uid @ replicate 4084 0"
    by (simp add: hello_packet_def T_PACKET_zero_def Tcmd_HELLO_DS_DSM_bytes_def mem_put_drop_0)
  then show "pkt_ok (hello_packet uid)" by (simp add: pkt_ok_def T_PACKET_wf_def l)
  show "hello_uniqId (Tcmd_HELLO_DS_DSM_of (pkt_data (pkt_received (hello_packet uid)))) = uid"
    by (simp add: pkt_received_def l d Tcmd_HELLO_DS_DSM_of_def field_def le_word_le_bytes)
qed

lemma hello_ack_ok: "pkt_ok (hello_ack uid n)" "pkt_len (hello_ack uid n) = 20"
    "ack_iMaxUser (Tcmd_HELLO_DSM_DS_of (pkt_data (pkt_received (hello_ack uid n)))) = word_of_int n"
proof -
  show l: "pkt_len (hello_ack uid n) = 20" by (simp add: pkt_len_def hello_ack_def)
  have d: "pkt_data (hello_ack uid n) = le_bytes 8 uid @ le_bytes 4 (word_of_int n :: 32 word) @ replicate 8 0 @ replicate 4072 0"
    by (simp add: hello_ack_def T_PACKET_zero_def Tcmd_HELLO_DSM_DS_bytes_def mem_put_drop_0 replicate_add [symmetric])
  then show "pkt_ok (hello_ack uid n)" by (simp add: pkt_ok_def T_PACKET_wf_def l)
  show "ack_iMaxUser (Tcmd_HELLO_DSM_DS_of (pkt_data (pkt_received (hello_ack uid n)))) = word_of_int n"
    by (simp add: pkt_received_def l d Tcmd_HELLO_DSM_DS_of_def field_def le_word_le_bytes)
qed

lemma WorkChatServerHello_writes:
  assumes c: "cm_clients m a = Some c" "m_pMainProcess c = Some ProcChatManager" "m_cSocket c = Some q"
      "n_socks m q = Some fd" "0 < fd" and k: "kern_ok m"
    and uid: "hello_uniqId (Tcmd_HELLO_DS_DSM_of (pkt_data p)) = uid"
    and resp: "responsive m fd (pkt_wire (hello_ack uid (mgr_iDSMaxUser (m_pServerInfo m))))"
  obtains K where "WorkChatServerHello m a p = Inr (m\<lparr>n_kern := K,
      cm_clients := (cm_clients m)(a \<mapsto> c\<lparr>m_eType := CLIENT_CHAT_SERVER, cc_uniqId := uid\<rparr>)\<rparr>)"
    "delivered m (m\<lparr>n_kern := K\<rparr>) fd (pkt_wire (hello_ack uid (mgr_iDSMaxUser (m_pServerInfo m))))"
    "\<And>g. g \<noteq> fd \<Longrightarrow> K g = n_kern m g"
proof -
  let ?ack = "hello_ack uid (mgr_iDSMaxUser (m_pServerInfo m))"
  let ?m2 = "m\<lparr>cm_clients := (cm_clients m)(a \<mapsto> c\<lparr>m_eType := CLIENT_CHAT_SERVER, cc_uniqId := uid\<rparr>)\<rparr>"
  have wire: "take 24 (T_PACKET_bytes ?ack) = pkt_wire ?ack" by (simp add: pkt_wire_def hello_ack_ok)
  have lb: "24 \<le> length (T_PACKET_bytes ?ack)" using hello_ack_ok(1) by (simp add: pkt_ok_def)
  have r: "responsive ?m2 fd (take 24 (T_PACKET_bytes ?ack))" using resp by (simp add: wire responsive_def)
  obtain n s s' where s: "n_kern ?m2 fd = Some s" "m_iFd s' = m_iFd s"
    "write_fd ?m2 fd (T_PACKET_bytes ?ack) (int 24) = Inr (n, ?m2\<lparr>n_kern := (n_kern ?m2)(fd \<mapsto> s')\<rparr>)"
    "delivered ?m2 (?m2\<lparr>n_kern := (n_kern ?m2)(fd \<mapsto> s')\<rparr>) fd (take 24 (T_PACKET_bytes ?ack))"
    by (rule write_fd_responsive [OF r lb])
  have "write_at ?m2 (Some q) (T_PACKET_bytes ?ack) 24 = write_fd ?m2 fd (T_PACKET_bytes ?ack) 24"
    by (rule write_at_is_write_fd) (use c k in \<open>simp_all add: kern_ok_def\<close>)
  then have "WorkChatServerHello m a p = Inr (?m2\<lparr>n_kern := (n_kern m)(fd \<mapsto> s')\<rparr>)"
    using c uid s(3)
    by (simp add: WorkChatServerHello_def Let_def Client_SetType_def Client_GetSocket_def SetDS_def
        mgr_GetDSMaxUser_def PDUHEADERSIZE_def)
  moreover have "delivered m (m\<lparr>n_kern := (n_kern m)(fd \<mapsto> s')\<rparr>) fd (pkt_wire ?ack)"
    using s(4) by (simp add: delivered_def wire wire_of_def takes_all_def)
  ultimately show thesis using that [of "(n_kern m)(fd \<mapsto> s')"] by simp
qed



text \<open>The environment of one successful attempt: the connection is made, the whole hello is taken by the
  kernel, and the acknowledgement arrives with a limit of \<open>n\<close> users.\<close>

definition mgr_accepts :: "int \<Rightarrow> int \<Rightarrow> mgr_env \<Rightarrow> int \<Rightarrow> bool" where
  "mgr_accepts now pid e n \<longleftrightarrow>
     (let uid = word_of_int (now + pid) in
      me_connected e \<and> 0 < me_fd e \<and> - (2 ^ 31) \<le> n \<and> n < 2 ^ 31 \<and>
      (\<exists>later. me_reply e = Some (pkt_wire (hello_ack uid n) @ later)) \<and>
      (\<exists>t x. write_loop (tx (me_sock e)) (pkt_wire (hello_packet uid)) (wire (me_sock e)) = Inr (True, t, x)))"

lemma NegotiationWithManager_ok:
  assumes acc: "mgr_accepts now pid e n"
  defines "uid \<equiv> word_of_int (now + pid)"
  obtains s where "NegotiationWithManager now pid e w = Inr (Some (cs_next w),
      w\<lparr>m_uniqId := uid, m_iMaxUser := n, cs_next := Suc (cs_next w), n_socks := (n_socks w)(cs_next w \<mapsto> me_fd e),
        n_kern := (n_kern w)(me_fd e \<mapsto> s)\<rparr>)"
    "wire s = wire (me_sock e) @ pkt_wire (hello_packet uid)" "so_flags s = O_NDELAY"
proof -
  let ?hello = "hello_packet uid" and ?ack = "hello_ack uid n"
  obtain later t x where e: "me_connected e" "0 < me_fd e" "me_reply e = Some (pkt_wire ?ack @ later)"
      and tx: "write_loop (tx (me_sock e)) (pkt_wire ?hello) (wire (me_sock e)) = Inr (True, t, x)"
      and n: "- (2 ^ 31) \<le> n" "n < 2 ^ 31"
    using acc unfolding mgr_accepts_def uid_def Let_def by blast
  have x: "x = wire (me_sock e) @ pkt_wire ?hello"
    using write_loop_prefix [OF tx] by auto
  have rd: "mem_read (T_PACKET_bytes ?hello) 0 12 = Inr (pkt_wire ?hello)"
    using hello_packet_ok(1,2) [of uid] by (simp add: mem_read_ok pkt_wire_def pkt_ok_def)
  have "take 24 (pkt_wire ?ack @ later) = pkt_wire ?ack"
    using length_pkt_wire [OF hello_ack_ok(1)] by (simp add: hello_ack_ok(2))
  then have ack: "sint (ack_iMaxUser (Tcmd_HELLO_DSM_DS_of (pkt_data (T_PACKET_of
      (mem_put (T_PACKET_bytes T_PACKET_zero) 0 (take 24 (pkt_wire ?ack @ later))))))) = n"
    using n by (simp add: T_PACKET_of_wire [OF hello_ack_ok(1)] hello_ack_ok(3)
        sint_sbintrunc' signed_take_bit_int_eq_self)
  show thesis
    using that [of "(me_sock e)\<lparr>m_iFd := me_fd e, tx := t, wire := x, so_flags := O_NDELAY\<rparr>"] e tx rd ack x
    by (simp add: NegotiationWithManager_def Let_def socket_new_def GetUniqId_def write_at_def
        Socket_Write_def SetMaxUser_def uid_def)
qed

lemma ConnectToMgr_ok:
  assumes "\<forall>i < length es. mgr_accepts (now (length es - Suc i)) pid (es ! i) (n i)" "distinct (map me_fd es)"
  shows "\<exists>w'. ConnectToMgr now pid es w = Inr w' \<and>
    m_lstChatManagerSocket w' = m_lstChatManagerSocket w @ map Some [cs_next w ..< cs_next w + length es] \<and>
    (es \<noteq> [] \<longrightarrow> m_uniqId w' = word_of_int (now 0 + pid) \<and> m_iMaxUser w' = n (length es - 1)) \<and>
    (\<forall>i < length es. n_socks w' (cs_next w + i) = Some (me_fd (es ! i)) \<and>
       wire_of w' (me_fd (es ! i)) =
         wire (me_sock (es ! i)) @ pkt_wire (hello_packet (word_of_int (now (length es - Suc i) + pid)))) \<and>
    (\<forall>p < cs_next w. n_socks w' p = n_socks w p) \<and>
    (\<forall>fd. fd \<notin> me_fd ` set es \<longrightarrow> n_kern w' fd = n_kern w fd)"
  using assms
proof (induction es arbitrary: w n)
  case Nil
  then show ?case by simp
next
  case (Cons e es)
  have "mgr_accepts (now (length es)) pid e (n 0)" using Cons.prems(1) by force
  then obtain s where s: "NegotiationWithManager (now (length es)) pid e w = Inr (Some (cs_next w),
      w\<lparr>m_uniqId := word_of_int (now (length es) + pid), m_iMaxUser := n 0, cs_next := Suc (cs_next w),
        n_socks := (n_socks w)(cs_next w \<mapsto> me_fd e), n_kern := (n_kern w)(me_fd e \<mapsto> s)\<rparr>)"
      "wire s = wire (me_sock e) @ pkt_wire (hello_packet (word_of_int (now (length es) + pid)))"
    by (rule NegotiationWithManager_ok)
  let ?w1 = "w\<lparr>m_uniqId := word_of_int (now (length es) + pid), m_iMaxUser := n 0, cs_next := Suc (cs_next w),
        n_socks := (n_socks w)(cs_next w \<mapsto> me_fd e), n_kern := (n_kern w)(me_fd e \<mapsto> s),
        m_lstChatManagerSocket := m_lstChatManagerSocket w @ [Some (cs_next w)]\<rparr>"
  have "\<forall>i < length es. mgr_accepts (now (length es - Suc i)) pid (es ! i) (n (Suc i))"
    using Cons.prems(1) by force
  moreover have d: "distinct (map me_fd es)" "me_fd e \<notin> me_fd ` set es" using Cons.prems(2) by auto
  ultimately obtain w' where w': "ConnectToMgr now pid es ?w1 = Inr w'"
    "m_lstChatManagerSocket w' = m_lstChatManagerSocket ?w1 @ map Some [cs_next ?w1 ..< cs_next ?w1 + length es]"
    "es \<noteq> [] \<longrightarrow> m_uniqId w' = word_of_int (now 0 + pid) \<and> m_iMaxUser w' = n (Suc (length es - 1))"
    "\<forall>i < length es. n_socks w' (cs_next ?w1 + i) = Some (me_fd (es ! i)) \<and>
       wire_of w' (me_fd (es ! i)) =
         wire (me_sock (es ! i)) @ pkt_wire (hello_packet (word_of_int (now (length es - Suc i) + pid)))"
    "\<forall>p < cs_next ?w1. n_socks w' p = n_socks ?w1 p"
    "\<forall>fd. fd \<notin> me_fd ` set es \<longrightarrow> n_kern w' fd = n_kern ?w1 fd"
    using Cons.IH [of "\<lambda>i. n (Suc i)" ?w1] by blast
  have run: "ConnectToMgr now pid (e # es) w = Inr w'" using s(1) w'(1) by simp
  have lst: "m_lstChatManagerSocket w' = m_lstChatManagerSocket w @ map Some [cs_next w ..< cs_next w + length (e # es)]"
    using w'(2) by (simp add: upt_conv_Cons del: upt_Suc)
  have uid: "m_uniqId w' = word_of_int (now 0 + pid) \<and> m_iMaxUser w' = n (length (e # es) - 1)"
    using w'(1,3) by (cases es) auto
  have each: "n_socks w' (cs_next w + i) = Some (me_fd ((e # es) ! i)) \<and>
       wire_of w' (me_fd ((e # es) ! i)) =
         wire (me_sock ((e # es) ! i)) @ pkt_wire (hello_packet (word_of_int (now (length (e # es) - Suc i) + pid)))"
    if "i < length (e # es)" for i
  proof (cases i)
    case 0
    then show ?thesis using w'(5,6) s(2) d(2) by (simp add: wire_of_def)
  next
    case (Suc j)
    then show ?thesis using w'(4) that by simp
  qed
  show ?case using run lst uid each w'(5,6) by auto
qed


definition demo_env :: mgr_env where
  "demo_env = \<lparr>me_fd = 8, me_sock = Socket_new 8 [] [TxTake 100], me_connected = True,
     me_reply = Some (pkt_wire (hello_ack 6 40000))\<rparr>"

lemma demo_env_accepts: "mgr_accepts 5 1 demo_env 40000"
proof -
  have "length (pkt_wire (hello_packet 6)) = 12"
    using length_pkt_wire [OF hello_packet_ok(1)] by (simp add: hello_packet_ok(2))
  then obtain b bs where "pkt_wire (hello_packet 6) = b # bs" "length bs = 11"
    by (cases "pkt_wire (hello_packet 6)") auto
  then show ?thesis by (simp add: mgr_accepts_def demo_env_def Socket_new_def)
qed


lemma uint_small: "0 \<le> x \<Longrightarrow> x < 2 ^ 31 \<Longrightarrow> uint (word_of_int x :: 64 word) = x"
  by (simp add: uint_word_of_int)

text \<open>A server whose managers accepted at different readings of the clock gets its own messages back from all
  but the last: the manager at \<open>i\<close> has registered the identifier of its own hello, the server sends
  under the last one, and the relay does not recognise it.\<close>

theorem stale_identifier_echoes:
  assumes acc: "\<forall>i < length es. mgr_accepts (now (length es - Suc i)) pid (es ! i) (n i)" "distinct (map me_fd es)"
    and i: "i < length es" "now (length es - Suc i) \<noteq> now 0"
    and range: "0 \<le> now (length es - Suc i) + pid" "now (length es - Suc i) + pid < 2 ^ 31"
      "0 \<le> now 0 + pid" "now 0 + pid < 2 ^ 31"
    and m: "cm_wf m" "a \<in> set (m_lstChatServer m)" "cm_clients m a = Some c" "m_cSocket c = Some q"
      "n_socks m q = Some fd" "cc_uniqId c = word_of_int (now (length es - Suc i) + pid)"
  shows "\<exists>w'. ConnectToMgr now pid es w = Inr w' \<and> fd \<in> set (relay_fds m (m_uniqId w'))"
proof -
  have "es \<noteq> []" using i(1) by auto
  then obtain w' where w': "ConnectToMgr now pid es w = Inr w'" "m_uniqId w' = word_of_int (now 0 + pid)"
    using ConnectToMgr_ok [OF acc, of w] by blast
  let ?u = "word_of_int (now (length es - Suc i) + pid) :: 64 word" and ?v = "word_of_int (now 0 + pid) :: 64 word"
  have uv: "uint ?u = now (length es - Suc i) + pid" "uint ?v = now 0 + pid"
    using range by (simp_all only: uint_small)
  then have "?u \<noteq> ?v" using i(2) by auto
  moreover have "(scast (cc_GetUniqId c) :: 64 word) = ?u"
    using origin_compare [of ?u] range uv(1) by (simp add: cc_GetUniqId_def m(6))
  ultimately have "relay_fd m ?v a = Some fd" using m(3-5) by (simp add: relay_fd_def)
  then have "fd \<in> set (relay_fds m ?v)" using m(2) unfolding relay_fds_def set_map_filter by blast
  then show ?thesis using w' by auto
qed

definition demo_env_early :: mgr_env where
  "demo_env_early = \<lparr>me_fd = 9, me_sock = Socket_new 9 [] [TxTake 100], me_connected = True,
     me_reply = Some (pkt_wire (hello_ack 77 40000))\<rparr>"

lemma demo_env_early_accepts: "mgr_accepts 76 1 demo_env_early 40000"
proof -
  have "length (pkt_wire (hello_packet 77)) = 12"
    using length_pkt_wire [OF hello_packet_ok(1)] by (simp add: hello_packet_ok(2))
  then obtain b bs where "pkt_wire (hello_packet 77) = b # bs" "length bs = 11"
    by (cases "pkt_wire (hello_packet 77)") auto
  then show ?thesis by (simp add: mgr_accepts_def demo_env_early_def Socket_new_def)
qed

theorem stale_identifier_echoes_witness:
  "\<exists>w'. ConnectToMgr (\<lambda>k. if k = 1 then 76 else 5) 1 [demo_env_early, demo_env] demo_server = Inr w' \<and>
     4 \<in> set (relay_fds demo_manager (m_uniqId w'))"
proof -
  have "\<forall>i < length [demo_env_early, demo_env].
      mgr_accepts (if length [demo_env_early, demo_env] - Suc i = 1 then 76 else 5) 1 ([demo_env_early, demo_env] ! i) 40000"
    using demo_env_accepts demo_env_early_accepts by (auto simp: less_Suc_eq)
  moreover have "distinct (map me_fd [demo_env_early, demo_env])" by (simp add: demo_env_def demo_env_early_def)
  ultimately show ?thesis
    using stale_identifier_echoes [of "[demo_env_early, demo_env]" "\<lambda>k. if k = 1 then 76 else 5" 1 "\<lambda>_. 40000" 0
        demo_manager 10 _ 1 4 demo_server] demo_manager_wf(1)
    by (simp del: ConnectToMgr.simps)
qed

section \<open>From a user on one server to the users on another\<close>

text \<open>The bytes that a step of the sender adds to a descriptor are what the receiver finds in its ring.\<close>

definition arrived :: "'z Client_scheme \<Rightarrow> 'x net_scheme \<Rightarrow> 'y net_scheme \<Rightarrow> int \<Rightarrow> bool" where
  "arrived c w w' fd \<longleftrightarrow>
     cb_half (m_cCBuff c) \<and> cb_contents (m_cCBuff c) = drop (length (wire_of w fd)) (wire_of w' fd)"

text \<open>The server, the manager and the receiving server of one message.\<close>

definition server_ready :: "ChatServer \<Rightarrow> BroadcastMessage \<Rightarrow> nat \<Rightarrow> int \<Rightarrow> bool" where
  "server_ready A bm n fdm \<longleftrightarrow>
     cs_wf A \<and> kern_ok A \<and> managers_ok A \<and> fdm \<in> manager_fds A \<and>
     length (msg_block bm) = 1024 \<and> messageSize bm = int n \<and> 0 < n \<and> n \<le> 1024 \<and> messageType bm \<noteq> RELAYED_MESSAGE \<and>
     (\<forall>fd \<in> manager_fds A. responsive A fd (pkt_wire (relay_of (m_uniqId A) bm))) \<and>
     (\<forall>fd \<in> set (recipients A (msg_socket bm)). responsive A fd (take n (msg_block bm))) \<and>
     takes_all A fdm (pkt_wire (relay_of (m_uniqId A) bm))"

definition manager_ready :: "ChatManager \<Rightarrow> nat \<Rightarrow> ClientChatServer \<Rightarrow> int \<Rightarrow> T_PACKET \<Rightarrow> bool" where
  "manager_ready M a c fdb p \<longleftrightarrow>
     cm_wf M \<and> kern_ok M \<and> cm_clients M a = Some c \<and> m_pMainProcess c = Some ProcChatManager \<and>
     fdb \<in> set (relay_fds M (packet_uid p)) \<and>
     (\<forall>fd \<in> set (relay_fds M (packet_uid p)). responsive M fd (pkt_wire p)) \<and> takes_all M fdb (pkt_wire p)"

lemma manager_passes_on:
  assumes M: "manager_ready M a c fdb p" and ring: "cb_half (m_cCBuff c)" "cb_contents (m_cCBuff c) = pkt_wire p"
    and p: "relayable p"
  obtains M' where "cc_ExecuteCommand M a = Inr (0, M')"
    "drop (length (wire_of M fdb)) (wire_of M' fdb) = pkt_wire p"
proof -
  have ok: "pkt_ok p" "hdr_command (pkt_header p) = cmd_CHAT_BROADCAST" "8 \<le> pkt_len p"
    using p by (simp_all add: relayable_def)
  note Ms = M [unfolded manager_ready_def]
  have con: "cb_contents (m_cCBuff c) = pkt_wire p @ []" using ring(2) by simp
  obtain b' where b': "cc_ExecuteCommand M a =
      bindR (cm_MessageBroadcast (M\<lparr>cm_clients := (cm_clients M)(a \<mapsto> c\<lparr>m_cCBuff := b'\<rparr>)\<rparr>) (pkt_received p))
        (\<lambda>m'. Inr (0, m'))"
    by (rule cc_ExecuteCommand_broadcast [OF _ _ ring(1) con ok(1,2)]) (use Ms in auto)
  let ?M = "M\<lparr>cm_clients := (cm_clients M)(a \<mapsto> c\<lparr>m_cCBuff := b'\<rparr>)\<rparr>"
  have uid: "packet_uid (pkt_received p) = packet_uid p" by (rule packet_uid_received [OF ok(1,3)])
  have fds: "relay_fds ?M uid = relay_fds M uid" for uid
    by (rule relay_fd_client_upd) (use Ms in auto)
  have wf: "cm_wf ?M" by (rule cm_wf_client_upd) (use Ms in auto)
  have k: "kern_ok ?M" using Ms by (simp add: kern_ok_def)
  have wire: "pkt_wire (pkt_received p) = pkt_wire p" by (rule pkt_received_wire [OF ok(1)])
  have "responsive ?M fd (pkt_wire (pkt_received p))"
    if "fd \<in> set (relay_fds ?M (packet_uid (pkt_received p)))" for fd
    using that Ms unfolding fds uid wire by (simp add: responsive_def)
  then obtain K where K: "cm_MessageBroadcast ?M (pkt_received p) = Inr (?M\<lparr>n_kern := K\<rparr>)"
    "\<And>fd. fd \<in> set (relay_fds ?M (packet_uid (pkt_received p))) \<Longrightarrow>
       delivered ?M (?M\<lparr>n_kern := K\<rparr>) fd (pkt_wire (pkt_received p))"
    using cm_MessageBroadcast_deliver [OF wf k pkt_received_ok [OF ok(1)]] by metis
  have "delivered ?M (?M\<lparr>n_kern := K\<rparr>) fdb (pkt_wire p)"
    using K(2) [of fdb] Ms unfolding fds uid wire by blast
  moreover have "takes_all ?M fdb (pkt_wire p)" using Ms by (simp add: takes_all_def)
  ultimately have "drop (length (wire_of ?M fdb)) (wire_of (?M\<lparr>n_kern := K\<rparr>) fdb) = pkt_wire p"
    by (rule delivered_all)
  then show thesis using that [of "?M\<lparr>n_kern := K\<rparr>"] b' K(1) by (simp add: wire_of_def)
qed

lemma server_sends:
  assumes A: "server_ready A bm n fdm"
  obtains K where "MessageBroadcast A bm = Inr (A\<lparr>n_kern := K\<rparr>)"
    "drop (length (wire_of A fdm)) (wire_of (A\<lparr>n_kern := K\<rparr>) fdm) = pkt_wire (relay_of (m_uniqId A) bm)"
proof -
  note As = A [unfolded server_ready_def]
  obtain K where K: "MessageBroadcast A bm = Inr (A\<lparr>n_kern := K\<rparr>)"
    "delivered A (A\<lparr>n_kern := K\<rparr>) fdm (pkt_wire (relay_of (m_uniqId A) bm))"
  proof (rule MessageBroadcast_deliver [of A bm n])
    fix K assume "MessageBroadcast A bm = Inr (A\<lparr>n_kern := K\<rparr>)"
      "\<And>fd. fd \<in> manager_fds A \<Longrightarrow> messageType bm \<noteq> RELAYED_MESSAGE \<Longrightarrow>
        delivered A (A\<lparr>n_kern := K\<rparr>) fd (pkt_wire (relay_of (m_uniqId A) bm))"
    then show thesis using As that by blast
  qed (use As in auto)
  then show thesis using that delivered_all [OF K(2)] As by blast
qed

text \<open>C1: A user's text of \<open>n\<close> bytes broadcast by server \<open>A\<close> goes to its manager, which passes it on to another
  server, which turns it into a relayed message for its own users: whenever the descriptors on the way
  take what is written and the bytes arrive, every step completes, and the message that the other server will
  broadcast is the text with its last byte replaced by NUL, marked so that it is not relayed again.\<close>

theorem text_crosses_servers:
  assumes A: "server_ready A bm n fdm"
  shows "\<exists>A'. MessageBroadcast A bm = Inr A' \<and>
    (\<forall>M a c fdb. manager_ready M a c fdb (relay_of (m_uniqId A) bm) \<and> arrived c A A' fdm \<longrightarrow>
       (\<exists>M'. cc_ExecuteCommand M a = Inr (0, M') \<and>
         (\<forall>d junk fd. m_eType d = CLIENT_CHAT_MANAGER \<and> m_pMainProcess d = Some ProcChatServer \<and> arrived d M M' fdb \<longrightarrow>
            (\<exists>d' bm'. ChatUser_ExecuteCommand junk fd d = Inr (0, d', Some bm') \<and> cb_contents (m_cCBuff d') = [] \<and>
               messageType bm' = RELAYED_MESSAGE \<and> messageSize bm' = int n \<and>
               take n (msg_block bm') = take (n - 1) (msg_block bm) @ [0]))))"
proof -
  note As = A [unfolded server_ready_def]
  let ?p = "relay_of (m_uniqId A) bm"
  have bm: "length (msg_block bm) = 1024" "messageSize bm = int n" "n \<le> 1024" "0 < n" using As by auto
  have p: "relayable ?p" by (rule relay_of_ok(3) [OF bm])
  obtain K where K: "MessageBroadcast A bm = Inr (A\<lparr>n_kern := K\<rparr>)"
      and arr: "drop (length (wire_of A fdm)) (wire_of (A\<lparr>n_kern := K\<rparr>) fdm) = pkt_wire ?p"
    by (rule server_sends [OF A])
  have last: "\<exists>d' bm'. ChatUser_ExecuteCommand junk fd d = Inr (0, d', Some bm') \<and> cb_contents (m_cCBuff d') = [] \<and>
      messageType bm' = RELAYED_MESSAGE \<and> messageSize bm' = int n \<and>
      take n (msg_block bm') = take (n - 1) (msg_block bm) @ [0]"
    if d: "m_eType d = CLIENT_CHAT_MANAGER" "m_pMainProcess d = Some ProcChatServer" "cb_half (m_cCBuff d)"
      "cb_contents (m_cCBuff d) = pkt_wire ?p" for d junk fd
  proof -
    obtain b' where "ChatUser_ExecuteCommand junk fd d = Inr (0, d\<lparr>m_cCBuff := b'\<rparr>, Some (relayed_message junk fd ?p))"
        "cb_contents b' = []"
      by (rule ExecuteCommand_relays [OF d(1-3) _ p, of "[]"]) (use d(4) in simp_all)
    then show ?thesis using relayed_message_of_relay [OF bm] by auto
  qed
  show ?thesis
  proof (intro exI [of _ "A\<lparr>n_kern := K\<rparr>"] conjI allI impI K, elim conjE)
    fix M a c fdb assume M: "manager_ready M a c fdb ?p" and c: "arrived c A (A\<lparr>n_kern := K\<rparr>) fdm"
    obtain M' where M': "cc_ExecuteCommand M a = Inr (0, M')" "drop (length (wire_of M fdb)) (wire_of M' fdb) = pkt_wire ?p"
      by (rule manager_passes_on [OF M _ _ p]) (use c arr in \<open>auto simp: arrived_def\<close>)
    then show "\<exists>M'. cc_ExecuteCommand M a = Inr (0, M') \<and>
         (\<forall>d junk fd. m_eType d = CLIENT_CHAT_MANAGER \<and> m_pMainProcess d = Some ProcChatServer \<and> arrived d M M' fdb \<longrightarrow>
            (\<exists>d' bm'. ChatUser_ExecuteCommand junk fd d = Inr (0, d', Some bm') \<and> cb_contents (m_cCBuff d') = [] \<and>
               messageType bm' = RELAYED_MESSAGE \<and> messageSize bm' = int n \<and>
               take n (msg_block bm') = take (n - 1) (msg_block bm) @ [0]))"
      using last by (intro exI [of _ M']) (auto simp: arrived_def)
  qed
qed

theorem text_crosses_servers_witness:
  "\<exists>A' b b' M' d' bm'. MessageBroadcast demo_server demo_message = Inr A' \<and>
     cc_ExecuteCommand (demo_manager\<lparr>cm_clients := (cm_clients demo_manager)(10 \<mapsto>
        SetMainProcess (ClientChatServer_new (\<lambda>_. 0) 77 0 (Some 1)) ProcChatManager\<lparr>m_cCBuff := b\<rparr>)\<rparr>) 10 = Inr (0, M') \<and>
     ChatUser_ExecuteCommand (\<lambda>_. 0) 6 (new_user (\<lambda>_. 0) 0 (Some 3) CLIENT_CHAT_MANAGER\<lparr>m_cCBuff := b'\<rparr>) =
       Inr (0, d', Some bm') \<and> take 2 (msg_block bm') = [104, 0]"
proof -
  let ?p = "relay_of 77 demo_message"
  have ok: "pkt_ok ?p" using relay_of_ok(2) [of demo_message 2 77] by simp
  have len: "length (pkt_wire ?p) \<le> 4096" using length_pkt_wire [OF ok] ok by (simp add: pkt_ok_def)
  have A: "server_ready demo_server demo_message 2 6"
  proof -
    have "takes_all demo_server 6 (pkt_wire ?p)"
      using len by (intro takes_all_one [of _ _ "Socket_new 6 [] [TxTake 4096]" 4096]) (simp_all add: Socket_new_def)
    moreover have "takes_all demo_server 5 [104, 105]"
      by (rule takes_all_one [of _ _ "Socket_new 5 [] [TxTake 4096]" 4096]) (simp_all add: Socket_new_def)
    moreover have "takes_all w fd bs \<Longrightarrow> responsive w fd bs" for w :: ChatServer and fd bs
      by (auto simp: takes_all_def responsive_def)
    ultimately show ?thesis
      using demo_server_wf demo_server_ok by (simp add: server_ready_def)
  qed
  obtain K where K: "MessageBroadcast demo_server demo_message = Inr (demo_server\<lparr>n_kern := K\<rparr>)"
      "drop (length (wire_of demo_server 6)) (wire_of (demo_server\<lparr>n_kern := K\<rparr>) 6) = pkt_wire ?p"
    using server_sends [OF A] by auto
  obtain b where b: "cb_half b" "cb_contents b = pkt_wire ?p" using ring_holding [of "pkt_wire ?p"] len by auto
  let ?c = "SetMainProcess (ClientChatServer_new (\<lambda>_. 0) 77 0 (Some 1)) ProcChatManager\<lparr>m_cCBuff := b\<rparr>"
  let ?M = "demo_manager\<lparr>cm_clients := (cm_clients demo_manager)(10 \<mapsto> ?c)\<rparr>"
  have c: "m_cSocket ?c = Some 1" "cc_uniqId ?c = 77" "m_pMainProcess ?c = Some ProcChatManager" by simp_all
  have fds: "relay_fds ?M (packet_uid ?p) = [5]"
    using relay_fd_client_upd [of demo_manager 10 _ ?c 77] c
    by (simp add: cb_uid_of_relay relay_fds_def List.map_filter_def relay_fd_def cc_GetUniqId_def)
  have t5: "takes_all ?M 5 (pkt_wire ?p)"
    using len by (intro takes_all_one [of _ _ "Socket_new 5 [] [TxTake 4096]" 4096]) (simp_all add: Socket_new_def)
  moreover have "cm_wf ?M"
    using cm_wf_client_upd [OF demo_manager_wf(1), of 10 _ ?c] c by simp
  moreover have "kern_ok ?M" using demo_manager_wf(2) by (simp add: kern_ok_def)
  moreover have "responsive ?M 5 (pkt_wire ?p)" using t5 by (auto simp: takes_all_def responsive_def)
  ultimately have M: "manager_ready ?M 10 ?c 5 ?p" using c fds by (simp add: manager_ready_def)
  obtain M' where M': "cc_ExecuteCommand ?M 10 = Inr (0, M')" "drop (length (wire_of ?M 5)) (wire_of M' 5) = pkt_wire ?p"
    by (rule manager_passes_on [OF M]) (use b relay_of_ok(3) [of demo_message 2 77] in auto)
  let ?d = "new_user (\<lambda>_. 0) 0 (Some 3) CLIENT_CHAT_MANAGER\<lparr>m_cCBuff := b\<rparr>"
  have d: "m_eType ?d = CLIENT_CHAT_MANAGER" "m_pMainProcess ?d = Some ProcChatServer" "arrived ?d ?M M' 5"
      "arrived ?c demo_server (demo_server\<lparr>n_kern := K\<rparr>) 6"
    using b K(2) M'(2) by (simp_all add: arrived_def)
  have uid: "m_uniqId demo_server = 77" by simp
  obtain A' where A': "MessageBroadcast demo_server demo_message = Inr A'" and
    step: "\<And>M a c fdb. manager_ready M a c fdb ?p \<Longrightarrow> arrived c demo_server A' 6 \<Longrightarrow>
       \<exists>M'. cc_ExecuteCommand M a = Inr (0, M') \<and>
         (\<forall>d junk fd. m_eType d = CLIENT_CHAT_MANAGER \<and> m_pMainProcess d = Some ProcChatServer \<and> arrived d M M' fdb \<longrightarrow>
            (\<exists>d' bm'. ChatUser_ExecuteCommand junk fd d = Inr (0, d', Some bm') \<and> cb_contents (m_cCBuff d') = [] \<and>
               messageType bm' = RELAYED_MESSAGE \<and> messageSize bm' = int 2 \<and>
               take 2 (msg_block bm') = take (2 - 1) (msg_block demo_message) @ [0]))"
    using text_crosses_servers [OF A, unfolded uid] by blast
  have "A' = demo_server\<lparr>n_kern := K\<rparr>" using A' K(1) by simp
  then obtain M'' where M'': "cc_ExecuteCommand ?M 10 = Inr (0, M'')" and
    last: "\<And>d junk fd. m_eType d = CLIENT_CHAT_MANAGER \<Longrightarrow> m_pMainProcess d = Some ProcChatServer \<Longrightarrow> arrived d ?M M'' 5 \<Longrightarrow>
            (\<exists>d' bm'. ChatUser_ExecuteCommand junk fd d = Inr (0, d', Some bm') \<and> cb_contents (m_cCBuff d') = [] \<and>
               messageType bm' = RELAYED_MESSAGE \<and> messageSize bm' = int 2 \<and>
               take 2 (msg_block bm') = take (2 - 1) (msg_block demo_message) @ [0])"
    using step [OF M] d(4) by blast
  have "M'' = M'" using M'' M'(1) by simp
  then obtain d' bm' where "ChatUser_ExecuteCommand (\<lambda>_. 0) 6 ?d = Inr (0, d', Some bm')"
      "take 2 (msg_block bm') = take (2 - 1) (msg_block demo_message) @ [0]"
    using last [OF d(1,2)] d(3) by blast
  moreover have "take (2 - 1) (msg_block demo_message) = [104]" by (simp add: demo_message_def user_message_def)
  ultimately have "take 2 (msg_block bm') = [104, 0]" by simp
  then show ?thesis using K(1) M'(1) \<open>ChatUser_ExecuteCommand (\<lambda>_. 0) 6 ?d = Inr (0, d', Some bm')\<close> by blast
qed

end
